(* ===== verification/Reft_Prelude.thy ===== *)
theory Reft_Prelude
  imports Main "HOL-Library.Word" "HOL-Library.List_Lexorder" "HOL-Library.Sublist"
begin

unbundle bit_operations_syntax

text \<open>
  Shared vocabulary of the reftable development: bytes, C strings, the result type of fallible
  operations, the parameters that stand for code outside of the sources (declared in headers or
  in zlib), and the generic lemmas on lists and words that the component theories share.
\<close>

section \<open>Results: values, error codes and crashes\<close>

text \<open>
  A C function of the library returns a non-negative \<open>int\<close> on success and a negative error code
  otherwise. \<open>GENERAL_ERROR\<close> is the plain \<open>-1\<close>; the other constructors carry the names of the
  \<open>REFTABLE_*_ERROR\<close> codes.
\<close>

datatype error =
    GENERAL_ERROR
  | IO_ERROR
  | FORMAT_ERROR
  | NOT_EXIST_ERROR
  | LOCK_ERROR
  | API_ERROR
  | ZLIB_ERROR
  | EMPTY_TABLE_ERROR
  | REFNAME_ERROR
  | ENTRY_TOO_BIG_ERROR
  | OUTDATED_ERROR
  | OUT_OF_MEMORY_ERROR
  | UNKNOWN_ERROR int

text \<open>
  A crash is a run that leaves the defined behaviour of C or is stopped on purpose: \<open>abort()\<close>,
  \<open>BUG()\<close>, a failing \<open>assert\<close>, an access outside of a buffer, a dereferenced \<open>NULL\<close>, a
  variable that is read before it is set.
\<close>

datatype crash = Abort | Bug | Assert_Failed | Out_Of_Bounds | Null_Deref | Uninitialised

datatype 'a res = Ok 'a | Err error | Crash crash

fun res_bind :: "'a res \<Rightarrow> ('a \<Rightarrow> 'b res) \<Rightarrow> 'b res" where
  "res_bind (Ok x) f = f x"
| "res_bind (Err e) f = Err e"
| "res_bind (Crash c) f = Crash c"

text \<open>The idiom \<open>if (n < 0) return e;\<close>: an error code is replaced, a crash is not.\<close>

fun or_error :: "error \<Rightarrow> 'a res \<Rightarrow> 'a res" where
  "or_error e (Ok x) = Ok x"
| "or_error e (Err _) = Err e"
| "or_error e (Crash c) = Crash c"

lemma res_bind_eq_Ok: "res_bind r f = Ok y \<longleftrightarrow> (\<exists>x. r = Ok x \<and> f x = Ok y)"
  by (cases r) auto

lemma or_error_eq_Ok [simp]: "or_error e r = Ok x \<longleftrightarrow> r = Ok x"
  by (cases r) auto

lemma res_bind_assoc: "res_bind (res_bind r f) g = res_bind r (\<lambda>x. res_bind (f x) g)"
  by (cases r) auto

lemma res_bind_Ok_right [simp]: "res_bind r Ok = r"
  by (cases r) auto

lemma res_bind_cong [fundef_cong]:
  "r = r' \<Longrightarrow> (\<And>x. r' = Ok x \<Longrightarrow> f x = g x) \<Longrightarrow> res_bind r f = res_bind r' g"
  by (cases r') auto

text \<open>
  A loop whose end depends on data from outside is a partial function: \<open>None\<close> is a run that does
  not return.
\<close>

type_synonym 'a run = "'a res option"

definition run_bind :: "'a run \<Rightarrow> ('a \<Rightarrow> 'b run) \<Rightarrow> 'b run" where
  "run_bind m f = (case m of
      None \<Rightarrow> None | Some (Ok x) \<Rightarrow> f x | Some (Err e) \<Rightarrow> Some (Err e) | Some (Crash c) \<Rightarrow> Some (Crash c))"

lemma run_bind_simps [simp]:
  "run_bind None f = None" "run_bind (Some (Ok x)) f = f x"
  "run_bind (Some (Err e)) f = Some (Err e)" "run_bind (Some (Crash c)) f = Some (Crash c)"
  by (simp_all add: run_bind_def)

lemma run_bind_eq_Ok: "run_bind m f = Some (Ok y) \<longleftrightarrow> (\<exists>x. m = Some (Ok x) \<and> f x = Some (Ok y))"
  by (auto simp: run_bind_def split: option.splits res.splits)

lemma run_bind_bind:
  "run_bind m f = Option.bind m (\<lambda>r. case r of Ok x \<Rightarrow> f x | Err e \<Rightarrow> Some (Err e) | Crash c \<Rightarrow> Some (Crash c))"
  by (cases m) (auto simp: run_bind_def split: res.splits)

lemma run_bind_mono [partial_function_mono]:
  assumes "mono_option B" "\<And>y. mono_option (\<lambda>f. C y f)"
  shows "mono_option (\<lambda>f. run_bind (B f) (\<lambda>y. C y f))"
proof -
  have "mono_option (\<lambda>f. case r of Ok x \<Rightarrow> C x f | Err e \<Rightarrow> Some (Err e) | Crash c \<Rightarrow> Some (Crash c))" for r :: "'c res"
    using assms(2) by (cases r) (simp_all add: option.const_mono)
  then show ?thesis
    unfolding run_bind_bind by (intro bind_mono assms(1))
qed

section \<open>Bytes, buffers and C strings\<close>

declare of_nat_diff [simp del]

type_synonym byte = "8 word"
type_synonym bytes = "8 word list"
type_synonym u16 = "16 word"
type_synonym u32 = "32 word"
type_synonym u64 = "64 word"

text \<open>
  A \<open>char *\<close> is the list of bytes of its buffer; the C string in it stops before the first
  \<open>NUL\<close>. \<open>bytes_cmp\<close> is \<open>memcmp\<close> over the length of the shorter list, reduced to its sign,
  which is all that the library looks at.
\<close>

definition c_str :: "bytes \<Rightarrow> bytes" where
  "c_str s = takeWhile (\<lambda>b. b \<noteq> 0) s"

definition strlen :: "bytes \<Rightarrow> nat" where
  "strlen s = length (c_str s)"

fun bytes_cmp :: "bytes \<Rightarrow> bytes \<Rightarrow> int" where
  "bytes_cmp (x # xs) (y # ys) =
     (if x < y then - 1 else if y < x then 1 else bytes_cmp xs ys)"
| "bytes_cmp [] ys = 0"
| "bytes_cmp (x # xs) [] = 0"

definition memcmp :: "bytes \<Rightarrow> bytes \<Rightarrow> nat \<Rightarrow> int" where
  "memcmp a b n = bytes_cmp (take n a) (take n b)"

definition strcmp :: "bytes \<Rightarrow> bytes \<Rightarrow> int" where
  "strcmp a b = bytes_cmp (c_str a @ [0]) (c_str b @ [0])"

text \<open>\<open>memcpy\<close> into a buffer, which must lie inside of it.\<close>

definition write_at :: "nat \<Rightarrow> bytes \<Rightarrow> bytes \<Rightarrow> bytes res" where
  "write_at off bs mem =
     (if off + length bs \<le> length mem
      then Ok (take off mem @ bs @ drop (off + length bs) mem)
      else Crash Out_Of_Bounds)"

text \<open>Reading \<open>n\<close> bytes at an offset.\<close>

definition read_at :: "nat \<Rightarrow> nat \<Rightarrow> bytes \<Rightarrow> bytes res" where
  "read_at off n mem =
     (if off + n \<le> length mem then Ok (take n (drop off mem)) else Crash Out_Of_Bounds)"

lemma unat_lt: "unat (x :: 'a::len word) < 2 ^ LENGTH('a)"
  by (rule unsigned_less)

lemma c_str_no_nul [simp]: "0 \<notin> set (c_str s)"
  by (auto simp: c_str_def dest: set_takeWhileD)

lemma c_str_ident [simp]: "0 \<notin> set s \<Longrightarrow> c_str s = s"
  by (auto simp: c_str_def takeWhile_eq_all_conv)

lemma c_str_idem [simp]: "c_str (c_str s) = c_str s"
  by simp

lemma c_str_append_nul: "0 \<notin> set s \<Longrightarrow> c_str (s @ 0 # t) = s"
  by (induction s) (auto simp: c_str_def)

lemma bytes_cmp_refl [simp]: "bytes_cmp xs xs = 0"
  by (induction xs) auto

lemma bytes_cmp_eq_0_iff:
  "length xs = length ys \<Longrightarrow> bytes_cmp xs ys = 0 \<longleftrightarrow> xs = ys"
  by (induction xs ys rule: bytes_cmp.induct) auto

text \<open>The sign of a comparison of two lists in the lexicographic order.\<close>

definition order_sign :: "'a::linorder \<Rightarrow> 'a \<Rightarrow> int" where
  "order_sign a b = (if a < b then - 1 else if a = b then 0 else 1)"

lemma order_sign_simps [simp]:
  "order_sign a b < 0 \<longleftrightarrow> a < b"
  "order_sign a b \<ge> 0 \<longleftrightarrow> b \<le> a"
  "order_sign a b = 0 \<longleftrightarrow> a = b"
  "order_sign a b > 0 \<longleftrightarrow> b < a"
  "order_sign a b \<le> 0 \<longleftrightarrow> a \<le> b"
  by (auto simp: order_sign_def)

lemma bytes_cmp_sign:
  "(if bytes_cmp (take (min (length a) (length b)) a) (take (min (length a) (length b)) b) \<noteq> 0
    then bytes_cmp (take (min (length a) (length b)) a) (take (min (length a) (length b)) b)
    else if length a < length b then - 1 else if length a \<noteq> length b then 1 else 0)
   = order_sign a b"
proof (induction a b rule: bytes_cmp.induct)
  case (1 x xs y ys)
  then show ?case
    by (auto simp: order_sign_def split: if_splits)
next
  case (2 ys)
  then show ?case
    by (cases ys) (auto simp: order_sign_def)
qed (auto simp: order_sign_def)

lemma bytes_cmp_nul_sign:
  "0 \<notin> set a \<Longrightarrow> 0 \<notin> set b \<Longrightarrow> bytes_cmp (a @ [0]) (b @ [0]) = order_sign a b"
proof (induction a b rule: bytes_cmp.induct)
  case (2 ys)
  then show ?case
    by (cases ys) (auto simp: order_sign_def word_neq_0_conv)
next
  case (3 x xs)
  then show ?case
    by (auto simp: order_sign_def word_neq_0_conv)
qed (auto simp: order_sign_def)

lemma strcmp_sign: "strcmp a b = order_sign (c_str a) (c_str b)"
  by (simp add: strcmp_def bytes_cmp_nul_sign)

lemma length_write_at: "write_at off bs mem = Ok mem' \<Longrightarrow> length mem' = length mem"
  by (auto simp: write_at_def split: if_splits)

section \<open>Parameters: code and constants outside of the sources\<close>

text \<open>
  The library's headers, git's byte order helpers and zlib are not part of the sources. What the
  modelled code takes from them is a parameter: a record of constants and functions that every
  definition using them receives as an argument. The enumeration of reference value types is
  stored on disk by number; the numbers themselves are such constants. \<open>alloc_array n\<close> tells
  whether the macro \<open>REFTABLE_ALLOC_ARRAY\<close> gets memory for \<open>n\<close> elements.
\<close>

datatype ref_value_type = REF_DELETION | REF_VAL1 | REF_VAL2 | REF_SYMREF

record reftable_env =
  MAX_RESTARTS :: nat
  DEFAULT_BLOCK_SIZE :: nat
  HASH_SIZE_SHA1 :: nat
  HASH_SIZE_SHA256 :: nat
  FORMAT_ID_SHA1 :: u32
  FORMAT_ID_SHA256 :: u32
  ref_type_code :: "ref_value_type \<Rightarrow> byte"
  alloc_array :: "nat \<Rightarrow> bool"
  get_be16 :: "bytes \<Rightarrow> u16"
  put_be32 :: "u32 \<Rightarrow> bytes"
  get_be32 :: "bytes \<Rightarrow> u32"
  put_be64 :: "u64 \<Rightarrow> bytes"
  get_be64 :: "bytes \<Rightarrow> u64"
  deflate :: "bytes \<Rightarrow> bytes"
  inflate :: "bytes \<Rightarrow> nat \<Rightarrow> (bytes \<times> nat) option"
  crc32 :: "bytes \<Rightarrow> u32"

text \<open>
  What the library relies on. Arrays with at least one element can be allocated. The value type numbers are distinct and fit into the three bits that
  a key keeps for them. The byte order helpers write big-endian: a fixed number of bytes, read
  back by the matching reader, and (for the 64 bit writer) ordered like the numbers. Inflating
  undoes deflating, needs exactly the room of the data, and stops at the end of the stream.
\<close>

definition alloc_ok :: "reftable_env \<Rightarrow> bool" where
  "alloc_ok E \<longleftrightarrow> (\<forall>n > 0. alloc_array E n)"

definition type_codes_ok :: "reftable_env \<Rightarrow> bool" where
  "type_codes_ok E \<longleftrightarrow> inj (ref_type_code E) \<and> (\<forall>t. ref_type_code E t < 8)"

definition be16_ok :: "reftable_env \<Rightarrow> bool" where
  "be16_ok E \<longleftrightarrow> (\<forall>hi lo rest. get_be16 E (hi # lo # rest) = push_bit 8 (ucast hi) OR ucast lo)"

definition be32_ok :: "reftable_env \<Rightarrow> bool" where
  "be32_ok E \<longleftrightarrow> (\<forall>x. length (put_be32 E x) = 4)
     \<and> (\<forall>x rest. get_be32 E (put_be32 E x @ rest) = x)"

definition be64_ok :: "reftable_env \<Rightarrow> bool" where
  "be64_ok E \<longleftrightarrow> (\<forall>x. length (put_be64 E x) = 8)
     \<and> (\<forall>x rest. get_be64 E (put_be64 E x @ rest) = x)
     \<and> (\<forall>x y. put_be64 E x < put_be64 E y \<longleftrightarrow> x < y)"

definition zlib_ok :: "reftable_env \<Rightarrow> bool" where
  "zlib_ok E \<longleftrightarrow> (\<forall>xs rest room. inflate E (deflate E xs @ rest) room =
     (if length xs \<le> room then Some (xs, length (deflate E xs)) else None))"

lemma ref_type_code_eq [simp]:
  "type_codes_ok E \<Longrightarrow> ref_type_code E a = ref_type_code E b \<longleftrightarrow> a = b"
  by (auto simp: type_codes_ok_def dest: injD)

lemma ref_type_code_less: "type_codes_ok E \<Longrightarrow> ref_type_code E a < 8"
  by (simp add: type_codes_ok_def)

lemma be64_simps:
  assumes "be64_ok E"
  shows "length (put_be64 E x) = 8" and "get_be64 E (put_be64 E x @ rest) = x"
    and "get_be64 E (put_be64 E x) = x" and "put_be64 E x < put_be64 E y \<longleftrightarrow> x < y"
    and "put_be64 E x = put_be64 E y \<longleftrightarrow> x = y"
proof -
  show "length (put_be64 E x) = 8" and get: "get_be64 E (put_be64 E x @ rest) = x"
    and "put_be64 E x < put_be64 E y \<longleftrightarrow> x < y" for x y rest
    using assms by (auto simp: be64_ok_def)
  from get [of x "[]"] show "get_be64 E (put_be64 E x) = x" for x
    using assms by (metis append_Nil2 be64_ok_def)
  then show "put_be64 E x = put_be64 E y \<longleftrightarrow> x = y" by metis
qed

end
