(* ===== verification/Reft_Sample.thy ===== *)
theory Reft_Sample
  imports Reft_Prelude
begin

unbundle bit_operations_syntax

text \<open>
  A concrete instance of the parameters of the model, on which the witnesses evaluate: big-endian
  byte order helpers, the value type numbers 0 to 3, and a compressor that marks every byte. It
  shows that the requirements on the parameters can be met together. The sizes are smaller than
  those of the headers, so that instances stay short.
\<close>

section \<open>Big-endian numbers\<close>

fun be_list :: "nat \<Rightarrow> nat \<Rightarrow> bytes" where
  "be_list 0 x = []"
| "be_list (Suc n) x = word_of_nat (x div 256 ^ n) # be_list n (x mod 256 ^ n)"

fun be_val :: "nat \<Rightarrow> bytes \<Rightarrow> nat" where
  "be_val 0 bs = 0"
| "be_val (Suc n) [] = 0"
| "be_val (Suc n) (b # bs) = unat b * 256 ^ n + be_val n bs"

lemma length_be_list [simp]: "length (be_list n x) = n"
  by (induction n arbitrary: x) auto

lemma unat_div_256: "x < 256 ^ Suc n \<Longrightarrow> unat (word_of_nat (x div 256 ^ n) :: byte) = x div 256 ^ n"
  by (simp add: unat_of_nat less_mult_imp_div_less)

lemma be_val_be_list: "x < 256 ^ n \<Longrightarrow> be_val n (be_list n x @ rest) = x"
proof (induction n arbitrary: x)
  case (Suc n)
  have "x mod 256 ^ n < 256 ^ n" by simp
  then have "be_val n (be_list n (x mod 256 ^ n) @ rest) = x mod 256 ^ n"
    by (rule Suc.IH)
  with unat_div_256 [OF Suc.prems]
  have "be_val (Suc n) (be_list (Suc n) x @ rest) = x div 256 ^ n * 256 ^ n + x mod 256 ^ n"
    by simp
  then show ?case by (simp only: div_mult_mod_eq)
qed simp

lemma be_list_less_iff:
  "x < 256 ^ n \<Longrightarrow> y < 256 ^ n \<Longrightarrow> be_list n x < be_list n y \<longleftrightarrow> x < y"
proof (induction n arbitrary: x y)
  case (Suc n)
  let ?k = "256 ^ n :: nat"
  have IH: "be_list n (x mod ?k) < be_list n (y mod ?k) \<longleftrightarrow> x mod ?k < y mod ?k"
    by (rule Suc.IH) simp_all
  have hd: "(word_of_nat (x div ?k) :: byte) < word_of_nat (y div ?k) \<longleftrightarrow> x div ?k < y div ?k"
    "(word_of_nat (x div ?k) :: byte) = word_of_nat (y div ?k) \<longleftrightarrow> x div ?k = y div ?k"
    using Suc.prems [THEN unat_div_256] by (auto simp: word_less_nat_alt word_unat_eq_iff)
  have "x < y \<longleftrightarrow> x div ?k < y div ?k \<or> x div ?k = y div ?k \<and> x mod ?k < y mod ?k"
  proof (cases "x div ?k" "y div ?k" rule: linorder_cases)
    case less
    then have "\<not> y \<le> x" using div_le_mono [of y x ?k] by linarith
    with less show ?thesis by simp
  next
    case equal
    have "x = x div ?k * ?k + x mod ?k" "y = y div ?k * ?k + y mod ?k"
      by (simp_all only: div_mult_mod_eq)
    then have "x = y div ?k * ?k + x mod ?k" "y = y div ?k * ?k + y mod ?k"
      by (simp_all only: equal)
    then have "x < y \<longleftrightarrow> x mod ?k < y mod ?k" by linarith
    with equal show ?thesis by simp
  next
    case greater
    then have "\<not> x \<le> y" using div_le_mono [of x y ?k] by linarith
    with greater show ?thesis by simp
  qed
  with IH hd show ?case by simp
qed simp

section \<open>A marking compressor\<close>

fun mark_deflate :: "bytes \<Rightarrow> bytes" where
  "mark_deflate [] = [0]"
| "mark_deflate (b # bs) = 1 # b # mark_deflate bs"

fun mark_inflate :: "bytes \<Rightarrow> (bytes \<times> nat) option" where
  "mark_inflate (m # zs) =
     (if m = 0 then Some ([], 1)
      else (case zs of [] \<Rightarrow> None
            | b # zs' \<Rightarrow> map_option (\<lambda>(xs, n). (b # xs, n + 2)) (mark_inflate zs')))"
| "mark_inflate [] = None"

lemma mark_inflate_deflate:
  "mark_inflate (mark_deflate xs @ rest) = Some (xs, length (mark_deflate xs))"
  by (induction xs) auto

section \<open>The sample parameters\<close>

fun sample_type_code :: "ref_value_type \<Rightarrow> byte" where
  "sample_type_code REF_DELETION = 0"
| "sample_type_code REF_VAL1 = 1"
| "sample_type_code REF_VAL2 = 2"
| "sample_type_code REF_SYMREF = 3"

definition sample_get_be16 :: "bytes \<Rightarrow> u16" where
  "sample_get_be16 bs = push_bit 8 (ucast (bs ! 0)) OR ucast (bs ! 1)"

definition sample_put_be32 :: "u32 \<Rightarrow> bytes" where
  "sample_put_be32 x = be_list 4 (unat x)"

definition sample_get_be32 :: "bytes \<Rightarrow> u32" where
  "sample_get_be32 bs = word_of_nat (be_val 4 bs)"

definition sample_put_be64 :: "u64 \<Rightarrow> bytes" where
  "sample_put_be64 x = be_list 8 (unat x)"

definition sample_get_be64 :: "bytes \<Rightarrow> u64" where
  "sample_get_be64 bs = word_of_nat (be_val 8 bs)"

definition sample_inflate :: "bytes \<Rightarrow> nat \<Rightarrow> (bytes \<times> nat) option" where
  "sample_inflate zs room = (case mark_inflate zs of
     Some (xs, n) \<Rightarrow> if length xs \<le> room then Some (xs, n) else None | None \<Rightarrow> None)"

definition sample_crc32 :: "bytes \<Rightarrow> u32" where
  "sample_crc32 bs = word_of_nat (sum_list (map unat bs))"

definition sample_env :: reftable_env where
  "sample_env = \<lparr>
     MAX_RESTARTS = 40,
     DEFAULT_BLOCK_SIZE = 96,
     HASH_SIZE_SHA1 = 4,
     HASH_SIZE_SHA256 = 6,
     FORMAT_ID_SHA1 = 1,
     FORMAT_ID_SHA256 = 2,
     ref_type_code = sample_type_code,
     alloc_array = (\<noteq>) 0,
     get_be16 = sample_get_be16,
     put_be32 = sample_put_be32,
     get_be32 = sample_get_be32,
     put_be64 = sample_put_be64,
     get_be64 = sample_get_be64,
     deflate = mark_deflate,
     inflate = sample_inflate,
     crc32 = sample_crc32\<rparr>"

lemma sample_type_codes_ok [simp]: "type_codes_ok sample_env"
proof -
  have "inj sample_type_code"
  proof (rule injI)
    fix a b
    assume "sample_type_code a = sample_type_code b"
    then show "a = b" by (cases a; cases b) simp_all
  qed
  moreover have "sample_type_code t < 8" for t
    by (cases t) simp_all
  ultimately show ?thesis
    by (simp add: type_codes_ok_def sample_env_def)
qed

lemma sample_alloc_ok [simp]: "alloc_ok sample_env"
  by (simp add: alloc_ok_def sample_env_def)

lemma sample_be16_ok [simp]: "be16_ok sample_env"
  by (simp add: be16_ok_def sample_env_def sample_get_be16_def)

lemma sample_be32_ok [simp]: "be32_ok sample_env"
proof -
  have "unat x < 256 ^ 4" for x :: u32
    using unsigned_less [of x] by simp
  then show ?thesis
    by (simp add: be32_ok_def sample_env_def sample_put_be32_def sample_get_be32_def be_val_be_list)
qed

lemma sample_be64_ok [simp]: "be64_ok sample_env"
proof -
  have "unat x < 256 ^ 8" for x :: u64
    using unsigned_less [of x] by simp
  then show ?thesis
    by (simp add: be64_ok_def sample_env_def sample_put_be64_def sample_get_be64_def be_val_be_list be_list_less_iff
        word_less_nat_alt)
qed

lemma sample_zlib_ok [simp]: "zlib_ok sample_env"
  by (simp add: zlib_ok_def sample_env_def sample_inflate_def mark_inflate_deflate)

lemma sample_sizes [simp]:
  "MAX_RESTARTS sample_env = 40" "DEFAULT_BLOCK_SIZE sample_env = 96" "HASH_SIZE_SHA1 sample_env = 4" "HASH_SIZE_SHA256 sample_env = 6"
  "alloc_array sample_env n \<longleftrightarrow> n \<noteq> 0" "FORMAT_ID_SHA1 sample_env = 1" "FORMAT_ID_SHA256 sample_env = 2"
  by (simp_all add: sample_env_def)

section \<open>Evaluating the instance\<close>

text \<open>The helpers by shifts of words, for evaluation without large natural numbers.\<close>

lemma be_list_words:
  assumes "8 * n \<le> LENGTH('a)"
  shows "be_list n (unat (take_bit (8 * n) (x :: 'a::len word))) = map (\<lambda>i. ucast (drop_bit (8 * i) x)) (rev [0..<n])"
  using assms
proof (induction n)
  case (Suc n)
  have p: "(256 :: nat) ^ n = 2 ^ (8 * n)" by (simp add: power_mult)
  have "unat (take_bit (8 * Suc n) x) mod 256 ^ n = unat (take_bit (8 * n) x)"
    unfolding p by (simp add: unsigned_take_bit_eq take_bit_eq_mod [symmetric] take_bit_take_bit)
  moreover have "(word_of_nat (unat (take_bit (8 * Suc n) x) div 256 ^ n) :: byte) = ucast (drop_bit (8 * n) x)"
    unfolding p drop_bit_eq_div [symmetric]
    by (rule bit_word_eqI) (use Suc.prems in \<open>simp add: bit_simps unsigned_take_bit_eq bit_of_nat_iff bit_unsigned_iff; auto\<close>)
  ultimately show ?case using Suc by simp
qed simp

lemma sample_put_be64_code [code]: "sample_put_be64 x = map (\<lambda>i. ucast (drop_bit (8 * i) x)) [7, 6, 5, 4, 3, 2, 1, 0]"
  using be_list_words [of 8 x] by (simp add: sample_put_be64_def upt_rec take_bit_word_eq_self)

lemma sample_put_be32_code [code]: "sample_put_be32 x = map (\<lambda>i. ucast (drop_bit (8 * i) x)) [3, 2, 1, 0]"
  using be_list_words [of 4 x] by (simp add: sample_put_be32_def upt_rec take_bit_word_eq_self)

lemma sample_crc32_code [code]: "sample_crc32 bs = sum_list (map ucast bs)"
  by (induction bs) (simp_all add: sample_crc32_def)

fun be_word :: "nat \<Rightarrow> bytes \<Rightarrow> 'a::len word" where
  "be_word 0 bs = 0"
| "be_word (Suc n) [] = 0"
| "be_word (Suc n) (b # bs) = ucast b * 256 ^ n + be_word n bs"

lemma be_word_val: "word_of_nat (be_val n bs) = be_word n bs"
  by (induction n bs rule: be_val.induct) simp_all

lemma sample_get_be32_code [code]: "sample_get_be32 bs = be_word 4 bs"
  by (simp add: sample_get_be32_def be_word_val)

lemma sample_get_be64_code [code]: "sample_get_be64 bs = be_word 8 bs"
  by (simp add: sample_get_be64_def be_word_val)

end
