(* ===== verification/Reft_Buf.thy ===== *)
theory Reft_Buf
  imports Reft_Sample
begin

text \<open>
  Memory allocation and the growable byte buffer of \<open>reftable_basics.c\<close>. The buffer is modelled
  with its allocation, its length and its memory, and refines a plain list of bytes: the other
  theories use the list, justified by the interface \<open>byte_buffer\<close> at the end.
\<close>

section \<open>Allocation\<close>

text \<open>
  An allocator takes a size and returns fresh memory or \<open>None\<close> for \<open>NULL\<close>. The library calls the
  function installed by \<open>reftable_set_alloc\<close> if there is one and the C library's otherwise.
\<close>

type_synonym allocator = "nat \<Rightarrow> bytes option"

definition reftable_malloc :: "allocator option \<Rightarrow> allocator \<Rightarrow> u64 \<Rightarrow> bytes option" where
  "reftable_malloc hook libc sz =
     (if sz = 0 then None
      else case hook of Some f \<Rightarrow> f (unat sz) | None \<Rightarrow> libc (unat sz))"

definition reftable_calloc :: "allocator option \<Rightarrow> allocator \<Rightarrow> u64 \<Rightarrow> u64 \<Rightarrow> bytes option" where
  "reftable_calloc hook libc nelem elsize =
     (if nelem \<noteq> 0 \<and> elsize > (- 1) div nelem then None
      else case reftable_malloc hook libc (nelem * elsize) of
             None \<Rightarrow> None
           | Some p \<Rightarrow> Some (replicate (unat (nelem * elsize)) 0))"

definition reftable_strdup :: "allocator option \<Rightarrow> allocator \<Rightarrow> bytes \<Rightarrow> bytes option" where
  "reftable_strdup hook libc str =
     (case reftable_malloc hook libc (word_of_nat (strlen str) + 1) of
        None \<Rightarrow> None
      | Some p \<Rightarrow> Some (c_str str @ [0]))"

lemma u64_mult_no_wrap:
  fixes a b :: u64
  assumes "a = 0 \<or> b \<le> (- 1) div a"
  shows "unat (a * b) = unat a * unat b"
proof (cases "a = 0")
  case False
  have max: "unat (- 1 :: u64) = 2 ^ 64 - 1"
    by (simp add: unsigned_minus_1_eq_mask mask_eq_exp_minus_1)
  from False assms have "unat b \<le> (2 ^ 64 - 1) div unat a"
    by (simp only: word_le_nat_alt unat_div max) simp
  then have "unat a * unat b \<le> unat a * ((2 ^ 64 - 1) div unat a)"
    by (rule mult_le_mono2)
  also have "\<dots> \<le> 2 ^ 64 - 1"
    by (rule times_div_less_eq_dividend)
  finally have "unat a * unat b < 2 ^ 64"
    by simp
  then show ?thesis
    by (simp add: unat_word_ariths)
qed simp

section \<open>The byte buffer\<close>

record reftable_buf =
  rb_alloc :: nat
  rb_len :: nat
  rb_mem :: bytes

definition reftable_buf_init :: reftable_buf where
  "reftable_buf_init = \<lparr>rb_alloc = 0, rb_len = 0, rb_mem = []\<rparr>"

definition reftable_buf_release :: "reftable_buf \<Rightarrow> reftable_buf" where
  "reftable_buf_release buf = reftable_buf_init"

definition reftable_buf_reset :: "reftable_buf \<Rightarrow> reftable_buf" where
  "reftable_buf_reset buf =
     (if rb_alloc buf \<noteq> 0 then buf\<lparr>rb_len := 0, rb_mem := (rb_mem buf)[0 := 0]\<rparr> else buf)"

definition reftable_buf_setlen :: "reftable_buf \<Rightarrow> nat \<Rightarrow> reftable_buf res" where
  "reftable_buf_setlen buf len =
     (if len > rb_len buf then Err GENERAL_ERROR
      else if len = rb_len buf then Ok buf
      else Ok (buf\<lparr>rb_mem := (rb_mem buf)[len := 0], rb_len := len\<rparr>))"

definition reftable_buf_cmp_mem :: "reftable_buf \<Rightarrow> reftable_buf \<Rightarrow> int" where
  "reftable_buf_cmp_mem a b =
     (let len = (if rb_len a < rb_len b then rb_len a else rb_len b);
          cmp = (if len \<noteq> 0 then memcmp (rb_mem a) (rb_mem b) len else 0)
      in if cmp \<noteq> 0 then cmp
         else if rb_len a < rb_len b then - 1 else if rb_len a \<noteq> rb_len b then 1 else 0)"

text \<open>
  Growing an array (\<open>REFTABLE_ALLOC_GROW\<close>, a macro of a header) is a parameter: given the old
  memory and the number of elements needed it returns the new memory, or \<open>None\<close> if the allocator
  fails. Relied on: the new memory is large enough and starts with the old one.
\<close>

type_synonym alloc_grow = "bytes \<Rightarrow> nat \<Rightarrow> bytes option"

definition alloc_grow_ok :: "alloc_grow \<Rightarrow> bool" where
  "alloc_grow_ok grow \<longleftrightarrow>
     (\<forall>mem nr mem'. grow mem nr = Some mem' \<longrightarrow> nr \<le> length mem' \<and> prefix mem mem')"

definition reftable_buf_add :: "alloc_grow \<Rightarrow> reftable_buf \<Rightarrow> bytes \<Rightarrow> reftable_buf res" where
  "reftable_buf_add grow buf data =
     (let newlen = rb_len buf + length data;
          grown = (if newlen + 1 > rb_alloc buf
                   then (case grow (rb_mem buf) (newlen + 1) of
                           None \<Rightarrow> Err OUT_OF_MEMORY_ERROR
                         | Some mem \<Rightarrow> Ok (buf\<lparr>rb_mem := mem, rb_alloc := length mem\<rparr>))
                   else Ok buf)
      in res_bind grown (\<lambda>buf.
         res_bind (write_at (rb_len buf) data (rb_mem buf)) (\<lambda>mem.
         Ok (buf\<lparr>rb_mem := mem[newlen := 0], rb_len := newlen\<rparr>))))"

definition reftable_buf_addstr :: "alloc_grow \<Rightarrow> reftable_buf \<Rightarrow> bytes \<Rightarrow> reftable_buf res" where
  "reftable_buf_addstr grow buf s = reftable_buf_add grow buf (c_str s)"

definition reftable_buf_detach :: "reftable_buf \<Rightarrow> bytes \<times> reftable_buf" where
  "reftable_buf_detach buf = (rb_mem buf, reftable_buf_init)"

section \<open>Invariant and refinement\<close>

text \<open>
  An allocated buffer is \<open>NUL\<close>-terminated behind its content, inside of its allocation; an
  unallocated one is empty. The content is the first \<open>rb_len\<close> bytes.
\<close>

definition buf_inv :: "reftable_buf \<Rightarrow> bool" where
  "buf_inv b \<longleftrightarrow> length (rb_mem b) = rb_alloc b \<and>
     (if rb_alloc b = 0 then rb_len b = 0 else rb_len b < rb_alloc b \<and> rb_mem b ! rb_len b = 0)"

definition buf_bytes :: "reftable_buf \<Rightarrow> bytes" where
  "buf_bytes b = take (rb_len b) (rb_mem b)"

lemma length_buf_bytes: "buf_inv b \<Longrightarrow> length (buf_bytes b) = rb_len b"
  by (auto simp: buf_inv_def buf_bytes_def split: if_splits)

lemma buf_init_refines: "buf_inv reftable_buf_init" "buf_bytes reftable_buf_init = []"
  by (simp_all add: buf_inv_def buf_bytes_def reftable_buf_init_def)

lemma buf_reset_refines:
  "buf_inv b \<Longrightarrow> buf_inv (reftable_buf_reset b)"
  "buf_inv b \<Longrightarrow> buf_bytes (reftable_buf_reset b) = []"
  by (auto simp: buf_inv_def buf_bytes_def reftable_buf_reset_def)

lemma buf_setlen_refines:
  assumes "buf_inv b"
  shows "len > length (buf_bytes b) \<Longrightarrow> reftable_buf_setlen b len = Err GENERAL_ERROR"
    and "len \<le> length (buf_bytes b) \<Longrightarrow>
      \<exists>b'. reftable_buf_setlen b len = Ok b' \<and> buf_inv b' \<and> buf_bytes b' = take len (buf_bytes b)"
  using assms length_buf_bytes [OF assms]
  by (auto simp: reftable_buf_setlen_def buf_inv_def buf_bytes_def split: if_splits)

lemma buf_add_refines:
  assumes inv: "buf_inv b" and grow: "alloc_grow_ok grow" and add: "reftable_buf_add grow b data = Ok b'"
  shows "buf_inv b'" and "buf_bytes b' = buf_bytes b @ data"
proof -
  let ?n = "rb_len b + length data"
  obtain mem mem' where len: "?n + 1 \<le> length mem" and pre: "prefix (rb_mem b) mem"
    and w: "write_at (rb_len b) data mem = Ok mem'"
    and b': "b' = b\<lparr>rb_mem := mem'[?n := 0], rb_alloc := length mem, rb_len := ?n\<rparr>"
  proof (cases "?n + 1 > rb_alloc b")
    case True
    with add obtain mem mem' where g: "grow (rb_mem b) (?n + 1) = Some mem"
      and w: "write_at (rb_len b) data mem = Ok mem'"
      and b': "b' = b\<lparr>rb_mem := mem'[?n := 0], rb_alloc := length mem, rb_len := ?n\<rparr>"
      by (auto simp: reftable_buf_add_def Let_def res_bind_eq_Ok split: option.splits)
    from g grow have "?n + 1 \<le> length mem" "prefix (rb_mem b) mem"
      by (auto simp: alloc_grow_ok_def)
    with w b' show ?thesis using that by blast
  next
    case False
    with add inv obtain mem' where w: "write_at (rb_len b) data (rb_mem b) = Ok mem'"
      and b': "b' = b\<lparr>rb_mem := mem'[?n := 0], rb_alloc := length (rb_mem b), rb_len := ?n\<rparr>"
      by (auto simp: reftable_buf_add_def Let_def res_bind_eq_Ok buf_inv_def)
    from False inv have "?n + 1 \<le> length (rb_mem b)" by (simp add: buf_inv_def)
    with w b' show ?thesis using that by blast
  qed
  from w len have mem': "mem' = take (rb_len b) mem @ data @ drop ?n mem"
    by (auto simp: write_at_def split: if_splits)
  from inv have le: "rb_len b \<le> length (rb_mem b)"
    by (auto simp: buf_inv_def split: if_splits)
  with pre have "take (rb_len b) mem = take (rb_len b) (rb_mem b)"
    by (auto simp: prefix_def)
  with mem' len le b' show "buf_bytes b' = buf_bytes b @ data"
    by (simp add: buf_bytes_def)
  from mem' len b' show "buf_inv b'"
    by (auto simp: buf_inv_def)
qed

lemma buf_cmp_refines:
  assumes "buf_inv a" "buf_inv b"
  shows "reftable_buf_cmp_mem a b = order_sign (buf_bytes a) (buf_bytes b)"
proof -
  let ?l = "min (rb_len a) (rb_len b)"
  have "memcmp (rb_mem a) (rb_mem b) ?l = bytes_cmp (take ?l (buf_bytes a)) (take ?l (buf_bytes b))"
    by (simp add: memcmp_def buf_bytes_def min.commute)
  moreover have "(if rb_len a < rb_len b then rb_len a else rb_len b) = ?l"
    by simp
  moreover have "(if ?l \<noteq> 0 then memcmp (rb_mem a) (rb_mem b) ?l else 0) = memcmp (rb_mem a) (rb_mem b) ?l"
    by (simp add: memcmp_def)
  ultimately show ?thesis
    using bytes_cmp_sign [of "buf_bytes a" "buf_bytes b"] assms [THEN length_buf_bytes]
    by (simp only: reftable_buf_cmp_mem_def Let_def)
qed

section \<open>The interface of the buffer\<close>

text \<open>
  What the record and block code relies on when it keeps keys in buffers. The client lemma is the
  step of \<open>reftable_decode_key\<close>: cut a key to a prefix and append a suffix.
\<close>

locale byte_buffer =
  fixes inv :: "'b \<Rightarrow> bool"
    and content :: "'b \<Rightarrow> bytes"
    and reset :: "'b \<Rightarrow> 'b"
    and setlen :: "'b \<Rightarrow> nat \<Rightarrow> 'b res"
    and good :: "'g \<Rightarrow> bool"
    and add :: "'g \<Rightarrow> 'b \<Rightarrow> bytes \<Rightarrow> 'b res"
    and cmp :: "'b \<Rightarrow> 'b \<Rightarrow> int"
  assumes inv_reset: "inv b \<Longrightarrow> inv (reset b)"
    and content_reset: "inv b \<Longrightarrow> content (reset b) = []"
    and setlen_long: "inv b \<Longrightarrow> n > length (content b) \<Longrightarrow> setlen b n = Err GENERAL_ERROR"
    and setlen_ok: "inv b \<Longrightarrow> n \<le> length (content b) \<Longrightarrow>
      \<exists>b'. setlen b n = Ok b' \<and> inv b' \<and> content b' = take n (content b)"
    and inv_add: "inv b \<Longrightarrow> good g \<Longrightarrow> add g b d = Ok b' \<Longrightarrow> inv b'"
    and content_add: "inv b \<Longrightarrow> good g \<Longrightarrow> add g b d = Ok b' \<Longrightarrow> content b' = content b @ d"
    and cmp_sign: "inv b \<Longrightarrow> inv c \<Longrightarrow> cmp b c = order_sign (content b) (content c)"
begin

lemma replace_suffix:
  assumes "inv b" "good g" "n \<le> length (content b)"
    and "res_bind (setlen b n) (\<lambda>b. add g b d) = Ok b'"
  shows "inv b'" and "content b' = take n (content b) @ d"
proof -
  obtain b1 where b1: "setlen b n = Ok b1" "inv b1" "content b1 = take n (content b)"
    using setlen_ok [OF assms(1,3)] by blast
  with assms(4) have "add g b1 d = Ok b'" by simp
  with b1 assms(2) show "inv b'" and "content b' = take n (content b) @ d"
    using inv_add content_add by metis+
qed

lemma assign:
  assumes "inv b" "good g" "add g (reset b) d = Ok b'"
  shows "inv b'" and "content b' = d"
  using inv_add [OF inv_reset [OF assms(1)] assms(2,3)]
    content_add [OF inv_reset [OF assms(1)] assms(2,3)] content_reset [OF assms(1)] by simp_all

lemma cmp_antisym: "inv b \<Longrightarrow> inv c \<Longrightarrow> cmp b c = - cmp c b"
  by (auto simp: cmp_sign order_sign_def)

end

interpretation rbuf: byte_buffer buf_inv buf_bytes reftable_buf_reset reftable_buf_setlen
  alloc_grow_ok reftable_buf_add reftable_buf_cmp_mem
  by unfold_locales
    (fact buf_reset_refines buf_setlen_refines buf_add_refines buf_cmp_refines)+

end
