(* ===== verification/Reft_Basics.thy ===== *)
theory Reft_Basics
  imports Reft_Buf
begin

unbundle bit_operations_syntax

text \<open>
  The rest of \<open>reftable_basics.c\<close> and \<open>reftable_error.c\<close>: big-endian integers of two and three
  bytes, the binary search that drives block seeks, lists of table names, common prefixes, hash
  sizes and error messages.
\<close>

section \<open>Definitions\<close>

subsection \<open>Buffer comparison on contents\<close>

definition reftable_buf_cmp :: "bytes \<Rightarrow> bytes \<Rightarrow> int" where
  "reftable_buf_cmp a b =
     (let len = (if length a < length b then length a else length b);
          cmp = (if len \<noteq> 0 then memcmp a b len else 0)
      in if cmp \<noteq> 0 then cmp
         else if length a < length b then - 1 else if length a \<noteq> length b then 1 else 0)"

subsection \<open>Big-endian integers\<close>

definition put_be24 :: "u32 \<Rightarrow> bytes" where
  "put_be24 i = [ucast (drop_bit 16 i AND 0xff), ucast (drop_bit 8 i AND 0xff), ucast (i AND 0xff)]"

definition get_be24 :: "bytes \<Rightarrow> u32 res" where
  "get_be24 inp = (case inp of
       b0 # b1 # b2 # _ \<Rightarrow> Ok (push_bit 16 (ucast b0) OR push_bit 8 (ucast b1) OR ucast b2)
     | _ \<Rightarrow> Crash Out_Of_Bounds)"

definition put_be16 :: "u16 \<Rightarrow> bytes" where
  "put_be16 i = [ucast (drop_bit 8 i AND 0xff), ucast (i AND 0xff)]"

subsection \<open>Binary search\<close>

text \<open>
  The callback gets the index and the caller's argument structure \<open>args\<close>, which it may update;
  it answers with the sign convention of the source: negative for failure, positive for true.
\<close>

function binsearch_loop ::
  "nat \<Rightarrow> (nat \<Rightarrow> 's \<Rightarrow> (int \<times> 's) res) \<Rightarrow> 's \<Rightarrow> nat \<Rightarrow> nat \<Rightarrow> (nat \<times> 's) res" where
  "binsearch_loop sz f args lo hi =
     (if hi - lo > 1 then
        let mid = lo + (hi - lo) div 2 in
        res_bind (f mid args) (\<lambda>(ret, args).
          if ret < 0 then Ok (sz, args)
          else if ret > 0 then binsearch_loop sz f args lo mid
          else binsearch_loop sz f args mid hi)
      else if lo \<noteq> 0 then Ok (hi, args)
      else res_bind (f 0 args) (\<lambda>(ret, args). Ok (if ret \<noteq> 0 then 0 else 1, args)))"
  by pat_completeness auto
termination
  by (relation "measure (\<lambda>(sz, f, args, lo, hi). hi - lo)") auto

declare binsearch_loop.simps [simp del]

definition binsearch :: "nat \<Rightarrow> (nat \<Rightarrow> 's \<Rightarrow> (int \<times> 's) res) \<Rightarrow> 's \<Rightarrow> (nat \<times> 's) res" where
  "binsearch sz f args = binsearch_loop sz f args 0 sz"

subsection \<open>Lists of names\<close>

text \<open>A \<open>NULL\<close>-terminated array of strings is a list of optional strings.\<close>

fun names_length :: "bytes option list \<Rightarrow> nat res" where
  "names_length [] = Crash Out_Of_Bounds"
| "names_length (None # _) = Ok 0"
| "names_length (Some _ # names) = res_bind (names_length names) (\<lambda>n. Ok (Suc n))"

fun names_equal :: "bytes option list \<Rightarrow> bytes option list \<Rightarrow> bool res" where
  "names_equal (Some x # xs) (Some y # ys) =
     (if strcmp x y \<noteq> 0 then Ok False else names_equal xs ys)"
| "names_equal (None # xs) (y # ys) = Ok (y = None)"
| "names_equal (Some x # xs) (None # ys) = Ok False"
| "names_equal _ _ = Crash Out_Of_Bounds"

text \<open>\<open>strchr\<close> finds a byte before the terminating \<open>NUL\<close>.\<close>

fun strchr :: "byte \<Rightarrow> bytes \<Rightarrow> nat option res" where
  "strchr c [] = Crash Out_Of_Bounds"
| "strchr c (b # bs) =
     (if b = c then Ok (Some 0) else if b = 0 then Ok None
      else res_bind (strchr c bs) (\<lambda>r. Ok (map_option Suc r)))"

function parse_names_loop :: "bytes \<Rightarrow> nat \<Rightarrow> nat \<Rightarrow> bytes list \<Rightarrow> bytes list res" where
  "parse_names_loop buf p stop names =
     (if p < stop then
        res_bind (strchr 10 (drop p buf)) (\<lambda>r.
          let found = (case r of Some i \<Rightarrow> p + i < stop | None \<Rightarrow> False);
              next = (if found then p + the r else stop);
              buf = (if found then buf[next := 0] else buf);
              names = (if p < next then names @ [c_str (drop p buf)] else names)
          in parse_names_loop buf (next + 1) stop names)
      else Ok names)"
  by pat_completeness auto
termination
  by (relation "measure (\<lambda>(buf, p, stop, names). stop - p)") (auto split: option.splits if_splits)

declare parse_names_loop.simps [simp del]

definition parse_names :: "bytes \<Rightarrow> nat \<Rightarrow> bytes list res" where
  "parse_names buf sz = parse_names_loop buf 0 sz []"

subsection \<open>Common prefixes, hash sizes, error messages\<close>

function common_prefix_loop :: "bytes \<Rightarrow> bytes \<Rightarrow> nat \<Rightarrow> nat" where
  "common_prefix_loop a b p =
     (if p < length a \<and> p < length b then
        (if a ! p \<noteq> b ! p then p else common_prefix_loop a b (p + 1))
      else p)"
  by pat_completeness auto
termination
  by (relation "measure (\<lambda>(a, b, p). length a - p)") auto

declare common_prefix_loop.simps [simp del]

definition common_prefix_size :: "bytes \<Rightarrow> bytes \<Rightarrow> nat" where
  "common_prefix_size a b = common_prefix_loop a b 0"

text \<open>\<open>HASH_NONE\<close> is the zero of an unset option, \<open>HASH_INVALID\<close> any other number.\<close>

datatype reftable_hash = HASH_NONE | HASH_SHA1 | HASH_SHA256 | HASH_INVALID

fun hash_size :: "reftable_env \<Rightarrow> reftable_hash \<Rightarrow> nat res" where
  "hash_size E HASH_NONE = Ok (HASH_SIZE_SHA1 E)"
| "hash_size E HASH_SHA1 = Ok (HASH_SIZE_SHA1 E)"
| "hash_size E HASH_SHA256 = Ok (HASH_SIZE_SHA256 E)"
| "hash_size E HASH_INVALID = Crash Abort"

fun nat_digits :: "nat \<Rightarrow> string" where
  "nat_digits n =
     (if n < 10 then [char_of (48 + n)] else nat_digits (n div 10) @ [char_of (48 + n mod 10)])"

declare nat_digits.simps [simp del]

definition show_int :: "int \<Rightarrow> string" where
  "show_int i = (if i < 0 then ''-'' @ nat_digits (nat (- i)) else nat_digits (nat i))"

fun reftable_error_str :: "error \<Rightarrow> string" where
  "reftable_error_str IO_ERROR = ''I/O error''"
| "reftable_error_str FORMAT_ERROR = ''corrupt reftable file''"
| "reftable_error_str NOT_EXIST_ERROR = ''file does not exist''"
| "reftable_error_str LOCK_ERROR = ''data is locked''"
| "reftable_error_str API_ERROR = ''misuse of the reftable API''"
| "reftable_error_str ZLIB_ERROR = ''zlib failure''"
| "reftable_error_str EMPTY_TABLE_ERROR = ''wrote empty table''"
| "reftable_error_str REFNAME_ERROR = ''invalid refname''"
| "reftable_error_str ENTRY_TOO_BIG_ERROR = ''entry too large''"
| "reftable_error_str OUTDATED_ERROR = ''data concurrently modified''"
| "reftable_error_str OUT_OF_MEMORY_ERROR = ''out of memory''"
| "reftable_error_str GENERAL_ERROR = ''general error''"
| "reftable_error_str (UNKNOWN_ERROR i) = ''unknown error code '' @ show_int i"


section \<open>Comparison and big-endian integers\<close>

lemma reftable_buf_cmp_sign: "reftable_buf_cmp a b = order_sign a b"
proof -
  have "(if length a < length b then length a else length b) = min (length a) (length b)"
    by simp
  moreover have "(if min (length a) (length b) \<noteq> 0 then memcmp a b (min (length a) (length b)) else 0)
      = memcmp a b (min (length a) (length b))"
    by (simp add: memcmp_def)
  ultimately show ?thesis
    using bytes_cmp_sign [of a b] by (simp only: reftable_buf_cmp_def Let_def memcmp_def)
qed

lemma reftable_buf_cmp_refines:
  "buf_inv a \<Longrightarrow> buf_inv b \<Longrightarrow> reftable_buf_cmp_mem a b = reftable_buf_cmp (buf_bytes a) (buf_bytes b)"
  by (simp add: buf_cmp_refines reftable_buf_cmp_sign)

lemma mask_numerals:
  "(0xff :: 'a::len word) = mask 8" "(0x7f :: 'a::len word) = mask 7" "(0x7 :: 'a::len word) = mask 3"
  by (simp_all add: mask_eq_exp_minus_1)

lemma length_put_be [simp]: "length (put_be24 i) = 3" "length (put_be16 j) = 2"
  by (simp_all add: put_be24_def put_be16_def)

lemma get_put_be24: "get_be24 (put_be24 i @ rest) = Ok (take_bit 24 i)"
proof -
  have "push_bit 16 (ucast (ucast (drop_bit 16 i AND 0xff) :: byte))
      OR push_bit 8 (ucast (ucast (drop_bit 8 i AND 0xff) :: byte))
      OR ucast (ucast (i AND 0xff) :: byte) = (take_bit 24 i :: u32)"
    (is "?lhs = _")
  proof (rule bit_word_eqI)
    fix n
    show "bit ?lhs n = bit (take_bit 24 i :: u32) n"
      by (cases "16 \<le> n") (auto simp: mask_numerals bit_simps)
  qed
  then show ?thesis
    by (simp add: get_be24_def put_be24_def)
qed

lemma get_put_be24_nat:
  assumes "n < 2 ^ 24"
  shows "get_be24 (put_be24 (word_of_nat n) @ rest) = Ok (word_of_nat n)"
    and "unat (word_of_nat n :: u32) = n"
proof -
  show n: "unat (word_of_nat n :: u32) = n"
    using assms by (simp add: unat_of_nat)
  have "unat (take_bit 24 (word_of_nat n :: u32)) = n"
    using assms n by (simp add: unsigned_take_bit_eq take_bit_nat_eq_self)
  then show "get_be24 (put_be24 (word_of_nat n) @ rest) = Ok (word_of_nat n)"
    using n by (simp add: get_put_be24 word_unat_eq_iff)
qed

lemma get_put_be16: "be16_ok E \<Longrightarrow> get_be16 E (put_be16 i @ rest) = i"
proof -
  assume "be16_ok E"
  moreover have "push_bit 8 (ucast (ucast (drop_bit 8 i AND 0xff) :: byte))
      OR ucast (ucast (i AND 0xff) :: byte) = i"
    by (rule bit_word_eqI) (auto simp: mask_numerals bit_simps)
  ultimately show ?thesis
    by (simp add: be16_ok_def put_be16_def)
qed

section \<open>Binary search\<close>

lemma binsearch_loop_finds:
  assumes f: "\<forall>k < sz. f k args = Ok (of_bool (P k), args)"
    and mono: "\<forall>k l. k \<le> l \<longrightarrow> l < sz \<longrightarrow> P k \<longrightarrow> P l"
    and "lo < hi" "hi \<le> sz" "lo = 0 \<or> \<not> P lo" "hi = sz \<or> P hi"
  shows "\<exists>i \<le> sz. binsearch_loop sz f args lo hi = Ok (i, args)
     \<and> (\<forall>k<i. \<not> P k) \<and> (\<forall>k. i \<le> k \<longrightarrow> k < sz \<longrightarrow> P k)"
  using assms(3-)
proof (induction "hi - lo" arbitrary: lo hi rule: less_induct)
  case less
  show ?case
  proof (cases "hi - lo > 1")
    case True
    let ?mid = "lo + (hi - lo) div 2"
    from True have mid: "lo < ?mid" "?mid < hi" by auto
    with less.prems f have fm: "f ?mid args = Ok (of_bool (P ?mid), args)" by simp
    show ?thesis
    proof (cases "P ?mid")
      case True
      with less.hyps [of ?mid lo] mid less.prems
      have "\<exists>i \<le> sz. binsearch_loop sz f args lo ?mid = Ok (i, args)
         \<and> (\<forall>k<i. \<not> P k) \<and> (\<forall>k. i \<le> k \<longrightarrow> k < sz \<longrightarrow> P k)"
        by simp
      with True \<open>hi - lo > 1\<close> fm show ?thesis
        by (simp add: binsearch_loop.simps [of sz f args lo hi] Let_def)
    next
      case False
      with less.hyps [of hi ?mid] mid less.prems
      have "\<exists>i \<le> sz. binsearch_loop sz f args ?mid hi = Ok (i, args)
         \<and> (\<forall>k<i. \<not> P k) \<and> (\<forall>k. i \<le> k \<longrightarrow> k < sz \<longrightarrow> P k)"
        by simp
      with False \<open>hi - lo > 1\<close> fm show ?thesis
        by (simp add: binsearch_loop.simps [of sz f args lo hi] Let_def)
    qed
  next
    case False
    with less.prems have hi: "hi = Suc lo" by linarith
    show ?thesis
    proof (cases "lo = 0")
      case True
      with hi less.prems f have "f 0 args = Ok (of_bool (P 0), args)" by simp
      moreover have "P 0 \<Longrightarrow> \<forall>k < sz. P k" using mono by blast
      moreover have "hi = sz \<or> (\<forall>k. hi \<le> k \<longrightarrow> k < sz \<longrightarrow> P k)"
        using less.prems mono by blast
      ultimately show ?thesis
        using hi True less.prems
        by (cases "P 0") (auto simp: binsearch_loop.simps [of sz f args 0 "Suc 0"])
    next
      case lo: False
      with less.prems have "\<not> P lo" by simp
      then have "\<forall>k<hi. \<not> P k" using mono less.prems hi by (metis less_Suc_eq_le less_le_trans lessI)
      moreover have "\<forall>k. hi \<le> k \<longrightarrow> k < sz \<longrightarrow> P k"
        using less.prems mono by (metis leD)
      ultimately show ?thesis
        using lo less.prems False by (intro exI [of _ hi]) (simp add: binsearch_loop.simps [of sz f args lo hi])
    qed
  qed
qed

lemma binsearch_finds:
  assumes "\<forall>k < sz. f k args = Ok (of_bool (P k), args)"
    and "\<forall>k l. k \<le> l \<longrightarrow> l < sz \<longrightarrow> P k \<longrightarrow> P l" and "0 < sz"
  shows "\<exists>i \<le> sz. binsearch sz f args = Ok (i, args)
     \<and> (\<forall>k<i. \<not> P k) \<and> (\<forall>k. i \<le> k \<longrightarrow> k < sz \<longrightarrow> P k)"
  unfolding binsearch_def using binsearch_loop_finds [where P = P and f = f, OF assms(1,2), of 0 sz] assms(3) by simp

section \<open>Names\<close>

lemma names_length_array: "names_length (map Some ns @ None # junk) = Ok (length ns)"
  by (induction ns) auto

lemma names_equal_array:
  "names_equal (map Some xs @ None # junk) (map Some ys @ None # junk') = Ok (map c_str xs = map c_str ys)"
proof (induction xs ys rule: list_induct2')
  case (4 x xs y ys)
  then show ?case by (simp add: strcmp_sign)
qed auto

text \<open>The reference for the name parser: cut a text at its line feeds.\<close>

fun split_on :: "byte \<Rightarrow> bytes \<Rightarrow> bytes list" where
  "split_on c [] = [[]]"
| "split_on c (b # bs) =
     (if b = c then [] # split_on c bs
      else (case split_on c bs of l # ls \<Rightarrow> (b # l) # ls | [] \<Rightarrow> []))"

lemma split_on_append: "c \<notin> set l \<Longrightarrow> split_on c (l @ c # rest) = l # split_on c rest"
  by (induction l) auto

lemma split_on_single: "c \<notin> set l \<Longrightarrow> split_on c l = [l]"
  by (induction l) auto

lemma strchr_found: "c \<notin> set l \<Longrightarrow> 0 \<notin> set l \<Longrightarrow> strchr c (l @ c # rest) = Ok (Some (length l))"
  by (induction l) auto

lemma strchr_nul: "c \<notin> set l \<Longrightarrow> 0 \<notin> set l \<Longrightarrow> c \<noteq> 0 \<Longrightarrow> strchr c (l @ 0 # rest) = Ok None"
  by (induction l) auto

lemma parse_names_loop_lines:
  assumes "0 \<notin> set body"
  shows "parse_names_loop (before @ body @ 0 # junk) (length before) (length before + length body) acc
    = Ok (acc @ filter (\<lambda>l. l \<noteq> []) (split_on 10 body))"
  using assms
proof (induction body arbitrary: before acc rule: length_induct)
  case (1 body)
  let ?buf = "before @ body @ 0 # junk" and ?p = "length before" and ?stop = "length before + length body"
  note unfold = parse_names_loop.simps [of ?buf ?p ?stop acc]
  show ?case
  proof (cases "10 \<in> set body")
    case True
    then obtain l rest where body: "body = l @ 10 # rest" and l: "10 \<notin> set l"
      by (meson split_list_first)
    with "1.prems" have nul: "0 \<notin> set l" "0 \<notin> set rest" by auto
    from body l nul have chr: "strchr 10 (drop ?p ?buf) = Ok (Some (length l))"
      by (simp add: strchr_found)
    have upd: "?buf[?p + length l := 0] = (before @ l @ [0]) @ rest @ 0 # junk"
      by (simp add: body list_update_append)
    have str: "c_str (drop ?p ((before @ l @ [0]) @ rest @ 0 # junk)) = l"
      using nul by (simp add: c_str_append_nul)
    have IH: "parse_names_loop ((before @ l @ [0]) @ rest @ 0 # junk) (length (before @ l @ [0]))
        (length (before @ l @ [0]) + length rest) acc'
        = Ok (acc' @ filter (\<lambda>l. l \<noteq> []) (split_on 10 rest))" for acc'
      using nul by (intro "1.IH" [rule_format]) (simp_all add: body)
    have lens: "?stop = length (before @ l @ [0]) + length rest" "?p < ?stop" "?p + length l < ?stop"
      by (simp_all add: body)
    show ?thesis
      using unfold chr upd str IH [of "acc @ (if l \<noteq> [] then [l] else [])"] lens l
      by (auto simp: body split_on_append add.assoc)
  next
    case False
    show ?thesis
    proof (cases "body = []")
      case True
      then show ?thesis using unfold by simp
    next
      case ne: False
      have chr: "strchr 10 (drop ?p ?buf) = Ok None"
        using False "1.prems" by (simp add: strchr_nul)
      have stop: "parse_names_loop b (?stop + 1) ?stop ns = Ok ns" for b ns
        by (subst parse_names_loop.simps) simp
      show ?thesis
        using unfold chr stop ne False "1.prems"
        by (simp add: c_str_append_nul split_on_single)
    qed
  qed
qed

lemma parse_names_lines:
  "0 \<notin> set body \<Longrightarrow>
   parse_names (body @ 0 # junk) (length body) = Ok (filter (\<lambda>l. l \<noteq> []) (split_on 10 body))"
  using parse_names_loop_lines [of body "[]" junk "[]"] by (simp add: parse_names_def)

lemma split_on_lines:
  "\<forall>n\<in>set ns. 10 \<notin> set n \<Longrightarrow> split_on 10 (concat (map (\<lambda>n. n @ [10]) ns)) = ns @ [[]]"
  by (induction ns) (auto simp: split_on_append)

section \<open>Common prefixes\<close>

lemma common_prefix_loop_lcp:
  "p \<le> length a \<Longrightarrow> p \<le> length b \<Longrightarrow>
   common_prefix_loop a b p = p + length (longest_common_prefix (drop p a) (drop p b))"
proof (induction a b p rule: common_prefix_loop.induct)
  case (1 a b p)
  note unfold = common_prefix_loop.simps [of a b p]
  show ?case
  proof (cases "p < length a \<and> p < length b")
    case True
    then have "drop p a = a ! p # drop (p + 1) a" "drop p b = b ! p # drop (p + 1) b"
      by (simp_all add: Cons_nth_drop_Suc)
    with True "1.IH" show ?thesis by (cases "a ! p = b ! p") (simp_all add: unfold)
  next
    case False
    with "1.prems" have "drop p a = [] \<or> drop p b = []" by auto
    with False show ?thesis by (cases "drop p a") (auto simp: unfold)
  qed
qed

lemma common_prefix_size_lcp: "common_prefix_size a b = length (longest_common_prefix a b)"
  by (simp add: common_prefix_size_def common_prefix_loop_lcp)

lemma common_prefix_size_bounds:
  "common_prefix_size a b \<le> length a" "common_prefix_size a b \<le> length b"
  using longest_common_prefix_prefix1 [of a b] longest_common_prefix_prefix2 [of a b]
  by (auto simp: common_prefix_size_lcp prefix_length_le)

lemma take_common_prefix_size: "take (common_prefix_size a b) a = take (common_prefix_size a b) b"
proof -
  have "take (length (longest_common_prefix a b)) a = longest_common_prefix a b"
    "take (length (longest_common_prefix a b)) b = longest_common_prefix a b"
    using longest_common_prefix_prefix1 [of a b] longest_common_prefix_prefix2 [of a b]
    by (metis append_eq_conv_conj prefix_def)+
  then show ?thesis by (simp add: common_prefix_size_lcp)
qed

lemma common_prefix_size_Nil [simp]: "common_prefix_size [] b = 0" "common_prefix_size a [] = 0"
  using common_prefix_size_bounds(1) [of "[]" b] common_prefix_size_bounds(2) [of a "[]"] by simp_all

end
