(* ===== verification/Reft_Codec.thy ===== *)
theory Reft_Codec
  imports Reft_Basics
begin

unbundle bit_operations_syntax

text \<open>
  The encoding layer of \<open>reftable_record.c\<close>: variable-length integers, length-prefixed strings and
  prefix-compressed keys. An input \<open>string_view\<close> is the list of its bytes, so that consuming
  \<open>n\<close> bytes is \<open>drop n\<close>; reading behind its end is a crash. An output view is the number of bytes
  it has room for; an encoder returns the bytes that it writes, and what it returns in C is their
  number.
\<close>

section \<open>Variable-length integers\<close>

function get_var_int_loop :: "bytes \<Rightarrow> nat \<Rightarrow> u64 \<Rightarrow> (u64 \<times> nat) res" where
  "get_var_int_loop inp ptr val =
     (if \<not> ptr < length inp then Crash Out_Of_Bounds
      else if inp ! ptr AND 0x80 \<noteq> 0 then
        (let ptr = ptr + 1 in
         if ptr > length inp then Err GENERAL_ERROR
         else if \<not> ptr < length inp then Crash Out_Of_Bounds
         else get_var_int_loop inp ptr (push_bit 7 (val + 1) OR ucast (inp ! ptr AND 0x7f)))
      else Ok (val, ptr + 1))"
  by pat_completeness auto
termination
  by (relation "measure (\<lambda>(inp, ptr, val). length inp - ptr)") auto

declare get_var_int_loop.simps [simp del]

definition get_var_int :: "bytes \<Rightarrow> (u64 \<times> nat) res" where
  "get_var_int inp =
     (if length inp = 0 then Err GENERAL_ERROR
      else get_var_int_loop inp 0 (ucast (inp ! 0 AND 0x7f)))"

lemma unat_drop_bit_7: "unat (drop_bit 7 (v :: u64)) = unat v div 128"
  by (simp add: drop_bit_eq_div unat_div)

lemma drop_bit_7_decreases: "drop_bit 7 (v :: u64) \<noteq> 0 \<Longrightarrow> unat (drop_bit 7 v - 1) < unat v"
proof -
  assume nz: "drop_bit 7 v \<noteq> 0"
  then have "unat (drop_bit 7 v - 1) = unat (drop_bit 7 v) - 1"
    by (simp add: unat_minus_one)
  moreover have "unat (drop_bit 7 v) = unat v div 128"
    by (rule unat_drop_bit_7)
  moreover have "unat (drop_bit 7 v) \<noteq> 0"
    using nz by (simp add: unat_eq_0)
  ultimately show ?thesis by linarith
qed

text \<open>
  The C loop fills a buffer of ten bytes from its end; here the bytes written so far are the list
  \<open>buf\<close>.
\<close>

function put_var_int_loop :: "u64 \<Rightarrow> bytes \<Rightarrow> bytes" where
  "put_var_int_loop val buf =
     (let val = drop_bit 7 val in
      if val = 0 then buf
      else let val = val - 1 in
           put_var_int_loop val ((0x80 OR ucast (val AND 0x7f)) # buf))"
  by pat_completeness auto
termination
  by (relation "measure (\<lambda>(val, buf). unat val)") (auto simp: drop_bit_7_decreases)

declare put_var_int_loop.simps [simp del]

definition put_var_int :: "nat \<Rightarrow> u64 \<Rightarrow> bytes res" where
  "put_var_int room val =
     (let buf = put_var_int_loop val [ucast (val AND 0x7f)] in
      if room < length buf then Err GENERAL_ERROR else Ok buf)"

section \<open>Strings and keys\<close>

definition decode_string :: "bytes \<Rightarrow> (bytes \<times> nat) res" where
  "decode_string inp =
     res_bind (or_error GENERAL_ERROR (get_var_int inp)) (\<lambda>(tsize, n).
       let inp = drop n inp in
       if length inp < unat tsize then Err GENERAL_ERROR
       else Ok (take (unat tsize) inp, n + unat tsize))"

definition encode_string :: "bytes \<Rightarrow> nat \<Rightarrow> bytes res" where
  "encode_string str room =
     (let l = strlen str in
      res_bind (or_error GENERAL_ERROR (put_var_int room (word_of_nat l))) (\<lambda>bs.
        if room - length bs < l then Err GENERAL_ERROR else Ok (bs @ c_str str)))"

definition reftable_encode_key :: "nat \<Rightarrow> bytes \<Rightarrow> bytes \<Rightarrow> byte \<Rightarrow> (bool \<times> bytes) res" where
  "reftable_encode_key room prev_key key extra =
     (let prefix_len = common_prefix_size prev_key key;
          suffix_len = length key - prefix_len in
      res_bind (or_error GENERAL_ERROR (put_var_int room (word_of_nat prefix_len))) (\<lambda>bs1.
      res_bind (or_error GENERAL_ERROR
        (put_var_int (room - length bs1) (push_bit 3 (word_of_nat suffix_len) OR ucast extra))) (\<lambda>bs2.
        if room - length bs1 - length bs2 < suffix_len then Err GENERAL_ERROR
        else Ok (prefix_len = 0, bs1 @ bs2 @ drop prefix_len key))))"

definition reftable_decode_keylen :: "bytes \<Rightarrow> (u64 \<times> u64 \<times> byte \<times> nat) res" where
  "reftable_decode_keylen inp =
     res_bind (or_error GENERAL_ERROR (get_var_int inp)) (\<lambda>(prefix_len, n1).
     res_bind (or_error GENERAL_ERROR (get_var_int (drop n1 inp))) (\<lambda>(suffix_len, n2).
       Ok (prefix_len, drop_bit 3 suffix_len, ucast (suffix_len AND 0x7), n1 + n2)))"

definition reftable_decode_key :: "bytes \<Rightarrow> bytes \<Rightarrow> (bytes \<times> byte \<times> nat) res" where
  "reftable_decode_key last_key inp =
     res_bind (or_error GENERAL_ERROR (reftable_decode_keylen inp)) (\<lambda>(prefix_len, suffix_len, extra, n).
       let inp = drop n inp in
       if length inp < unat suffix_len \<or> unat prefix_len > length last_key then Err GENERAL_ERROR
       else Ok (take (unat prefix_len) last_key @ take (unat suffix_len) inp, extra,
                n + unat suffix_len))"

section \<open>Correctness of the integer codec\<close>

text \<open>The bytes of a number, as a reference: continuation bytes for the high part, then the low.\<close>

function var_int_prefix :: "u64 \<Rightarrow> bytes" where
  "var_int_prefix val =
     (if drop_bit 7 val = 0 then [] else
        var_int_prefix (drop_bit 7 val - 1) @ [0x80 OR ucast ((drop_bit 7 val - 1) AND 0x7f)])"
  by pat_completeness auto
termination
  by (relation "measure unat") (auto simp: drop_bit_7_decreases)

declare var_int_prefix.simps [simp del]

definition var_int_bytes :: "u64 \<Rightarrow> bytes" where
  "var_int_bytes val = var_int_prefix val @ [ucast (val AND 0x7f)]"

lemma put_var_int_loop_bytes: "put_var_int_loop val buf = var_int_prefix val @ buf"
proof (induction val buf rule: put_var_int_loop.induct)
  case (1 val buf)
  show ?case
    using "1.IH" [OF refl]
    by (auto simp: put_var_int_loop.simps [of val] var_int_prefix.simps [of val] Let_def)
qed

lemma put_var_int_eq:
  "put_var_int room val =
     (if room < length (var_int_bytes val) then Err GENERAL_ERROR else Ok (var_int_bytes val))"
  by (simp add: put_var_int_def put_var_int_loop_bytes var_int_bytes_def Let_def)

lemma length_var_int_bytes_pos [simp]: "length (var_int_bytes val) > 0"
  by (simp add: var_int_bytes_def)

lemma length_var_int_prefix:
  "unat val < 128 ^ Suc n \<Longrightarrow> length (var_int_prefix val) \<le> n"
proof (induction n arbitrary: val)
  case 0
  then have "drop_bit 7 val = 0"
    by (simp only: unat_eq_0 [symmetric] unat_drop_bit_7) simp
  then show ?case by (simp add: var_int_prefix.simps)
next
  case (Suc n)
  show ?case
  proof (cases "drop_bit 7 val = 0")
    case True
    then show ?thesis by (simp add: var_int_prefix.simps)
  next
    case False
    have "unat (drop_bit 7 val - 1) \<le> unat val div 128"
      using False unat_drop_bit_7 [of val] by (simp add: unat_minus_one)
    also have "\<dots> < 128 ^ Suc n"
      using Suc.prems by (simp add: less_mult_imp_div_less)
    finally have "length (var_int_prefix (drop_bit 7 val - 1)) \<le> n"
      by (rule Suc.IH)
    with False show ?thesis by (simp add: var_int_prefix.simps [of val])
  qed
qed

lemma length_var_int_bytes: "length (var_int_bytes val) \<le> 10"
proof -
  have "unat val < 128 ^ Suc 9"
    using unat_lt [of val] by simp
  from length_var_int_prefix [OF this] show ?thesis
    by (simp add: var_int_bytes_def)
qed

lemma continuation_byte:
  "(0x80 OR ucast (v AND 0x7f :: u64) :: byte) AND 0x80 \<noteq> 0"
  "ucast ((0x80 OR ucast (v AND 0x7f :: u64) :: byte) AND 0x7f) = (v AND 0x7f :: u64)"
  "(ucast (v AND 0x7f :: u64) :: byte) AND 0x80 = 0"
  "ucast ((ucast (v AND 0x7f :: u64) :: byte) AND 0x7f) = (v AND 0x7f :: u64)"
proof -
  have "bit (2 ^ 7 :: byte) n \<longleftrightarrow> n = 7" "bit (2 ^ 7 :: int) n \<longleftrightarrow> n = 7" for n
    unfolding bit_exp_iff by auto
  then have b: "bit (0x80 :: byte) n \<longleftrightarrow> n = 7" "bit (0x80 :: int) n \<longleftrightarrow> n = 7" for n
    by simp_all
  show "ucast ((0x80 OR ucast (v AND 0x7f :: u64) :: byte) AND 0x7f) = (v AND 0x7f :: u64)"
    by (rule bit_word_eqI) (auto simp: mask_numerals b bit_simps)
  show "ucast ((ucast (v AND 0x7f :: u64) :: byte) AND 0x7f) = (v AND 0x7f :: u64)"
    by (rule bit_word_eqI) (auto simp: mask_numerals bit_simps)
  show "(ucast (v AND 0x7f :: u64) :: byte) AND 0x80 = 0"
    by (rule bit_word_eqI) (auto simp: mask_numerals b bit_simps)
  have "bit ((0x80 OR ucast (v AND 0x7f :: u64) :: byte) AND 0x80) 7"
    by (simp add: b bit_simps)
  then show "(0x80 OR ucast (v AND 0x7f :: u64) :: byte) AND 0x80 \<noteq> 0"
    by (metis bit_0_eq bot_apply bot_bool_def)
qed

lemma shift_or_low: "push_bit 7 (drop_bit 7 v) OR (v AND 0x7f) = (v :: u64)"
  by (rule bit_word_eqI) (auto simp: mask_numerals bit_simps)

text \<open>
  After the continuation bytes of \<open>v\<close> have been read, the decoder stands on the byte behind them
  with the value built up.
\<close>

lemma get_var_int_loop_prefix:
  assumes "inp = var_int_prefix v @ x # rest" and "drop_bit 7 v \<noteq> 0"
  shows "get_var_int_loop inp 0 (ucast (inp ! 0 AND 0x7f)) =
    get_var_int_loop inp (length (var_int_prefix v)) (push_bit 7 (drop_bit 7 v) OR ucast (x AND 0x7f))"
  using assms
proof (induction v arbitrary: x rest rule: var_int_prefix.induct)
  case (1 v)
  let ?u = "drop_bit 7 v - 1" and ?c = "0x80 OR ucast ((drop_bit 7 v - 1) AND 0x7f) :: byte"
  let ?k = "length (var_int_prefix ?u)"
  from "1.prems" have pre: "var_int_prefix v = var_int_prefix ?u @ [?c]"
    by (simp add: var_int_prefix.simps [of v])
  with "1.prems" have inp: "inp = var_int_prefix ?u @ ?c # x # rest" by simp
  have nth: "inp ! ?k = ?c" "inp ! (?k + 1) = x" "?k + 1 < length inp"
    by (simp_all add: inp nth_append)
  have "get_var_int_loop inp 0 (ucast (inp ! 0 AND 0x7f)) = get_var_int_loop inp ?k ?u"
  proof (cases "drop_bit 7 ?u = 0")
    case True
    then have "var_int_prefix ?u = []" "?u AND 0x7f = ?u"
      using shift_or_low [of ?u] by (simp_all add: var_int_prefix.simps [of ?u])
    then show ?thesis using inp continuation_byte(2) [of ?u] by simp
  next
    case False
    have "get_var_int_loop inp 0 (ucast (inp ! 0 AND 0x7f)) =
        get_var_int_loop inp ?k (push_bit 7 (drop_bit 7 ?u) OR ucast (?c AND 0x7f))"
      using "1.IH" "1.prems" inp False by blast
    then show ?thesis by (simp only: continuation_byte shift_or_low)
  qed
  also have "\<dots> = get_var_int_loop inp (?k + 1) (push_bit 7 (?u + 1) OR ucast (x AND 0x7f))"
    using nth by (subst get_var_int_loop.simps) (simp add: continuation_byte)
  finally show ?case by (simp add: pre)
qed

lemma get_var_int_bytes: "get_var_int (var_int_bytes v @ rest) = Ok (v, length (var_int_bytes v))"
proof -
  let ?x = "ucast (v AND 0x7f) :: byte" and ?inp = "var_int_bytes v @ rest"
  let ?k = "length (var_int_prefix v)"
  have inp: "?inp = var_int_prefix v @ ?x # rest" by (simp add: var_int_bytes_def)
  then have nth: "?inp ! ?k = ?x" "?k < length ?inp" by (simp_all add: nth_append)
  have "get_var_int ?inp = get_var_int_loop ?inp ?k v"
  proof (cases "drop_bit 7 v = 0")
    case True
    then have "var_int_prefix v = []" "v AND 0x7f = v"
      using shift_or_low [of v] by (simp_all add: var_int_prefix.simps [of v])
    then show ?thesis
      using inp continuation_byte(4) [of v] by (simp add: get_var_int_def)
  next
    case False
    have "get_var_int ?inp = get_var_int_loop ?inp ?k (push_bit 7 (drop_bit 7 v) OR ucast (?x AND 0x7f))"
      using get_var_int_loop_prefix [OF inp False] by (simp add: get_var_int_def var_int_bytes_def)
    then show ?thesis by (simp only: continuation_byte shift_or_low)
  qed
  also have "\<dots> = Ok (v, ?k + 1)"
    using nth by (subst get_var_int_loop.simps) (simp add: continuation_byte)
  finally show ?thesis by (simp add: var_int_bytes_def)
qed

text \<open>A successful read stays inside of the view; the C result is positive.\<close>

lemma get_var_int_loop_consumed:
  "get_var_int_loop inp ptr val = Ok (v, n) \<Longrightarrow> ptr < n \<and> n \<le> length inp"
proof (induction inp ptr val rule: get_var_int_loop.induct)
  case (1 inp ptr val)
  note IH = "1.IH" [OF _ _ refl]
  show ?case
    using "1.prems" IH
    by (subst (asm) get_var_int_loop.simps) (auto simp: Let_def split: if_splits)
qed

lemma get_var_int_consumed: "get_var_int inp = Ok (v, n) \<Longrightarrow> 0 < n \<and> n \<le> length inp"
  by (auto simp: get_var_int_def split: if_splits dest: get_var_int_loop_consumed)

section \<open>Correctness of the string and key codecs\<close>

definition string_bytes :: "bytes \<Rightarrow> bytes" where
  "string_bytes str = var_int_bytes (word_of_nat (strlen str)) @ c_str str"

lemma encode_string_eq:
  "encode_string str room =
     (if room < length (string_bytes str) then Err GENERAL_ERROR else Ok (string_bytes str))"
  by (auto simp: encode_string_def string_bytes_def put_var_int_eq strlen_def Let_def)

lemma decode_string_bytes:
  assumes "strlen str < 2 ^ 64"
  shows "decode_string (string_bytes str @ rest) = Ok (c_str str, length (string_bytes str))"
proof -
  have "unat (word_of_nat (strlen str) :: u64) = length (c_str str)"
    using assms by (simp add: unat_of_nat strlen_def)
  then show ?thesis
    by (simp add: decode_string_def string_bytes_def get_var_int_bytes)
qed

lemma decode_string_consumed:
  "decode_string inp = Ok (str, n) \<Longrightarrow> n \<le> length inp \<and> length str < n"
  by (auto simp: decode_string_def res_bind_eq_Ok Let_def split: if_splits
      dest!: get_var_int_consumed)

definition key_bytes :: "bytes \<Rightarrow> bytes \<Rightarrow> byte \<Rightarrow> bytes" where
  "key_bytes prev_key key extra =
     (let p = common_prefix_size prev_key key in
      var_int_bytes (word_of_nat p)
      @ var_int_bytes (push_bit 3 (word_of_nat (length key - p)) OR ucast extra)
      @ drop p key)"

lemma length_key_bytes_pos [simp]: "0 < length (key_bytes prev_key key extra)"
  using length_var_int_bytes_pos by (simp add: key_bytes_def Let_def del: length_greater_0_conv)

lemma reftable_encode_key_eq:
  "reftable_encode_key room prev_key key extra =
     (if room < length (key_bytes prev_key key extra) then Err GENERAL_ERROR
      else Ok (common_prefix_size prev_key key = 0, key_bytes prev_key key extra))"
proof -
  define p where "p = common_prefix_size prev_key key"
  define b1 b2 where "b1 = var_int_bytes (word_of_nat p)"
    and "b2 = var_int_bytes (push_bit 3 (word_of_nat (length key - p)) OR ucast extra)"
  show ?thesis
    unfolding reftable_encode_key_def key_bytes_def put_var_int_eq Let_def
      p_def [symmetric] b1_def [symmetric] b2_def [symmetric]
    by auto
qed

lemma pack_extra:
  fixes x :: u64 and extra :: byte
  assumes "unat x < 2 ^ 61" "extra < 8"
  shows "drop_bit 3 (push_bit 3 x OR ucast extra) = x"
    and "ucast ((push_bit 3 x OR ucast extra) AND 0x7) = extra"
proof -
  have "take_bit 61 x = x"
    using assms(1) by (simp add: word_unat_eq_iff unsigned_take_bit_eq take_bit_nat_eq_self)
  then have hi: "bit x n \<Longrightarrow> n < 61" for n
    by (metis bit_take_bit_iff)
  have "take_bit 3 extra = extra"
    using assms(2) by (simp add: word_unat_eq_iff unsigned_take_bit_eq take_bit_nat_eq_self
        word_less_nat_alt)
  then have lo: "bit extra n \<Longrightarrow> n < 3" for n
    by (metis bit_take_bit_iff)
  show "drop_bit 3 (push_bit 3 x OR ucast extra) = x"
    by (rule bit_word_eqI) (auto simp: bit_simps dest: hi lo)
  show "ucast ((push_bit 3 x OR ucast extra) AND 0x7) = extra"
    by (rule bit_word_eqI) (auto simp: mask_numerals bit_simps dest: lo)
qed

lemma reftable_decode_keylen_bytes:
  assumes "extra < 8" "length key < 2 ^ 61"
  shows "reftable_decode_keylen (key_bytes prev_key key extra @ rest) =
    Ok (word_of_nat (common_prefix_size prev_key key),
        word_of_nat (length key - common_prefix_size prev_key key), extra,
        length (key_bytes prev_key key extra) - (length key - common_prefix_size prev_key key))"
proof -
  let ?s = "length key - common_prefix_size prev_key key"
  have "unat (word_of_nat ?s :: u64) < 2 ^ 61"
    using assms(2) by (simp add: unat_of_nat)
  note pack = pack_extra [OF this assms(1)]
  show ?thesis
    by (simp add: reftable_decode_keylen_def key_bytes_def Let_def get_var_int_bytes pack del: drop_bit_or)
qed

text \<open>
  The decoder only needs a last key that agrees with the new key on the elided prefix: the key
  before it, or, after a seek has backed up, the key itself.
\<close>

lemma reftable_decode_key_bytes:
  assumes "extra < 8" "length key < 2 ^ 61"
    and "common_prefix_size prev_key key \<le> length last_key"
    and "take (common_prefix_size prev_key key) last_key = take (common_prefix_size prev_key key) key"
  shows "reftable_decode_key last_key (key_bytes prev_key key extra @ rest) =
    Ok (key, extra, length (key_bytes prev_key key extra))"
proof -
  let ?p = "common_prefix_size prev_key key"
  have p: "?p \<le> length key" by (rule common_prefix_size_bounds)
  then have "unat (word_of_nat ?p :: u64) = ?p" "unat (word_of_nat (length key - ?p) :: u64) = length key - ?p"
    using assms(2) by (simp_all add: unat_of_nat)
  moreover obtain h where h: "key_bytes prev_key key extra = h @ drop ?p key"
    by (simp add: key_bytes_def Let_def)
  moreover from reftable_decode_keylen_bytes [OF assms(1,2), of prev_key rest]
  have "reftable_decode_keylen (h @ drop ?p key @ rest) =
      Ok (word_of_nat ?p, word_of_nat (length key - ?p), extra, length h)"
    by (simp add: h)
  ultimately show ?thesis
    using assms(3,4) p by (simp add: reftable_decode_key_def Let_def)
qed

lemma reftable_decode_keylen_consumed:
  "reftable_decode_keylen inp = Ok (p, s, extra, n) \<Longrightarrow> 0 < n \<and> n \<le> length inp"
  by (auto simp: reftable_decode_keylen_def res_bind_eq_Ok dest!: get_var_int_consumed)

lemma reftable_decode_key_consumed:
  "reftable_decode_key last_key inp = Ok (key, extra, n) \<Longrightarrow> 0 < n \<and> n \<le> length inp"
  by (auto simp: reftable_decode_key_def res_bind_eq_Ok Let_def split: if_splits
      dest!: reftable_decode_keylen_consumed)

end
