(* ===== verification/Reft_Record.thy ===== *)
theory Reft_Record
  imports Reft_Codec
begin

unbundle bit_operations_syntax

text \<open>
  The four record types of \<open>reftable_record.c\<close> (references, objects, logs, index entries) with
  their methods, and the dispatch over the type tag. A decoder returns the record and the number
  of bytes that it consumed. A pointer that may be \<open>NULL\<close> is an option; a string is the content
  of its buffer, of which C sees the part before the first \<open>NUL\<close>.
\<close>

section \<open>Block types\<close>

definition BLOCK_TYPE_REF :: byte where "BLOCK_TYPE_REF = 114"
definition BLOCK_TYPE_LOG :: byte where "BLOCK_TYPE_LOG = 103"
definition BLOCK_TYPE_OBJ :: byte where "BLOCK_TYPE_OBJ = 111"
definition BLOCK_TYPE_INDEX :: byte where "BLOCK_TYPE_INDEX = 105"

lemmas block_type_defs = BLOCK_TYPE_REF_def BLOCK_TYPE_LOG_def BLOCK_TYPE_OBJ_def BLOCK_TYPE_INDEX_def

definition reftable_is_block_type :: "byte \<Rightarrow> bool" where
  "reftable_is_block_type typ \<longleftrightarrow>
     typ = BLOCK_TYPE_REF \<or> typ = BLOCK_TYPE_LOG \<or> typ = BLOCK_TYPE_OBJ \<or> typ = BLOCK_TYPE_INDEX"

section \<open>Reference records\<close>

datatype ref_value =
    Ref_Deletion
  | Ref_Val1 bytes
  | Ref_Val2 bytes bytes
  | Ref_Symref bytes

fun value_type :: "ref_value \<Rightarrow> ref_value_type" where
  "value_type Ref_Deletion = REF_DELETION"
| "value_type (Ref_Val1 _) = REF_VAL1"
| "value_type (Ref_Val2 _ _) = REF_VAL2"
| "value_type (Ref_Symref _) = REF_SYMREF"

record ref_record =
  ref_name :: "bytes option"
  ref_update_index :: u64
  ref_value :: ref_value

text \<open>\<open>c_deref\<close> is a string read through a pointer that may be \<open>NULL\<close>.\<close>

definition c_deref :: "bytes option \<Rightarrow> bytes res" where
  "c_deref p = (case p of None \<Rightarrow> Crash Null_Deref | Some s \<Rightarrow> Ok (c_str s))"

definition null_streq :: "bytes option \<Rightarrow> bytes option \<Rightarrow> bool" where
  "null_streq a b \<longleftrightarrow>
     0 = strcmp (case a of None \<Rightarrow> [] | Some s \<Rightarrow> s) (case b of None \<Rightarrow> [] | Some s \<Rightarrow> s)"

fun reftable_ref_record_val1 :: "ref_record \<Rightarrow> bytes option" where
  "reftable_ref_record_val1 r = (case ref_value r of
      Ref_Val1 v \<Rightarrow> Some v | Ref_Val2 v _ \<Rightarrow> Some v | _ \<Rightarrow> None)"

fun reftable_ref_record_val2 :: "ref_record \<Rightarrow> bytes option" where
  "reftable_ref_record_val2 r = (case ref_value r of Ref_Val2 _ t \<Rightarrow> Some t | _ \<Rightarrow> None)"

definition reftable_ref_record_key :: "ref_record \<Rightarrow> bytes res" where
  "reftable_ref_record_key r = c_deref (ref_name r)"

definition reftable_ref_record_release :: "ref_record \<Rightarrow> ref_record" where
  "reftable_ref_record_release r = \<lparr>ref_name = None, ref_update_index = 0, ref_value = Ref_Deletion\<rparr>"

definition reftable_ref_record_copy_from :: "ref_record \<Rightarrow> ref_record \<Rightarrow> nat \<Rightarrow> ref_record res" where
  "reftable_ref_record_copy_from rec src hsz =
     (if \<not> hsz > 0 then Crash Assert_Failed
      else let name = (case ref_name src of Some n \<Rightarrow> Some (c_str n) | None \<Rightarrow> ref_name rec) in
        res_bind
          (case ref_value src of
             Ref_Deletion \<Rightarrow> Ok Ref_Deletion
           | Ref_Val1 v \<Rightarrow> res_bind (read_at 0 hsz v) (\<lambda>v. Ok (Ref_Val1 v))
           | Ref_Val2 v t \<Rightarrow> res_bind (read_at 0 hsz v) (\<lambda>v.
               res_bind (read_at 0 hsz t) (\<lambda>t. Ok (Ref_Val2 v t)))
           | Ref_Symref s \<Rightarrow> Ok (Ref_Symref (c_str s)))
          (\<lambda>val. Ok \<lparr>ref_name = name, ref_update_index = ref_update_index src, ref_value = val\<rparr>))"

definition reftable_ref_record_val_type :: "reftable_env \<Rightarrow> ref_record \<Rightarrow> byte" where
  "reftable_ref_record_val_type E r = ref_type_code E (value_type (ref_value r))"

definition reftable_ref_record_encode :: "ref_record \<Rightarrow> nat \<Rightarrow> nat \<Rightarrow> bytes res" where
  "reftable_ref_record_encode r room hsz =
     (if \<not> hsz > 0 then Crash Assert_Failed
      else res_bind (or_error GENERAL_ERROR (put_var_int room (ref_update_index r))) (\<lambda>bs.
        let room = room - length bs in
        case ref_value r of
          Ref_Symref s \<Rightarrow> res_bind (or_error GENERAL_ERROR (encode_string s room)) (\<lambda>v. Ok (bs @ v))
        | Ref_Val2 v t \<Rightarrow>
            if room < 2 * hsz then Err GENERAL_ERROR
            else res_bind (read_at 0 hsz v) (\<lambda>v.
                 res_bind (read_at 0 hsz t) (\<lambda>t. Ok (bs @ v @ t)))
        | Ref_Val1 v \<Rightarrow>
            if room < hsz then Err GENERAL_ERROR
            else res_bind (read_at 0 hsz v) (\<lambda>v. Ok (bs @ v))
        | Ref_Deletion \<Rightarrow> Ok bs))"

definition reftable_ref_record_decode ::
  "reftable_env \<Rightarrow> bytes \<Rightarrow> byte \<Rightarrow> bytes \<Rightarrow> nat \<Rightarrow> (ref_record \<times> nat) res" where
  "reftable_ref_record_decode E key val_type inp hsz =
     (if \<not> hsz > 0 then Crash Assert_Failed
      else res_bind (get_var_int inp) (\<lambda>(update_index, n).
        let inp = drop n inp;
            mk = (\<lambda>v. \<lparr>ref_name = Some key, ref_update_index = update_index, ref_value = v\<rparr>) in
        if val_type = ref_type_code E REF_VAL1 then
          (if length inp < hsz then Err FORMAT_ERROR
           else Ok (mk (Ref_Val1 (take hsz inp)), n + hsz))
        else if val_type = ref_type_code E REF_VAL2 then
          (if length inp < 2 * hsz then Err FORMAT_ERROR
           else Ok (mk (Ref_Val2 (take hsz inp) (take hsz (drop hsz inp))),
                    n + 2 * hsz))
        else if val_type = ref_type_code E REF_SYMREF then
          res_bind (or_error FORMAT_ERROR (decode_string inp)) (\<lambda>(s, m). Ok (mk (Ref_Symref s), n + m))
        else if val_type = ref_type_code E REF_DELETION then Ok (mk Ref_Deletion, n)
        else Crash Abort))"

definition reftable_ref_record_is_deletion :: "ref_record \<Rightarrow> bool" where
  "reftable_ref_record_is_deletion r \<longleftrightarrow> value_type (ref_value r) = REF_DELETION"

definition hash_equal :: "bytes \<Rightarrow> bytes \<Rightarrow> nat \<Rightarrow> bool" where
  "hash_equal a b hsz \<longleftrightarrow> memcmp a b hsz = 0"

definition reftable_ref_record_equal :: "ref_record \<Rightarrow> ref_record \<Rightarrow> nat \<Rightarrow> bool res" where
  "reftable_ref_record_equal a b hsz =
     (if \<not> hsz > 0 then Crash Assert_Failed
      else if \<not> null_streq (ref_name a) (ref_name b) then Ok False
      else if ref_update_index a \<noteq> ref_update_index b
           \<or> value_type (ref_value a) \<noteq> value_type (ref_value b) then Ok False
      else (case (ref_value a, ref_value b) of
          (Ref_Symref s, Ref_Symref t) \<Rightarrow> Ok (strcmp s t = 0)
        | (Ref_Val2 v t, Ref_Val2 v' t') \<Rightarrow> Ok (hash_equal v v' hsz \<and> hash_equal t t' hsz)
        | (Ref_Val1 v, Ref_Val1 v') \<Rightarrow> Ok (hash_equal v v' hsz)
        | _ \<Rightarrow> Ok True))"

definition reftable_ref_record_cmp :: "ref_record \<Rightarrow> ref_record \<Rightarrow> int res" where
  "reftable_ref_record_cmp a b =
     (case (ref_name a, ref_name b) of (Some x, Some y) \<Rightarrow> Ok (strcmp x y) | _ \<Rightarrow> Crash Null_Deref)"

definition reftable_ref_record_compare_name :: "ref_record \<Rightarrow> ref_record \<Rightarrow> int res" where
  "reftable_ref_record_compare_name a b =
     (case (ref_name a, ref_name b) of (Some x, Some y) \<Rightarrow> Ok (strcmp x y) | _ \<Rightarrow> Crash Null_Deref)"

section \<open>Object records\<close>

record obj_record =
  obj_hash_prefix :: bytes
  obj_offsets :: "u64 list"

definition reftable_obj_record_key :: "obj_record \<Rightarrow> bytes res" where
  "reftable_obj_record_key r = Ok (obj_hash_prefix r)"

definition reftable_obj_record_release :: "obj_record \<Rightarrow> obj_record" where
  "reftable_obj_record_release r = \<lparr>obj_hash_prefix = [], obj_offsets = []\<rparr>"

definition reftable_obj_record_copy_from :: "reftable_env \<Rightarrow> obj_record \<Rightarrow> obj_record res" where
  "reftable_obj_record_copy_from E src =
     (if \<not> alloc_array E (length (obj_hash_prefix src)) then Err OUT_OF_MEMORY_ERROR
      else if \<not> alloc_array E (length (obj_offsets src)) then Err OUT_OF_MEMORY_ERROR
      else Ok \<lparr>obj_hash_prefix = obj_hash_prefix src, obj_offsets = obj_offsets src\<rparr>)"

definition reftable_obj_record_val_type :: "obj_record \<Rightarrow> byte" where
  "reftable_obj_record_val_type r =
     (if length (obj_offsets r) > 0 \<and> length (obj_offsets r) < 8
      then word_of_nat (length (obj_offsets r)) else 0)"

fun encode_offsets :: "u64 \<Rightarrow> u64 list \<Rightarrow> nat \<Rightarrow> bytes res" where
  "encode_offsets prev [] room = Ok []"
| "encode_offsets prev (off # offs) room =
     res_bind (or_error GENERAL_ERROR (put_var_int room (off - prev))) (\<lambda>bs.
     res_bind (encode_offsets off offs (room - length bs)) (\<lambda>rest. Ok (bs @ rest)))"

definition reftable_obj_record_encode :: "obj_record \<Rightarrow> nat \<Rightarrow> bytes res" where
  "reftable_obj_record_encode r room =
     res_bind
       (if length (obj_offsets r) = 0 \<or> length (obj_offsets r) \<ge> 8
        then or_error GENERAL_ERROR (put_var_int room (word_of_nat (length (obj_offsets r))))
        else Ok [])
       (\<lambda>bs. case obj_offsets r of
           [] \<Rightarrow> Ok bs
         | off # offs \<Rightarrow>
             res_bind (or_error GENERAL_ERROR (put_var_int (room - length bs) off)) (\<lambda>first.
             res_bind (encode_offsets off offs (room - length bs - length first)) (\<lambda>rest.
               Ok (bs @ first @ rest))))"

fun decode_offsets :: "nat \<Rightarrow> u64 \<Rightarrow> bytes \<Rightarrow> (u64 list \<times> nat) res" where
  "decode_offsets 0 prev inp = Ok ([], 0)"
| "decode_offsets (Suc k) prev inp =
     res_bind (get_var_int inp) (\<lambda>(delta, n).
     res_bind (decode_offsets k (delta + prev) (drop n inp)) (\<lambda>(offs, m).
       Ok ((delta + prev) # offs, n + m)))"

definition reftable_obj_record_decode ::
  "reftable_env \<Rightarrow> bytes \<Rightarrow> byte \<Rightarrow> bytes \<Rightarrow> (obj_record \<times> nat) res" where
  "reftable_obj_record_decode E key val_type inp =
     (if \<not> alloc_array E (length key) then Err OUT_OF_MEMORY_ERROR
      else res_bind (if val_type = 0 then get_var_int inp else Ok (ucast val_type, 0)) (\<lambda>(count, n).
        if count = 0 then Ok (\<lparr>obj_hash_prefix = key, obj_offsets = []\<rparr>, n)
        else if \<not> alloc_array E (unat count) then Err OUT_OF_MEMORY_ERROR
        else res_bind (get_var_int (drop n inp)) (\<lambda>(first, n1).
             res_bind (decode_offsets (unat count - 1) first (drop (n + n1) inp)) (\<lambda>(offs, n2).
               Ok (\<lparr>obj_hash_prefix = key, obj_offsets = first # offs\<rparr>, n + n1 + n2)))))"

definition reftable_obj_record_equal :: "obj_record \<Rightarrow> obj_record \<Rightarrow> bool" where
  "reftable_obj_record_equal a b \<longleftrightarrow>
     length (obj_hash_prefix a) = length (obj_hash_prefix b)
     \<and> length (obj_offsets a) = length (obj_offsets b)
     \<and> memcmp (obj_hash_prefix a) (obj_hash_prefix b) (length (obj_hash_prefix a)) = 0
     \<and> obj_offsets a = obj_offsets b"

text \<open>\<open>memcmp\<close> over \<open>n\<close> bytes, read one by one, of buffers that may be shorter.\<close>

fun memcmp_checked :: "nat \<Rightarrow> bytes \<Rightarrow> bytes \<Rightarrow> int res" where
  "memcmp_checked 0 a b = Ok 0"
| "memcmp_checked (Suc n) (x # a) (y # b) =
     (if x < y then Ok (- 1) else if y < x then Ok 1 else memcmp_checked n a b)"
| "memcmp_checked (Suc n) _ _ = Crash Out_Of_Bounds"

definition reftable_obj_record_cmp :: "obj_record \<Rightarrow> obj_record \<Rightarrow> int res" where
  "reftable_obj_record_cmp a b =
     res_bind (memcmp_checked
         (if length (obj_hash_prefix a) > length (obj_hash_prefix b)
          then length (obj_hash_prefix a) else length (obj_hash_prefix b))
         (obj_hash_prefix a) (obj_hash_prefix b))
       (\<lambda>cmp. if cmp \<noteq> 0 then Ok cmp
              else Ok (int (length (obj_hash_prefix a)) - int (length (obj_hash_prefix b))))"

section \<open>Log records\<close>

text \<open>
  \<open>Log_Other\<close> is a record whose type number, read from a file, is neither of the two of the
  enumeration; the decoder reads it like an update.
\<close>

record log_update =
  new_hash :: bytes
  old_hash :: bytes
  log_user :: "bytes option"
  log_email :: "bytes option"
  log_time :: u64
  log_tz_offset :: u16
  log_message :: "bytes option"

datatype log_value = Log_Deletion | Log_Update log_update | Log_Other byte log_update

record log_record =
  log_name :: "bytes option"
  log_update_index :: u64
  log_value :: log_value

definition reftable_log_record_key :: "reftable_env \<Rightarrow> log_record \<Rightarrow> bytes res" where
  "reftable_log_record_key E r =
     res_bind (c_deref (log_name r)) (\<lambda>name.
       let ts = NOT 0 - log_update_index r in
       Ok (name @ [0] @ put_be64 E ts))"

definition strdup_opt :: "bytes option \<Rightarrow> bytes option" where
  "strdup_opt p = map_option c_str p"

definition reftable_log_record_copy_from :: "log_record \<Rightarrow> log_record res" where
  "reftable_log_record_copy_from src =
     (let dst = src\<lparr>log_name := strdup_opt (log_name src)\<rparr> in
      case log_value dst of
        Log_Update u \<Rightarrow>
          (let u = u\<lparr>log_email := strdup_opt (log_email u), log_user := strdup_opt (log_user u),
                     log_message := strdup_opt (log_message u)\<rparr> in
           if log_email u = None \<or> log_user u = None \<or> log_message u = None
           then Err OUT_OF_MEMORY_ERROR
           else Ok (dst\<lparr>log_value := Log_Update u\<rparr>))
      | _ \<Rightarrow> Ok dst)"

definition reftable_log_record_release :: "log_record \<Rightarrow> log_record" where
  "reftable_log_record_release r = \<lparr>log_name = None, log_update_index = 0, log_value = Log_Deletion\<rparr>"

definition reftable_log_record_is_deletion :: "log_record \<Rightarrow> bool" where
  "reftable_log_record_is_deletion r \<longleftrightarrow> log_value r = Log_Deletion"

definition reftable_log_record_val_type :: "log_record \<Rightarrow> byte" where
  "reftable_log_record_val_type r = (if reftable_log_record_is_deletion r then 0 else 1)"

definition str_or_empty :: "bytes option \<Rightarrow> bytes" where
  "str_or_empty p = (case p of None \<Rightarrow> [] | Some s \<Rightarrow> s)"

definition log_update_encode :: "log_update \<Rightarrow> nat \<Rightarrow> nat \<Rightarrow> bytes res" where
  "log_update_encode u room hsz =
     (if room < 2 * hsz then Err GENERAL_ERROR
      else res_bind (read_at 0 hsz (old_hash u)) (\<lambda>old.
        res_bind (read_at 0 hsz (new_hash u)) (\<lambda>new.
        let room = room - 2 * hsz in
        res_bind (or_error GENERAL_ERROR (encode_string (str_or_empty (log_user u)) room)) (\<lambda>bs1.
        let room = room - length bs1 in
        res_bind (or_error GENERAL_ERROR (encode_string (str_or_empty (log_email u)) room)) (\<lambda>bs2.
        let room = room - length bs2 in
        res_bind (or_error GENERAL_ERROR (put_var_int room (log_time u))) (\<lambda>bs3.
        let room = room - length bs3 in
        if room < 2 then Err GENERAL_ERROR
        else
        res_bind (or_error GENERAL_ERROR (encode_string (str_or_empty (log_message u)) (room - 2))) (\<lambda>bs4.
          Ok (old @ new @ bs1 @ bs2 @ bs3 @ put_be16 (log_tz_offset u) @ bs4))))))))"

definition reftable_log_record_encode :: "log_record \<Rightarrow> nat \<Rightarrow> nat \<Rightarrow> bytes res" where
  "reftable_log_record_encode r room hsz =
     (case log_value r of
        Log_Deletion \<Rightarrow> Ok []
      | Log_Update u \<Rightarrow> log_update_encode u room hsz
      | Log_Other _ u \<Rightarrow> log_update_encode u room hsz)"

definition log_update_decode :: "reftable_env \<Rightarrow> bytes \<Rightarrow> nat \<Rightarrow> (log_update \<times> nat) res" where
  "log_update_decode E inp hsz =
     (if length inp < 2 * hsz then Err FORMAT_ERROR
      else let old = take hsz inp; new = take hsz (drop hsz inp); inp = drop (2 * hsz) inp in
        res_bind (or_error FORMAT_ERROR (decode_string inp)) (\<lambda>(user, n1).
        let inp = drop n1 inp in
        res_bind (or_error FORMAT_ERROR (decode_string inp)) (\<lambda>(email, n2).
        let inp = drop n2 inp in
        res_bind (or_error FORMAT_ERROR (get_var_int inp)) (\<lambda>(ts, n3).
        let inp = drop n3 inp in
        if length inp < 2 then Err FORMAT_ERROR
        else let tz = get_be16 E inp; inp = drop 2 inp in
        res_bind (or_error FORMAT_ERROR (decode_string inp)) (\<lambda>(message, n4).
          Ok (\<lparr>new_hash = new, old_hash = old, log_user = Some user, log_email = Some email,
               log_time = ts, log_tz_offset = tz, log_message = Some message\<rparr>,
              2 * hsz + n1 + n2 + n3 + 2 + n4))))))"

definition reftable_log_record_decode ::
  "reftable_env \<Rightarrow> bytes \<Rightarrow> byte \<Rightarrow> bytes \<Rightarrow> nat \<Rightarrow> (log_record \<times> nat) res" where
  "reftable_log_record_decode E key val_type inp hsz =
     (if length key \<le> 9 \<or> key ! (length key - 9) \<noteq> 0 then Err FORMAT_ERROR
      else let name = take (length key - 9) key;
               ts = get_be64 E (drop (length key - 8) key);
               mk = (\<lambda>v. \<lparr>log_name = Some name, log_update_index = NOT 0 - ts, log_value = v\<rparr>) in
        if val_type = 0 then Ok (mk Log_Deletion, 0)
        else res_bind (log_update_decode E inp hsz) (\<lambda>(u, n).
               Ok (mk (if val_type = 1 then Log_Update u else Log_Other val_type u), n)))"

text \<open>
  The result of \<open>reftable_log_record_cmp_void\<close> is an \<open>int\<close>: of the 64 bit difference, C keeps the
  low 32 bits and reads them as a signed number.
\<close>

definition reftable_log_record_cmp :: "log_record \<Rightarrow> log_record \<Rightarrow> int res" where
  "reftable_log_record_cmp a b =
     (case (log_name a, log_name b) of
        (Some x, Some y) \<Rightarrow>
          (let cmp = strcmp x y in
           if cmp \<noteq> 0 then Ok cmp
           else Ok (sint (ucast (log_update_index b - log_update_index a) :: u32)))
      | _ \<Rightarrow> Crash Null_Deref)"

definition log_update_equal :: "log_update \<Rightarrow> log_update \<Rightarrow> nat \<Rightarrow> bool" where
  "log_update_equal a b hsz \<longleftrightarrow>
     null_streq (log_user a) (log_user b) \<and> log_time a = log_time b
     \<and> log_tz_offset a = log_tz_offset b \<and> null_streq (log_email a) (log_email b)
     \<and> null_streq (log_message a) (log_message b)
     \<and> memcmp (old_hash a) (old_hash b) hsz = 0 \<and> memcmp (new_hash a) (new_hash b) hsz = 0"

definition reftable_log_record_equal :: "log_record \<Rightarrow> log_record \<Rightarrow> nat \<Rightarrow> bool res" where
  "reftable_log_record_equal a b hsz =
     (if \<not> (null_streq (log_name a) (log_name b) \<and> log_update_index a = log_update_index b) then Ok False
      else case (log_value a, log_value b) of
          (Log_Deletion, Log_Deletion) \<Rightarrow> Ok True
        | (Log_Update u, Log_Update v) \<Rightarrow> Ok (log_update_equal u v hsz)
        | (Log_Other t u, Log_Other t' v) \<Rightarrow> if t = t' then Crash Abort else Ok False
        | _ \<Rightarrow> Ok False)"

definition reftable_log_record_compare_key :: "log_record \<Rightarrow> log_record \<Rightarrow> int res" where
  "reftable_log_record_compare_key a b =
     (case (log_name a, log_name b) of
        (Some x, Some y) \<Rightarrow>
          (let cmp = strcmp x y in
           if cmp \<noteq> 0 then Ok cmp
           else if log_update_index a > log_update_index b then Ok (- 1)
           else Ok (if log_update_index a < log_update_index b then 1 else 0))
      | _ \<Rightarrow> Crash Null_Deref)"

section \<open>Index records\<close>

record index_record =
  idx_last_key :: bytes
  idx_offset :: u64

definition reftable_index_record_key :: "index_record \<Rightarrow> bytes res" where
  "reftable_index_record_key r = Ok (idx_last_key r)"

definition reftable_index_record_copy_from :: "index_record \<Rightarrow> index_record res" where
  "reftable_index_record_copy_from src =
     Ok \<lparr>idx_last_key = idx_last_key src, idx_offset = idx_offset src\<rparr>"

definition reftable_index_record_release :: "index_record \<Rightarrow> index_record" where
  "reftable_index_record_release r = r\<lparr>idx_last_key := []\<rparr>"

definition reftable_index_record_val_type :: "index_record \<Rightarrow> byte" where
  "reftable_index_record_val_type r = 0"

definition reftable_index_record_encode :: "index_record \<Rightarrow> nat \<Rightarrow> bytes res" where
  "reftable_index_record_encode r room = put_var_int room (idx_offset r)"

definition reftable_index_record_decode :: "bytes \<Rightarrow> bytes \<Rightarrow> (index_record \<times> nat) res" where
  "reftable_index_record_decode key inp =
     res_bind (get_var_int inp) (\<lambda>(off, n). Ok (\<lparr>idx_last_key = key, idx_offset = off\<rparr>, n))"

definition reftable_index_record_equal :: "index_record \<Rightarrow> index_record \<Rightarrow> bool" where
  "reftable_index_record_equal a b \<longleftrightarrow>
     idx_offset a = idx_offset b \<and> reftable_buf_cmp (idx_last_key a) (idx_last_key b) = 0"

definition reftable_index_record_cmp :: "index_record \<Rightarrow> index_record \<Rightarrow> int" where
  "reftable_index_record_cmp a b = reftable_buf_cmp (idx_last_key a) (idx_last_key b)"

section \<open>Records of any type\<close>

text \<open>
  \<open>struct reftable_record\<close> is a tagged union; the switches of \<open>reftable_record_data\<close> and
  \<open>reftable_record_vtable\<close> are the case analysis of each operation.
\<close>

datatype reftable_record =
    Rec_Ref ref_record
  | Rec_Log log_record
  | Rec_Obj obj_record
  | Rec_Index index_record

fun reftable_record_type :: "reftable_record \<Rightarrow> byte" where
  "reftable_record_type (Rec_Ref _) = BLOCK_TYPE_REF"
| "reftable_record_type (Rec_Log _) = BLOCK_TYPE_LOG"
| "reftable_record_type (Rec_Obj _) = BLOCK_TYPE_OBJ"
| "reftable_record_type (Rec_Index _) = BLOCK_TYPE_INDEX"

definition reftable_record_init :: "byte \<Rightarrow> reftable_record res" where
  "reftable_record_init typ =
     (if typ = BLOCK_TYPE_REF then
        Ok (Rec_Ref \<lparr>ref_name = None, ref_update_index = 0, ref_value = Ref_Deletion\<rparr>)
      else if typ = BLOCK_TYPE_LOG then
        Ok (Rec_Log \<lparr>log_name = None, log_update_index = 0, log_value = Log_Deletion\<rparr>)
      else if typ = BLOCK_TYPE_OBJ then Ok (Rec_Obj \<lparr>obj_hash_prefix = [], obj_offsets = []\<rparr>)
      else if typ = BLOCK_TYPE_INDEX then Ok (Rec_Index \<lparr>idx_last_key = [], idx_offset = 0\<rparr>)
      else Crash Bug)"

fun reftable_record_key :: "reftable_env \<Rightarrow> reftable_record \<Rightarrow> bytes res" where
  "reftable_record_key E (Rec_Ref r) = reftable_ref_record_key r"
| "reftable_record_key E (Rec_Log r) = reftable_log_record_key E r"
| "reftable_record_key E (Rec_Obj r) = reftable_obj_record_key r"
| "reftable_record_key E (Rec_Index r) = reftable_index_record_key r"

fun reftable_record_encode :: "reftable_record \<Rightarrow> nat \<Rightarrow> nat \<Rightarrow> bytes res" where
  "reftable_record_encode (Rec_Ref r) room hsz = reftable_ref_record_encode r room hsz"
| "reftable_record_encode (Rec_Log r) room hsz = reftable_log_record_encode r room hsz"
| "reftable_record_encode (Rec_Obj r) room hsz = reftable_obj_record_encode r room"
| "reftable_record_encode (Rec_Index r) room hsz = reftable_index_record_encode r room"

fun reftable_record_copy_from ::
  "reftable_env \<Rightarrow> reftable_record \<Rightarrow> reftable_record \<Rightarrow> nat \<Rightarrow> reftable_record res" where
  "reftable_record_copy_from E (Rec_Ref d) (Rec_Ref s) hsz =
     res_bind (reftable_ref_record_copy_from d s hsz) (\<lambda>r. Ok (Rec_Ref r))"
| "reftable_record_copy_from E (Rec_Log d) (Rec_Log s) hsz =
     res_bind (reftable_log_record_copy_from s) (\<lambda>r. Ok (Rec_Log r))"
| "reftable_record_copy_from E (Rec_Obj d) (Rec_Obj s) hsz =
     res_bind (reftable_obj_record_copy_from E s) (\<lambda>r. Ok (Rec_Obj r))"
| "reftable_record_copy_from E (Rec_Index d) (Rec_Index s) hsz =
     res_bind (reftable_index_record_copy_from s) (\<lambda>r. Ok (Rec_Index r))"
| "reftable_record_copy_from E _ _ hsz = Crash Assert_Failed"

fun reftable_record_val_type :: "reftable_env \<Rightarrow> reftable_record \<Rightarrow> byte" where
  "reftable_record_val_type E (Rec_Ref r) = reftable_ref_record_val_type E r"
| "reftable_record_val_type E (Rec_Log r) = reftable_log_record_val_type r"
| "reftable_record_val_type E (Rec_Obj r) = reftable_obj_record_val_type r"
| "reftable_record_val_type E (Rec_Index r) = reftable_index_record_val_type r"

fun reftable_record_decode ::
  "reftable_env \<Rightarrow> reftable_record \<Rightarrow> bytes \<Rightarrow> byte \<Rightarrow> bytes \<Rightarrow> nat \<Rightarrow> (reftable_record \<times> nat) res" where
  "reftable_record_decode E (Rec_Ref _) key extra src hsz =
     res_bind (reftable_ref_record_decode E key extra src hsz) (\<lambda>(r, n). Ok (Rec_Ref r, n))"
| "reftable_record_decode E (Rec_Log _) key extra src hsz =
     res_bind (reftable_log_record_decode E key extra src hsz) (\<lambda>(r, n). Ok (Rec_Log r, n))"
| "reftable_record_decode E (Rec_Obj _) key extra src hsz =
     res_bind (reftable_obj_record_decode E key extra src) (\<lambda>(r, n). Ok (Rec_Obj r, n))"
| "reftable_record_decode E (Rec_Index _) key extra src hsz =
     res_bind (reftable_index_record_decode key src) (\<lambda>(r, n). Ok (Rec_Index r, n))"

fun reftable_record_release :: "reftable_record \<Rightarrow> reftable_record" where
  "reftable_record_release (Rec_Ref r) = Rec_Ref (reftable_ref_record_release r)"
| "reftable_record_release (Rec_Log r) = Rec_Log (reftable_log_record_release r)"
| "reftable_record_release (Rec_Obj r) = Rec_Obj (reftable_obj_record_release r)"
| "reftable_record_release (Rec_Index r) = Rec_Index (reftable_index_record_release r)"

fun reftable_record_is_deletion :: "reftable_record \<Rightarrow> bool" where
  "reftable_record_is_deletion (Rec_Ref r) = reftable_ref_record_is_deletion r"
| "reftable_record_is_deletion (Rec_Log r) = reftable_log_record_is_deletion r"
| "reftable_record_is_deletion (Rec_Obj r) = False"
| "reftable_record_is_deletion (Rec_Index r) = False"

fun reftable_record_cmp :: "reftable_record \<Rightarrow> reftable_record \<Rightarrow> int res" where
  "reftable_record_cmp (Rec_Ref a) (Rec_Ref b) = reftable_ref_record_cmp a b"
| "reftable_record_cmp (Rec_Log a) (Rec_Log b) = reftable_log_record_cmp a b"
| "reftable_record_cmp (Rec_Obj a) (Rec_Obj b) = reftable_obj_record_cmp a b"
| "reftable_record_cmp (Rec_Index a) (Rec_Index b) = Ok (reftable_index_record_cmp a b)"
| "reftable_record_cmp _ _ = Crash Bug"

fun reftable_record_equal :: "reftable_record \<Rightarrow> reftable_record \<Rightarrow> nat \<Rightarrow> bool res" where
  "reftable_record_equal (Rec_Ref a) (Rec_Ref b) hsz = reftable_ref_record_equal a b hsz"
| "reftable_record_equal (Rec_Log a) (Rec_Log b) hsz = reftable_log_record_equal a b hsz"
| "reftable_record_equal (Rec_Obj a) (Rec_Obj b) hsz = Ok (reftable_obj_record_equal a b)"
| "reftable_record_equal (Rec_Index a) (Rec_Index b) hsz = Ok (reftable_index_record_equal a b)"
| "reftable_record_equal _ _ hsz = Ok False"

section \<open>What a record type promises\<close>

text \<open>
  The contract of a vtable towards the block layer: a well-formed record has a key and a value type
  that fits into the three spare bits of the key, it is written as a fixed sequence of bytes
  whenever there is room for them, and the key, the value type and those bytes give the record
  back (\<open>norm\<close> fills in what the encoding does not tell apart).
\<close>

locale record_codec =
  fixes ok :: "'r \<Rightarrow> bool"
    and key :: "'r \<Rightarrow> bytes res"
    and val_type :: "'r \<Rightarrow> byte"
    and encode :: "'r \<Rightarrow> nat \<Rightarrow> bytes res"
    and decode :: "bytes \<Rightarrow> byte \<Rightarrow> bytes \<Rightarrow> ('r \<times> nat) res"
    and norm :: "'r \<Rightarrow> 'r"
    and body :: "'r \<Rightarrow> bytes"
  assumes key_total: "ok r \<Longrightarrow> \<exists>k. key r = Ok k \<and> length k < 2 ^ 61"
    and val_type_small: "ok r \<Longrightarrow> val_type r < 8"
    and encode_eq: "ok r \<Longrightarrow>
      encode r room = (if room < length (body r) then Err GENERAL_ERROR else Ok (body r))"
    and decode_body: "ok r \<Longrightarrow> key r = Ok k \<Longrightarrow>
      decode k (val_type r) (body r @ rest) = Ok (norm r, length (body r))"
begin

text \<open>An entry of a block: the prefix-compressed key followed by the body.\<close>

definition entry :: "bytes \<Rightarrow> 'r \<Rightarrow> bytes res" where
  "entry prev r = res_bind (key r) (\<lambda>k. Ok (key_bytes prev k (val_type r) @ body r))"

definition read_entry :: "bytes \<Rightarrow> bytes \<Rightarrow> ('r \<times> bytes \<times> nat) res" where
  "read_entry last_key inp =
     res_bind (reftable_decode_key last_key inp) (\<lambda>(k, extra, n).
     res_bind (decode k extra (drop n inp)) (\<lambda>(r, m). Ok (r, k, n + m)))"

lemma read_entry_entry:
  assumes "ok r" "key r = Ok k" "entry prev r = Ok bs"
    and "common_prefix_size prev k \<le> length last_key"
    and "take (common_prefix_size prev k) last_key = take (common_prefix_size prev k) k"
  shows "read_entry last_key (bs @ rest) = Ok (norm r, k, length bs)"
proof -
  from key_total [OF assms(1)] assms(2) have len: "length k < 2 ^ 61" by simp
  from assms(2,3) have bs: "bs = key_bytes prev k (val_type r) @ body r"
    by (simp add: entry_def)
  show ?thesis
    using reftable_decode_key_bytes [OF val_type_small [OF assms(1)] len assms(4,5), of "body r @ rest"]
      decode_body [OF assms(1,2), of rest]
    by (simp add: read_entry_def bs)
qed

end

section \<open>The four record types keep the contract\<close>

subsection \<open>References\<close>

definition name_ok :: "bytes option \<Rightarrow> bool" where
  "name_ok p \<longleftrightarrow> (case p of None \<Rightarrow> False | Some n \<Rightarrow> n \<noteq> [] \<and> 0 \<notin> set n \<and> length n < 2 ^ 60)"

definition ref_ok :: "reftable_env \<Rightarrow> nat \<Rightarrow> ref_record \<Rightarrow> bool" where
  "ref_ok E hsz r \<longleftrightarrow> type_codes_ok E \<and> hsz > 0 \<and> name_ok (ref_name r) \<and>
     (case ref_value r of
        Ref_Deletion \<Rightarrow> True
      | Ref_Val1 v \<Rightarrow> length v = hsz
      | Ref_Val2 v t \<Rightarrow> length v = hsz \<and> length t = hsz
      | Ref_Symref s \<Rightarrow> 0 \<notin> set s \<and> length s < 2 ^ 64)"

definition ref_body :: "ref_record \<Rightarrow> bytes" where
  "ref_body r = var_int_bytes (ref_update_index r) @
     (case ref_value r of Ref_Deletion \<Rightarrow> [] | Ref_Val1 v \<Rightarrow> v | Ref_Val2 v t \<Rightarrow> v @ t
      | Ref_Symref s \<Rightarrow> string_bytes s)"

lemma reftable_ref_record_encode_eq:
  "ref_ok E hsz r \<Longrightarrow> reftable_ref_record_encode r room hsz =
     (if room < length (ref_body r) then Err GENERAL_ERROR else Ok (ref_body r))"
  by (auto simp: ref_ok_def reftable_ref_record_encode_def ref_body_def put_var_int_eq
      encode_string_eq read_at_def Let_def split: ref_value.splits)

lemma reftable_ref_record_decode_body:
  assumes "ref_ok E hsz r" "reftable_ref_record_key r = Ok k"
  shows "reftable_ref_record_decode E k (reftable_ref_record_val_type E r) (ref_body r @ rest) hsz =
    Ok (r, length (ref_body r))"
proof -
  from assms have ok: "type_codes_ok E" "hsz > 0" "ref_name r = Some k"
    by (auto simp: ref_ok_def name_ok_def reftable_ref_record_key_def c_deref_def split: option.splits)
  show ?thesis
  proof (cases "ref_value r")
    case (Ref_Symref s)
    then have "c_str s = s" "strlen s < 2 ^ 64"
      using assms(1) by (auto simp: ref_ok_def strlen_def)
    then show ?thesis
      using Ref_Symref ok decode_string_bytes [of s rest]
      by (simp add: reftable_ref_record_decode_def reftable_ref_record_val_type_def ref_body_def
          get_var_int_bytes)
  qed (use assms ok in \<open>auto simp: reftable_ref_record_decode_def reftable_ref_record_val_type_def
      ref_body_def get_var_int_bytes ref_ok_def\<close>)
qed

interpretation ref_codec: record_codec "ref_ok E hsz" reftable_ref_record_key
  "reftable_ref_record_val_type E" "\<lambda>r room. reftable_ref_record_encode r room hsz"
  "\<lambda>k t inp. reftable_ref_record_decode E k t inp hsz" id ref_body for E hsz
proof unfold_locales
  fix r k room rest
  assume ok: "ref_ok E hsz r"
  show "\<exists>k. reftable_ref_record_key r = Ok k \<and> length k < 2 ^ 61"
    using ok by (auto simp: ref_ok_def name_ok_def reftable_ref_record_key_def c_deref_def split: option.splits)
  show "reftable_ref_record_val_type E r < 8"
    using ok by (simp add: ref_ok_def reftable_ref_record_val_type_def ref_type_code_less)
  show "reftable_ref_record_encode r room hsz =
      (if room < length (ref_body r) then Err GENERAL_ERROR else Ok (ref_body r))"
    by (rule reftable_ref_record_encode_eq [OF ok])
  assume "reftable_ref_record_key r = Ok k"
  then show "reftable_ref_record_decode E k (reftable_ref_record_val_type E r) (ref_body r @ rest) hsz =
      Ok (id r, length (ref_body r))"
    using reftable_ref_record_decode_body [OF ok] by simp
qed

subsection \<open>Objects\<close>

fun offsets_bytes :: "u64 \<Rightarrow> u64 list \<Rightarrow> bytes" where
  "offsets_bytes prev [] = []"
| "offsets_bytes prev (off # offs) = var_int_bytes (off - prev) @ offsets_bytes off offs"

definition obj_body :: "obj_record \<Rightarrow> bytes" where
  "obj_body r =
     (if length (obj_offsets r) = 0 \<or> length (obj_offsets r) \<ge> 8
      then var_int_bytes (word_of_nat (length (obj_offsets r))) else [])
     @ (case obj_offsets r of [] \<Rightarrow> [] | off # offs \<Rightarrow> var_int_bytes off @ offsets_bytes off offs)"

definition obj_ok :: "reftable_env \<Rightarrow> obj_record \<Rightarrow> bool" where
  "obj_ok E r \<longleftrightarrow> alloc_ok E \<and> obj_hash_prefix r \<noteq> [] \<and> length (obj_hash_prefix r) < 2 ^ 61
     \<and> length (obj_offsets r) < 2 ^ 64"

lemma encode_offsets_eq:
  "encode_offsets prev offs room =
     (if room < length (offsets_bytes prev offs) then Err GENERAL_ERROR else Ok (offsets_bytes prev offs))"
  by (induction prev offs room rule: encode_offsets.induct) (auto simp: put_var_int_eq)

lemma decode_offsets_bytes:
  "decode_offsets (length offs) prev (offsets_bytes prev offs @ rest) =
     Ok (offs, length (offsets_bytes prev offs))"
  by (induction offs arbitrary: prev) (simp_all add: get_var_int_bytes)

lemma reftable_obj_record_encode_eq:
  "reftable_obj_record_encode r room =
     (if room < length (obj_body r) then Err GENERAL_ERROR else Ok (obj_body r))"
  by (auto simp: reftable_obj_record_encode_def obj_body_def put_var_int_eq encode_offsets_eq
      split: list.splits)

lemma obj_count_bytes:
  fixes r :: obj_record
  defines "n \<equiv> length (obj_offsets r)" and "t \<equiv> reftable_obj_record_val_type r"
  shows "(if t = 0 then get_var_int ((if n = 0 \<or> n \<ge> 8 then var_int_bytes (word_of_nat n) else []) @ xs)
      else Ok (ucast t, 0)) =
    Ok (word_of_nat n, length (if n = 0 \<or> n \<ge> 8 then var_int_bytes (word_of_nat n) else []))"
proof (cases "n = 0 \<or> n \<ge> 8")
  case True
  then show ?thesis
    by (auto simp: n_def t_def reftable_obj_record_val_type_def get_var_int_bytes)
next
  case False
  then have "n = 1 \<or> n = 2 \<or> n = 3 \<or> n = 4 \<or> n = 5 \<or> n = 6 \<or> n = 7" by linarith
  then show ?thesis by (auto simp: n_def t_def reftable_obj_record_val_type_def)
qed

lemma reftable_obj_record_decode_body:
  assumes "obj_ok E r"
  shows "reftable_obj_record_decode E (obj_hash_prefix r) (reftable_obj_record_val_type r)
    (obj_body r @ rest) = Ok (r, length (obj_body r))"
proof -
  define n where "n = length (obj_offsets r)"
  define t where "t = reftable_obj_record_val_type r"
  define cnt where "cnt = (if n = 0 \<or> n \<ge> 8 then var_int_bytes (word_of_nat n) else [])"
  from assms have n: "unat (word_of_nat n :: u64) = n" and alloc: "\<And>n. n > 0 \<Longrightarrow> alloc_array E n"
    and pre: "alloc_array E (length (obj_hash_prefix r))"
    by (auto simp: obj_ok_def unat_of_nat alloc_ok_def n_def)
  have count: "(if t = 0 then get_var_int (cnt @ xs) else Ok (ucast t, 0)) = Ok (word_of_nat n, length cnt)" for xs
    unfolding n_def t_def cnt_def by (rule obj_count_bytes)
  show ?thesis
  proof (cases "obj_offsets r")
    case Nil
    then have "obj_body r = cnt" "n = 0" by (simp_all add: obj_body_def cnt_def n_def)
    with Nil count [of rest] pre show ?thesis
      by (simp add: reftable_obj_record_decode_def t_def [symmetric])
  next
    case (Cons off offs)
    then have nn: "n = Suc (length offs)" by (simp add: n_def)
    with n have nz: "word_of_nat n \<noteq> (0 :: u64)" by (metis nat.distinct(1) unat_0)
    have body: "obj_body r = cnt @ var_int_bytes off @ offsets_bytes off offs"
      by (simp add: obj_body_def Cons cnt_def n_def)
    have "unat (word_of_nat n :: u64) = Suc (length offs)"
      using n nn by simp
    then show ?thesis
      using count [of "var_int_bytes off @ offsets_bytes off offs @ rest"] nz Cons pre alloc
      by (simp add: reftable_obj_record_decode_def body t_def [symmetric] get_var_int_bytes
          decode_offsets_bytes)
  qed
qed

interpretation obj_codec: record_codec "obj_ok E" reftable_obj_record_key
  reftable_obj_record_val_type reftable_obj_record_encode
  "\<lambda>k t inp. reftable_obj_record_decode E k t inp" id obj_body for E
proof unfold_locales
  fix r :: obj_record and k :: bytes and rest
  assume ok: "obj_ok E r"
  show "reftable_obj_record_val_type r < 8"
    by (auto simp: reftable_obj_record_val_type_def word_less_nat_alt unat_of_nat)
  show "\<exists>k. reftable_obj_record_key r = Ok k \<and> length k < 2 ^ 61"
    using ok by (simp add: obj_ok_def reftable_obj_record_key_def)
  assume "reftable_obj_record_key r = Ok k"
  then show "reftable_obj_record_decode E k (reftable_obj_record_val_type r) (obj_body r @ rest) =
      Ok (id r, length (obj_body r))"
    using reftable_obj_record_decode_body [OF ok] by (simp add: reftable_obj_record_key_def)
qed (rule reftable_obj_record_encode_eq)

subsection \<open>Logs\<close>

definition str_ok :: "bytes option \<Rightarrow> bool" where
  "str_ok p \<longleftrightarrow> strlen (str_or_empty p) < 2 ^ 64"

definition log_update_ok :: "nat \<Rightarrow> log_update \<Rightarrow> bool" where
  "log_update_ok hsz u \<longleftrightarrow> length (old_hash u) = hsz \<and> length (new_hash u) = hsz
     \<and> str_ok (log_user u) \<and> str_ok (log_email u) \<and> str_ok (log_message u)"

definition log_ok :: "reftable_env \<Rightarrow> nat \<Rightarrow> log_record \<Rightarrow> bool" where
  "log_ok E hsz r \<longleftrightarrow> be64_ok E \<and> be16_ok E \<and> name_ok (log_name r) \<and>
     (case log_value r of
        Log_Deletion \<Rightarrow> True | Log_Update u \<Rightarrow> log_update_ok hsz u | Log_Other _ _ \<Rightarrow> False)"

definition log_update_body :: "log_update \<Rightarrow> bytes" where
  "log_update_body u =
     old_hash u @ new_hash u @ string_bytes (str_or_empty (log_user u))
     @ string_bytes (str_or_empty (log_email u)) @ var_int_bytes (log_time u)
     @ put_be16 (log_tz_offset u) @ string_bytes (str_or_empty (log_message u))"

definition log_body :: "log_record \<Rightarrow> bytes" where
  "log_body r = (case log_value r of
     Log_Deletion \<Rightarrow> [] | Log_Update u \<Rightarrow> log_update_body u | Log_Other _ u \<Rightarrow> log_update_body u)"

text \<open>The reader hands out empty strings where the writer was given \<open>NULL\<close>.\<close>

definition norm_str :: "bytes option \<Rightarrow> bytes option" where
  "norm_str p = Some (c_str (str_or_empty p))"

definition log_norm :: "log_record \<Rightarrow> log_record" where
  "log_norm r = (case log_value r of
     Log_Update u \<Rightarrow> r\<lparr>log_value := Log_Update (u\<lparr>log_user := norm_str (log_user u),
       log_email := norm_str (log_email u), log_message := norm_str (log_message u)\<rparr>)\<rparr>
   | _ \<Rightarrow> r)"

lemma log_update_encode_eq:
  "log_update_ok hsz u \<Longrightarrow> log_update_encode u room hsz =
     (if room < length (log_update_body u) then Err GENERAL_ERROR else Ok (log_update_body u))"
  by (simp add: log_update_ok_def log_update_encode_def log_update_body_def encode_string_eq
      put_var_int_eq read_at_def Let_def) auto

lemma log_update_decode_body:
  assumes "log_update_ok hsz u" "be16_ok E"
  shows "log_update_decode E (log_update_body u @ rest) hsz =
    Ok (u\<lparr>log_user := norm_str (log_user u), log_email := norm_str (log_email u),
          log_message := norm_str (log_message u)\<rparr>, length (log_update_body u))"
proof -
  have d: "decode_string (string_bytes (str_or_empty p) @ xs) =
      Ok (c_str (str_or_empty p), length (string_bytes (str_or_empty p)))" if "str_ok p" for p xs
    using that decode_string_bytes by (simp add: str_ok_def)
  have tz: "get_be16 E (put_be16 z @ xs) = z" for z xs
    using get_put_be16 [OF assms(2)] .
  show ?thesis
    using assms(1)
    by (cases u) (simp add: log_update_ok_def log_update_decode_def log_update_body_def d tz
        get_var_int_bytes norm_str_def Let_def)
qed

lemma reftable_log_record_decode_body:
  assumes ok: "log_ok E hsz r" and key: "reftable_log_record_key E r = Ok k"
  shows "reftable_log_record_decode E k (reftable_log_record_val_type r) (log_body r @ rest) hsz =
    Ok (log_norm r, length (log_body r))"
proof -
  from ok obtain n where n: "log_name r = Some n" "n \<noteq> []" "0 \<notin> set n" and be: "be64_ok E" "be16_ok E"
    by (auto simp: log_ok_def name_ok_def split: option.splits)
  let ?ts = "NOT 0 - log_update_index r"
  from key n have k: "k = n @ [0] @ put_be64 E ?ts"
    by (simp add: reftable_log_record_key_def c_deref_def Let_def)
  note k_simps = be64_simps [OF be(1)]
  have len: "length k = length n + 9" "k ! (length k - 9) = 0" "take (length k - 9) k = n"
    "drop (length k - 8) k = put_be64 E ?ts"
    by (simp_all add: k k_simps nth_append)
  have head: "\<not> (length k \<le> 9 \<or> k ! (length k - 9) \<noteq> 0)"
    using len n(2) by simp
  have ts: "get_be64 E (drop (length k - 8) k) = ?ts"
    by (simp only: len(4) k_simps)
  show ?thesis
    unfolding reftable_log_record_decode_def if_not_P [OF head] ts len(3) Let_def
    using ok n log_update_decode_body [OF _ be(2), of hsz _ rest]
    by (cases r) (auto simp: log_ok_def reftable_log_record_val_type_def
        reftable_log_record_is_deletion_def log_body_def log_norm_def split: log_value.splits)
qed

interpretation log_codec: record_codec "log_ok E hsz" "reftable_log_record_key E"
  reftable_log_record_val_type "\<lambda>r room. reftable_log_record_encode r room hsz"
  "\<lambda>k t inp. reftable_log_record_decode E k t inp hsz" log_norm log_body for E hsz
proof unfold_locales
  fix r k room rest
  assume ok: "log_ok E hsz r"
  show "\<exists>k. reftable_log_record_key E r = Ok k \<and> length k < 2 ^ 61"
    using ok by (auto simp: log_ok_def name_ok_def reftable_log_record_key_def c_deref_def be64_simps
        Let_def split: option.splits)
  show "reftable_log_record_val_type r < 8"
    by (simp add: reftable_log_record_val_type_def)
  show "reftable_log_record_encode r room hsz =
      (if room < length (log_body r) then Err GENERAL_ERROR else Ok (log_body r))"
    using ok by (auto simp: log_ok_def reftable_log_record_encode_def log_body_def log_update_encode_eq
        split: log_value.splits)
  assume "reftable_log_record_key E r = Ok k"
  then show "reftable_log_record_decode E k (reftable_log_record_val_type r) (log_body r @ rest) hsz =
      Ok (log_norm r, length (log_body r))"
    by (rule reftable_log_record_decode_body [OF ok])
qed

subsection \<open>Index entries\<close>

definition index_ok :: "index_record \<Rightarrow> bool" where
  "index_ok r \<longleftrightarrow> length (idx_last_key r) < 2 ^ 61"

interpretation index_codec: record_codec index_ok reftable_index_record_key
  reftable_index_record_val_type reftable_index_record_encode
  "\<lambda>k t inp. reftable_index_record_decode k inp" id "\<lambda>r. var_int_bytes (idx_offset r)"
  by unfold_locales
    (auto simp: index_ok_def reftable_index_record_key_def reftable_index_record_val_type_def
      reftable_index_record_encode_def put_var_int_eq reftable_index_record_decode_def get_var_int_bytes)

subsection \<open>Any record\<close>

fun record_ok :: "reftable_env \<Rightarrow> nat \<Rightarrow> reftable_record \<Rightarrow> bool" where
  "record_ok E hsz (Rec_Ref r) = ref_ok E hsz r"
| "record_ok E hsz (Rec_Log r) = log_ok E hsz r"
| "record_ok E hsz (Rec_Obj r) = obj_ok E r"
| "record_ok E hsz (Rec_Index r) = index_ok r"

fun record_norm :: "reftable_record \<Rightarrow> reftable_record" where
  "record_norm (Rec_Log r) = Rec_Log (log_norm r)"
| "record_norm rec = rec"

fun record_body :: "reftable_record \<Rightarrow> bytes" where
  "record_body (Rec_Ref r) = ref_body r"
| "record_body (Rec_Log r) = log_body r"
| "record_body (Rec_Obj r) = obj_body r"
| "record_body (Rec_Index r) = var_int_bytes (idx_offset r)"

lemma record_type_cases:
  assumes "reftable_record_type rec = typ"
  obtains (Ref) r where "rec = Rec_Ref r" "typ = BLOCK_TYPE_REF"
  | (Log) r where "rec = Rec_Log r" "typ = BLOCK_TYPE_LOG"
  | (Obj) r where "rec = Rec_Obj r" "typ = BLOCK_TYPE_OBJ"
  | (Index) r where "rec = Rec_Index r" "typ = BLOCK_TYPE_INDEX"
  using assms by (cases rec) auto

lemma reftable_record_decode_type:
  "reftable_record_type rec = reftable_record_type rec' \<Longrightarrow>
     reftable_record_decode E rec k t inp hsz = reftable_record_decode E rec' k t inp hsz"
  by (cases rec; cases rec') (auto simp: block_type_defs)

interpretation any_codec: record_codec
  "\<lambda>rec. record_ok E hsz rec \<and> reftable_record_type rec = reftable_record_type rec0"
  "reftable_record_key E" "reftable_record_val_type E" "\<lambda>rec room. reftable_record_encode rec room hsz"
  "\<lambda>k t inp. reftable_record_decode E rec0 k t inp hsz" record_norm record_body for E hsz rec0
proof unfold_locales
  fix rec k room rest
  assume ok: "record_ok E hsz rec \<and> reftable_record_type rec = reftable_record_type rec0"
  show "\<exists>k. reftable_record_key E rec = Ok k \<and> length k < 2 ^ 61"
    using ok by (cases rec) (auto dest: ref_codec.key_total log_codec.key_total
        obj_codec.key_total index_codec.key_total)
  show "reftable_record_val_type E rec < 8"
    using ok by (cases rec) (simp_all add: ref_codec.val_type_small [of E hsz]
        log_codec.val_type_small [of E hsz] obj_codec.val_type_small [of E] index_codec.val_type_small)
  show "reftable_record_encode rec room hsz =
      (if room < length (record_body rec) then Err GENERAL_ERROR else Ok (record_body rec))"
    using ok by (cases rec) (simp_all add: ref_codec.encode_eq [of E] log_codec.encode_eq [of E]
        obj_codec.encode_eq [of E] index_codec.encode_eq)
  assume key: "reftable_record_key E rec = Ok k"
  have "reftable_record_decode E rec k (reftable_record_val_type E rec) (record_body rec @ rest) hsz =
      Ok (record_norm rec, length (record_body rec))"
    using ok key by (cases rec) (simp_all add: ref_codec.decode_body log_codec.decode_body
        obj_codec.decode_body index_codec.decode_body)
  then show "reftable_record_decode E rec0 k (reftable_record_val_type E rec) (record_body rec @ rest) hsz =
      Ok (record_norm rec, length (record_body rec))"
    using ok reftable_record_decode_type [of rec rec0] by simp
qed

text \<open>The key of a record that has one.\<close>

definition key_of :: "reftable_env \<Rightarrow> reftable_record \<Rightarrow> bytes" where
  "key_of E rec = (case reftable_record_key E rec of Ok k \<Rightarrow> k | _ \<Rightarrow> [])"

lemma key_of_eq:
  assumes "record_ok E hsz rec"
  shows "reftable_record_key E rec = Ok (key_of E rec)" and "length (key_of E rec) < 2 ^ 61"
  using any_codec.key_total [of E hsz rec rec] assms by (auto simp: key_of_def)

lemma key_of_norm [simp]: "key_of E (record_norm rec) = key_of E rec"
  by (cases rec) (auto simp: key_of_def log_norm_def reftable_log_record_key_def split: log_value.splits)

lemma reftable_record_key_norm [simp]: "reftable_record_key E (record_norm rec) = reftable_record_key E rec"
  by (cases rec) (auto simp: log_norm_def reftable_log_record_key_def split: log_value.splits)

lemma reftable_record_type_norm [simp]: "reftable_record_type (record_norm rec) = reftable_record_type rec"
  by (cases rec) auto

section \<open>Comparison, equality and copies\<close>

text \<open>Terminated names compare like the names, and only on equal names does the rest decide.\<close>

lemma nul_terminated_less:
  fixes a b x y :: bytes
  assumes "0 \<notin> set a" "0 \<notin> set b"
  shows "a @ 0 # x < b @ 0 # y \<longleftrightarrow> a < b \<or> a = b \<and> x < y"
  using assms
proof (induction a arbitrary: b)
  case Nil
  then show ?case by (cases b) (auto simp: word_neq_0_conv)
next
  case (Cons c a)
  then show ?case by (cases b) (auto simp: word_neq_0_conv)
qed

lemma nul_terminated_eq:
  fixes a b x y :: bytes
  assumes "0 \<notin> set a" "0 \<notin> set b"
  shows "a @ 0 # x = b @ 0 # y \<longleftrightarrow> a = b \<and> x = y"
  using assms
proof (induction a arbitrary: b)
  case Nil
  then show ?case by (cases b) auto
next
  case (Cons c a)
  then show ?case by (cases b) auto
qed

lemma ones_minus_less: "NOT 0 - x < NOT 0 - y \<longleftrightarrow> y < (x :: u64)"
proof -
  have "unat (NOT 0 - z) = 2 ^ 64 - 1 - unat z" "unat z < 2 ^ 64" for z :: u64
    using unat_lt [of z]
    by (simp_all add: unat_sub unsigned_minus_1_eq_mask mask_eq_exp_minus_1)
  from this(1) [of x] this(1) [of y] this(2) [of x] this(2) [of y]
  show ?thesis unfolding word_less_nat_alt by linarith
qed

lemma log_key_sign:
  assumes "be64_ok E" "reftable_log_record_key E a = Ok ka" "reftable_log_record_key E b = Ok kb"
  shows "reftable_log_record_compare_key a b = Ok (order_sign ka kb)"
proof -
  from assms obtain x y where n: "log_name a = Some x" "log_name b = Some y"
    and k: "ka = c_str x @ 0 # put_be64 E (NOT 0 - log_update_index a)"
      "kb = c_str y @ 0 # put_be64 E (NOT 0 - log_update_index b)"
    by (auto simp: reftable_log_record_key_def c_deref_def Let_def split: option.splits)
  note order = nul_terminated_less [OF c_str_no_nul c_str_no_nul]
    nul_terminated_eq [OF c_str_no_nul c_str_no_nul] be64_simps [OF assms(1)]
  have eq: "NOT 0 - log_update_index a = NOT 0 - log_update_index b \<longleftrightarrow>
      log_update_index a = log_update_index b" by simp
  show ?thesis
    unfolding reftable_log_record_compare_key_def n k prod.case option.case strcmp_sign Let_def
      order_sign_def order ones_minus_less eq
    by auto
qed

lemma ref_key_sign:
  assumes "reftable_ref_record_key a = Ok ka" "reftable_ref_record_key b = Ok kb"
  shows "reftable_ref_record_cmp a b = Ok (order_sign ka kb)"
  using assms
  by (auto simp: reftable_ref_record_key_def reftable_ref_record_cmp_def c_deref_def strcmp_sign
      split: option.splits)

lemma memcmp_checked_same_length:
  "length a = n \<Longrightarrow> length b = n \<Longrightarrow> memcmp_checked n a b = Ok (order_sign a b)"
  by (induction n a b rule: memcmp_checked.induct) (auto simp: order_sign_def)

lemma obj_key_sign:
  "length (obj_hash_prefix a) = length (obj_hash_prefix b) \<Longrightarrow>
     reftable_obj_record_cmp a b = Ok (order_sign (obj_hash_prefix a) (obj_hash_prefix b))"
  by (auto simp: reftable_obj_record_cmp_def memcmp_checked_same_length order_sign_def)

text \<open>The truncated difference has the right sign as long as the indices are close.\<close>

lemma sint_diff_close:
  fixes x y :: u64
  assumes "y \<le> x" "unat x - unat y < 2 ^ 31"
  shows "sint (ucast (x - y) :: u32) = int (unat x - unat y)"
    and "sint (ucast (y - x) :: u32) = - int (unat x - unat y)"
proof -
  let ?d = "int (unat x - unat y)"
  have le: "unat y \<le> unat x" using assms(1) by (simp add: word_le_nat_alt)
  have d: "x - y = of_int ?d" "y - x = of_int (- ?d)"
    using le by (simp_all add: of_nat_diff)
  have s: "sint (of_int i :: u32) = i" if "- (2 ^ 31) \<le> i" "i < 2 ^ 31" for i :: int
    using that by (simp add: signed_of_int signed_take_bit_int_eq_self)
  have u: "(ucast (of_int i :: u64) :: u32) = of_int i" for i :: int
    by (rule bit_word_eqI) (auto simp: bit_simps)
  show "sint (ucast (x - y) :: u32) = ?d" unfolding d(1) u by (rule s) (use assms(2) in auto)
  show "sint (ucast (y - x) :: u32) = - ?d" unfolding d(2) u by (rule s) (use assms(2) in auto)
qed

text \<open>Equality of records is equality of what the file format stores.\<close>

lemma null_streq_iff: "null_streq p q \<longleftrightarrow> norm_str p = norm_str q"
  unfolding null_streq_def norm_str_def str_or_empty_def [symmetric] strcmp_sign
  by auto

lemma name_ok_norm_str: "name_ok p \<Longrightarrow> norm_str p = p"
  by (auto simp: name_ok_def norm_str_def str_or_empty_def split: option.splits)

lemma memcmp_full: "length a = n \<Longrightarrow> length b = n \<Longrightarrow> memcmp a b n = 0 \<longleftrightarrow> a = b"
  by (simp add: memcmp_def bytes_cmp_eq_0_iff)

lemma ref_record_equal_iff:
  assumes "ref_ok E hsz a" "ref_ok E hsz b"
  shows "reftable_ref_record_equal a b hsz = Ok (a = b)"
proof -
  from assms have names: "null_streq (ref_name a) (ref_name b) \<longleftrightarrow> ref_name a = ref_name b" and "hsz > 0"
    by (simp_all add: null_streq_iff name_ok_norm_str ref_ok_def)
  with assms show ?thesis
    by (cases a; cases b)
      (auto simp: reftable_ref_record_equal_def names ref_ok_def hash_equal_def memcmp_full strcmp_sign
        split: ref_value.splits)
qed

lemma log_record_equal_iff:
  assumes "log_ok E hsz a" "log_ok E hsz b"
  shows "reftable_log_record_equal a b hsz = Ok (log_norm a = log_norm b)"
proof -
  have names: "null_streq (log_name a) (log_name b) \<longleftrightarrow> log_name a = log_name b"
    using assms by (simp add: null_streq_iff name_ok_norm_str log_ok_def)
  have upd: "log_update_equal u v hsz \<longleftrightarrow>
      u\<lparr>log_user := norm_str (log_user u), log_email := norm_str (log_email u), log_message := norm_str (log_message u)\<rparr>
      = v\<lparr>log_user := norm_str (log_user v), log_email := norm_str (log_email v), log_message := norm_str (log_message v)\<rparr>"
    if "log_update_ok hsz u" "log_update_ok hsz v" for u v
    using that by (cases u; cases v) (auto simp: log_update_equal_def log_update_ok_def null_streq_iff memcmp_full)
  show ?thesis
    using assms names
    by (cases a; cases b) (auto simp: reftable_log_record_equal_def log_ok_def log_norm_def upd
        split: log_value.splits)
qed

lemma obj_record_equal_iff: "reftable_obj_record_equal a b \<longleftrightarrow> a = b"
  by (cases a; cases b) (auto simp: reftable_obj_record_equal_def memcmp_full)

lemma index_record_equal_iff: "reftable_index_record_equal a b \<longleftrightarrow> a = b"
  by (cases a; cases b) (auto simp: reftable_index_record_equal_def reftable_buf_cmp_sign)

lemma record_equal_iff:
  "record_ok E hsz a \<Longrightarrow> record_ok E hsz b \<Longrightarrow>
     reftable_record_equal a b hsz = Ok (record_norm a = record_norm b)"
  by (cases a; cases b)
    (auto simp: ref_record_equal_iff log_record_equal_iff obj_record_equal_iff index_record_equal_iff)

text \<open>A record that can be copied: its strings are there, and its arrays are not empty.\<close>

fun copyable :: "reftable_record \<Rightarrow> bool" where
  "copyable (Rec_Ref r) = True"
| "copyable (Rec_Log r) = (case log_value r of
     Log_Update u \<Rightarrow> log_user u \<noteq> None \<and> log_email u \<noteq> None \<and> log_message u \<noteq> None | _ \<Rightarrow> True)"
| "copyable (Rec_Obj r) = (obj_offsets r \<noteq> [])"
| "copyable (Rec_Index r) = True"

lemma norm_str_neq_None [simp]: "norm_str p = None \<longleftrightarrow> False"
  by (simp add: norm_str_def)

lemma strdup_opt_norm: "p \<noteq> None \<Longrightarrow> strdup_opt p = norm_str p"
  by (auto simp: strdup_opt_def norm_str_def str_or_empty_def)

lemma record_copy_norm:
  assumes "record_ok E hsz src" "copyable src" "reftable_record_type dst = reftable_record_type src"
  shows "reftable_record_copy_from E dst src hsz = Ok (record_norm src)"
proof (cases src)
  case (Rec_Ref r)
  with assms(3) obtain d where d: "dst = Rec_Ref d"
    by (cases dst) (auto simp: block_type_defs)
  have name: "case_option (ref_name d) (\<lambda>n. Some (c_str n)) (ref_name r) = ref_name r"
    using assms(1) Rec_Ref by (auto simp: ref_ok_def name_ok_def split: option.splits)
  show ?thesis
    using assms(1) Rec_Ref d name
    by (cases r) (auto simp: reftable_ref_record_copy_from_def ref_ok_def read_at_def Let_def
        split: ref_value.splits option.splits)
next
  case (Rec_Log r)
  with assms(3) obtain d where d: "dst = Rec_Log d"
    by (cases dst) (auto simp: block_type_defs)
  have "strdup_opt (log_name r) = log_name r"
    using assms(1) Rec_Log by (auto simp: log_ok_def name_ok_def strdup_opt_def split: option.splits)
  then show ?thesis
    using assms(1,2) Rec_Log d
    by (cases r) (auto simp: reftable_log_record_copy_from_def log_ok_def log_norm_def
        strdup_opt_norm Let_def split: log_value.splits)
next
  case (Rec_Obj r)
  with assms show ?thesis
    by (cases dst) (auto simp: reftable_obj_record_copy_from_def obj_ok_def alloc_ok_def block_type_defs)
next
  case (Rec_Index r)
  with assms show ?thesis
    by (cases dst) (auto simp: reftable_index_record_copy_from_def block_type_defs)
qed

text \<open>
  Records that the dispatching comparison orders like their keys: of one type, with names, log
  entries with small update indices, object prefixes of one length.
\<close>

fun cmp_ok :: "byte \<Rightarrow> nat \<Rightarrow> reftable_record \<Rightarrow> bool" where
  "cmp_ok typ len (Rec_Ref r) \<longleftrightarrow> typ = BLOCK_TYPE_REF \<and> ref_name r \<noteq> None"
| "cmp_ok typ len (Rec_Log r) \<longleftrightarrow>
     typ = BLOCK_TYPE_LOG \<and> log_name r \<noteq> None \<and> unat (log_update_index r) < 2 ^ 31"
| "cmp_ok typ len (Rec_Obj r) \<longleftrightarrow> typ = BLOCK_TYPE_OBJ \<and> length (obj_hash_prefix r) = len"
| "cmp_ok typ len (Rec_Index r) \<longleftrightarrow> typ = BLOCK_TYPE_INDEX"

lemma log_cmp_compare_key:
  assumes "log_name a = Some x" "log_name b = Some y"
    and "unat (log_update_index a) < 2 ^ 31" "unat (log_update_index b) < 2 ^ 31"
  shows "\<exists>c d. reftable_log_record_cmp a b = Ok c \<and> reftable_log_record_compare_key a b = Ok d \<and> sgn c = sgn d"
proof (cases "strcmp x y = 0")
  case True
  let ?i = "log_update_index a" and ?j = "log_update_index b"
  have gt: "sgn (sint (ucast (?j - ?i) :: u32)) = - 1" if "?j < ?i"
  proof -
    have l: "unat ?j < unat ?i" using that by (simp add: word_less_nat_alt)
    have "sint (ucast (?j - ?i) :: u32) = - int (unat ?i - unat ?j)"
      using sint_diff_close(2) [of ?j ?i] that assms(3) by simp
    then show ?thesis using l by simp
  qed
  have lt: "sgn (sint (ucast (?j - ?i) :: u32)) = 1" if "?i < ?j"
  proof -
    have l: "unat ?i < unat ?j" using that by (simp add: word_less_nat_alt)
    have "sint (ucast (?j - ?i) :: u32) = int (unat ?j - unat ?i)"
      using sint_diff_close(1) [of ?i ?j] that assms(4) by simp
    then show ?thesis using l by simp
  qed
  show ?thesis
    using assms(1,2) True gt lt
    by (cases ?i ?j rule: linorder_cases)
      (auto simp: reftable_log_record_cmp_def reftable_log_record_compare_key_def)
qed (use assms(1,2) in \<open>simp add: reftable_log_record_cmp_def reftable_log_record_compare_key_def\<close>)

lemma sgn_order_sign [simp]: "sgn (order_sign a b) = order_sign a b"
  by (simp add: order_sign_def)

lemma record_cmp_sign:
  assumes "be64_ok E" "cmp_ok typ len a" "cmp_ok typ len b"
  shows "\<exists>c. reftable_record_cmp a b = Ok c \<and> sgn c = order_sign (key_of E a) (key_of E b)"
proof (cases a)
  case (Rec_Ref r)
  with assms(2,3) obtain s where s: "b = Rec_Ref s" by (cases b) (auto simp: block_type_defs)
  with Rec_Ref assms(2,3) show ?thesis
    using ref_key_sign [of r _ s]
    by (auto simp: key_of_def reftable_ref_record_key_def c_deref_def)
next
  case (Rec_Log r)
  with assms(2,3) obtain s where s: "b = Rec_Log s" by (cases b) (auto simp: block_type_defs)
  from Rec_Log s assms(2,3) obtain x y where n: "log_name r = Some x" "log_name s = Some y"
    and idx: "unat (log_update_index r) < 2 ^ 31" "unat (log_update_index s) < 2 ^ 31" by auto
  have k: "reftable_log_record_key E r = Ok (key_of E a)" "reftable_log_record_key E s = Ok (key_of E b)"
    using n by (simp_all add: Rec_Log s key_of_def reftable_log_record_key_def c_deref_def Let_def)
  from log_cmp_compare_key [OF n idx] log_key_sign [OF assms(1) k] Rec_Log s show ?thesis by auto
next
  case (Rec_Obj r)
  with assms(2,3) obtain s where s: "b = Rec_Obj s" by (cases b) (auto simp: block_type_defs)
  with Rec_Obj assms(2,3) show ?thesis
    by (simp add: obj_key_sign key_of_def reftable_obj_record_key_def)
next
  case (Rec_Index r)
  with assms(2,3) obtain s where s: "b = Rec_Index s" by (cases b) (auto simp: block_type_defs)
  with Rec_Index show ?thesis
    by (simp add: reftable_index_record_cmp_def reftable_buf_cmp_sign key_of_def reftable_index_record_key_def)
qed

end
