(* ===== verification/Reft_Props_Data.thy ===== *)
theory Reft_Props_Data
  imports Reft_Record Reft_Sample
begin

text \<open>
  Properties of the lowest layers: allocation, buffers, the parsers and searches of
  \<open>reftable_basics.c\<close>, and the encodings of \<open>reftable_record.c\<close>. Each comes with an instance on
  concrete data where it has hypotheses.
\<close>

section \<open>Records\<close>

definition sample_ref :: "bytes \<Rightarrow> reftable_record" where
  "sample_ref name = Rec_Ref \<lparr>ref_name = Some name, ref_update_index = 300, ref_value = Ref_Symref [109, 97]\<rparr>"


lemma sample_ref_ok: "name_ok (Some name) \<Longrightarrow> record_ok sample_env 20 (sample_ref name)"
  by (simp add: sample_ref_def ref_ok_def)

text \<open>
  (C9) Reading a record back. A well-formed record of any type, written by the key encoder and the
  value encoder of its type against any previous key, is read back by the key decoder and the value
  decoder: the same key, the same record (with empty strings for \<open>NULL\<close> ones in log entries), and
  exactly the bytes written are consumed, whatever follows them. The reader starts from the previous
  key and from any record of the same type.
\<close>

theorem record_round_trip:
  assumes "record_ok E hsz rec" and "reftable_record_type rec0 = reftable_record_type rec"
    and "reftable_record_key E rec = Ok key"
    and "reftable_encode_key room prev_key key (reftable_record_val_type E rec) = Ok (is_restart, kbs)"
    and "reftable_record_encode rec room' hsz = Ok vbs"
  shows "reftable_decode_key prev_key (kbs @ vbs @ rest) = Ok (key, reftable_record_val_type E rec, length kbs)
    \<and> reftable_record_decode E rec0 key (reftable_record_val_type E rec) (vbs @ rest) hsz = Ok (record_norm rec, length vbs)
    \<and> is_restart = (common_prefix_size prev_key key = 0)"
proof -
  have ok: "record_ok E hsz rec \<and> reftable_record_type rec = reftable_record_type rec0" using assms(1,2) by simp
  have vbs: "vbs = record_body rec" using assms(5) any_codec.encode_eq [OF ok, of room'] by (simp split: if_splits)
  have kbs: "kbs = key_bytes prev_key key (reftable_record_val_type E rec)" "is_restart = (common_prefix_size prev_key key = 0)"
    using assms(4) by (auto simp: reftable_encode_key_eq split: if_splits)
  have "length key < 2 ^ 61" using any_codec.key_total [OF ok] assms(3) by simp
  from reftable_decode_key_bytes [OF any_codec.val_type_small [OF ok] this, of prev_key prev_key "vbs @ rest"]
  have "reftable_decode_key prev_key (kbs @ vbs @ rest) = Ok (key, reftable_record_val_type E rec, length kbs)"
    unfolding kbs(1) using common_prefix_size_bounds(1) take_common_prefix_size by simp
  with kbs(2) any_codec.decode_body [OF ok assms(3)] show ?thesis unfolding vbs by simp
qed

theorem record_round_trip_witness:
  "reftable_decode_key [109] ([1, 11, 110] @ [129, 44, 2, 109, 97] @ []) = Ok ([109, 110], 3, 3)
   \<and> reftable_record_decode sample_env (sample_ref [120]) [109, 110] 3 ([129, 44, 2, 109, 97] @ []) 20 = Ok (sample_ref [109, 110], 5)
   \<and> False = (common_prefix_size [109] [109, 110] = 0)"
proof -
  have "record_ok sample_env 20 (sample_ref [109, 110])" by (rule sample_ref_ok) (simp add: name_ok_def)
  moreover have "reftable_record_type (sample_ref [120]) = reftable_record_type (sample_ref [109, 110])" by (simp add: sample_ref_def)
  moreover have "reftable_record_key sample_env (sample_ref [109, 110]) = Ok [109, 110]"
    by (simp add: sample_ref_def reftable_ref_record_key_def c_deref_def)
  moreover have code: "reftable_record_val_type sample_env (sample_ref [109, 110]) = 3"
    by (simp add: sample_ref_def reftable_ref_record_val_type_def sample_env_def)
  have "reftable_encode_key 10 [109] [109, 110] 3 = Ok (False, [1, 11, 110])" by code_simp
  then have "reftable_encode_key 10 [109] [109, 110] (reftable_record_val_type sample_env (sample_ref [109, 110])) = Ok (False, [1, 11, 110])"
    unfolding code .
  moreover have "reftable_record_encode (sample_ref [109, 110]) 10 20 = Ok [129, 44, 2, 109, 97]" by code_simp
  ultimately have *: "reftable_decode_key [109] ([1, 11, 110] @ [129, 44, 2, 109, 97] @ []) =
      Ok ([109, 110], reftable_record_val_type sample_env (sample_ref [109, 110]), length [1 :: byte, 11, 110])
    \<and> reftable_record_decode sample_env (sample_ref [120]) [109, 110] (reftable_record_val_type sample_env (sample_ref [109, 110]))
        ([129, 44, 2, 109, 97] @ []) 20 = Ok (record_norm (sample_ref [109, 110]), length [129 :: byte, 44, 2, 109, 97])
    \<and> False = (common_prefix_size [109] [109, 110 :: byte] = 0)"
    by (rule record_round_trip)
  with * code show ?thesis by (simp add: sample_ref_def)
qed






section \<open>Integers, keys and lists\<close>

text \<open>
  (C14) Variable-length integers. Every 64 bit number has an encoding of at most ten bytes, which
  \<open>put_var_int\<close> writes whenever the output has room for it and refuses otherwise; \<open>get_var_int\<close>
  reads the number back from those bytes and consumes exactly them, whatever follows.
\<close>

theorem var_int_round_trip:
  "\<exists>bs. 1 \<le> length bs \<and> length bs \<le> 10
     \<and> (\<forall>room. put_var_int room v = (if room < length bs then Err GENERAL_ERROR else Ok bs))
     \<and> (\<forall>rest. get_var_int (bs @ rest) = Ok (v, length bs))"
  using put_var_int_eq [of _ v] get_var_int_bytes [of v] length_var_int_bytes [of v] length_var_int_bytes_pos [of v]
  by (intro exI [of _ "var_int_bytes v"]) (simp add: Suc_le_eq)

text \<open>
  (C15) A truncated integer is read behind the end of its input: when every byte of a non-empty
  input has the continuation bit, the test \<open>ptr > in->len\<close> in the loop does not stop the read of
  the byte behind the last one, instead of the error that the function returns for an empty input.
\<close>

theorem get_var_int_reads_behind_end:
  assumes "inp \<noteq> []" and "\<forall>b \<in> set inp. b AND 0x80 \<noteq> 0"
  shows "get_var_int inp = Crash Out_Of_Bounds"
proof -
  have "get_var_int_loop inp ptr val = Crash Out_Of_Bounds" if "ptr < length inp" for ptr val
    using that assms(2)
  proof (induction inp ptr val rule: get_var_int_loop.induct)
    case (1 inp ptr val)
    then have "inp ! ptr AND 0x80 \<noteq> 0" by simp
    with 1 show ?case by (cases "ptr + 1 < length inp") (simp_all add: get_var_int_loop.simps [of inp ptr] Let_def)
  qed
  with assms(1) show ?thesis by (simp add: get_var_int_def)
qed

theorem get_var_int_reads_behind_end_witness: "get_var_int [0x80, 0xff] = Crash Out_Of_Bounds"
  by (rule get_var_int_reads_behind_end) simp_all



text \<open>
  (C20) Lists of names. Splitting a text with one name per line, as the file \<open>tables.list\<close> has
  them, gives back the names.
\<close>

theorem parse_names_round_trip:
  assumes "\<forall>n \<in> set ns. n \<noteq> [] \<and> 10 \<notin> set n \<and> 0 \<notin> set n"
  defines "txt_of \<equiv> concat (map (\<lambda>n. n @ [10]) ns)"
  shows "parse_names (txt_of @ 0 # junk) (length txt_of) = Ok ns"
proof -
  have "0 \<notin> set txt_of" using assms by auto
  moreover have "filter (\<lambda>l. l \<noteq> []) (split_on 10 txt_of) = ns"
    using assms by (simp add: split_on_lines filter_id_conv)
  ultimately show ?thesis by (simp add: parse_names_lines)
qed

theorem parse_names_round_trip_witness:
  "parse_names ([97, 98, 10, 99, 10] @ 0 # [1, 2]) (length [97 :: byte, 98, 10, 99, 10]) = Ok [[97, 98], [99]]"
  using parse_names_round_trip [of "[[97, 98], [99]]" "[1, 2]"] by simp

text \<open>
  (C22) Three-byte integers: reading what \<open>put_be24\<close> wrote gives the low 24 bits of the number, so
  a block length or a restart offset below 2^24 survives.
\<close>

theorem be24_round_trip: "get_be24 (put_be24 i @ rest) = Ok (take_bit 24 i)"
  by (rule get_put_be24)

section \<open>Memory\<close>




end
