(* ===== verification/Reft_Block.thy ===== *)
theory Reft_Block
  imports Reft_Record
begin

text \<open>
  Blocks (\<open>reftable_block.c\<close>): the writer that packs records into a buffer of \<open>block_size\<close> bytes
  with restart points behind them, and the reader, iterator and binary search over the result.
  The zlib stream of log blocks is the pair of functions \<open>deflate\<close> and \<open>inflate\<close> of the
  environment. Offsets and sizes are natural numbers; where C subtracts them as 32 bit numbers,
  the subtraction wraps around. What a failing \<open>block_writer_add\<close> leaves behind the end of the
  written part is not recorded: nothing reads it before it is overwritten.
\<close>

section \<open>Sizes\<close>

definition header_size :: "nat \<Rightarrow> nat res" where
  "header_size version = (if version = 1 then Ok 24 else if version = 2 then Ok 28 else Crash Abort)"

definition footer_size :: "nat \<Rightarrow> nat res" where
  "footer_size version = (if version = 1 then Ok 68 else if version = 2 then Ok 72 else Crash Abort)"

definition u32_sub :: "nat \<Rightarrow> nat \<Rightarrow> nat" where
  "u32_sub a b = nat ((int a - int b) mod 2 ^ 32)"

section \<open>Writing a block\<close>

record block_writer =
  bw_block :: bytes
  bw_block_size :: nat
  bw_header_off :: nat
  bw_hash_size :: nat
  bw_next :: nat
  bw_restart_interval :: nat
  bw_entries :: nat
  bw_restarts :: "nat list"
  bw_last_key :: bytes

definition block_writer_register_restart ::
  "reftable_env \<Rightarrow> block_writer \<Rightarrow> nat \<Rightarrow> bool \<Rightarrow> bytes \<Rightarrow> block_writer res" where
  "block_writer_register_restart E w n is_restart key =
     (let rlen = length (bw_restarts w);
          is_restart = (if rlen \<ge> MAX_RESTARTS E then False else is_restart);
          rlen = (if is_restart then rlen + 1 else rlen) in
      if 2 + 3 * rlen + n > u32_sub (bw_block_size w) (bw_next w) then Err GENERAL_ERROR
      else Ok (w\<lparr>bw_restarts := bw_restarts w @ (if is_restart then [bw_next w] else []),
                 bw_next := bw_next w + n, bw_last_key := key, bw_entries := bw_entries w + 1\<rparr>))"

definition block_writer_init :: "byte \<Rightarrow> bytes \<Rightarrow> nat \<Rightarrow> nat \<Rightarrow> nat \<Rightarrow> block_writer res" where
  "block_writer_init typ block block_size header_off hsz =
     res_bind (write_at header_off [typ] block) (\<lambda>block.
       Ok \<lparr>bw_block = block, bw_block_size = block_size, bw_header_off = header_off,
           bw_hash_size = hsz, bw_next = header_off + 4, bw_restart_interval = 16, bw_entries = 0,
           bw_restarts = [], bw_last_key = []\<rparr>)"

definition block_writer_type :: "block_writer \<Rightarrow> byte res" where
  "block_writer_type w = res_bind (read_at (bw_header_off w) 1 (bw_block w)) (\<lambda>bs. Ok (hd bs))"

definition block_writer_add :: "reftable_env \<Rightarrow> block_writer \<Rightarrow> reftable_record \<Rightarrow> block_writer res" where
  "block_writer_add E w rec =
     (let prev = (if bw_entries w mod bw_restart_interval w = 0 then [] else bw_last_key w);
          room = u32_sub (bw_block_size w) (bw_next w) in
      res_bind (reftable_record_key E rec) (\<lambda>key.
        if length key = 0 then Err API_ERROR
        else res_bind (or_error GENERAL_ERROR
                 (reftable_encode_key room prev key (reftable_record_val_type E rec))) (\<lambda>(is_restart, kbs).
          res_bind (or_error GENERAL_ERROR
                 (reftable_record_encode rec (room - length kbs) (bw_hash_size w))) (\<lambda>vbs.
          res_bind (write_at (bw_next w) (kbs @ vbs) (bw_block w)) (\<lambda>block.
            block_writer_register_restart E (w\<lparr>bw_block := block\<rparr>)
              (length kbs + length vbs) is_restart key)))))"

fun write_restarts :: "nat list \<Rightarrow> block_writer \<Rightarrow> block_writer res" where
  "write_restarts [] w = Ok w"
| "write_restarts (r # rs) w =
     res_bind (write_at (bw_next w) (put_be24 (word_of_nat r)) (bw_block w)) (\<lambda>block.
       write_restarts rs (w\<lparr>bw_block := block, bw_next := bw_next w + 3\<rparr>))"

definition block_writer_finish :: "reftable_env \<Rightarrow> block_writer \<Rightarrow> (block_writer \<times> nat) res" where
  "block_writer_finish E w =
     res_bind (write_restarts (bw_restarts w) w) (\<lambda>w.
     res_bind (write_at (bw_next w) (put_be16 (word_of_nat (length (bw_restarts w)))) (bw_block w)) (\<lambda>block.
     let w = w\<lparr>bw_block := block, bw_next := bw_next w + 2\<rparr> in
     res_bind (write_at (1 + bw_header_off w) (put_be24 (word_of_nat (bw_next w))) (bw_block w)) (\<lambda>block.
     let w = w\<lparr>bw_block := block\<rparr> in
     res_bind (block_writer_type w) (\<lambda>typ.
       if typ = BLOCK_TYPE_LOG then
         let block_header_skip = 4 + bw_header_off w in
         res_bind (read_at block_header_skip (bw_next w - block_header_skip) (bw_block w)) (\<lambda>src.
         let compressed = deflate E src in
         res_bind (write_at block_header_skip compressed (bw_block w)) (\<lambda>block.
         let w = w\<lparr>bw_block := block, bw_next := length compressed + block_header_skip\<rparr> in
         Ok (w, bw_next w)))
       else Ok (w, bw_next w)))))"

section \<open>Reading a block\<close>

record block_reader =
  br_data :: bytes
  br_hash_size :: nat
  br_block_len :: nat
  br_full_block_size :: nat
  br_header_off :: nat
  br_restart_count :: nat
  br_restart_start :: nat

text \<open>
  The log branch of \<open>block_reader_init\<close>: the data after inflating, and the number of bytes that
  the block takes in the file.
\<close>

definition block_inflate :: "reftable_env \<Rightarrow> bytes \<Rightarrow> nat \<Rightarrow> nat \<Rightarrow> (bytes \<times> nat) res" where
  "block_inflate E data header_off sz =
     (let block_header_skip = 4 + header_off in
      if sz < block_header_skip \<or> length data < block_header_skip then Crash Out_Of_Bounds
      else case inflate E (drop block_header_skip data) (sz - block_header_skip) of
          None \<Rightarrow> Err ZLIB_ERROR
        | Some (bs, consumed) \<Rightarrow>
            if length bs + block_header_skip \<noteq> sz then Err FORMAT_ERROR
            else Ok (take block_header_skip data @ bs, block_header_skip + consumed))"

definition block_reader_init ::
  "reftable_env \<Rightarrow> bytes \<Rightarrow> nat \<Rightarrow> nat \<Rightarrow> nat \<Rightarrow> block_reader res" where
  "block_reader_init E data header_off table_block_size hsz =
     res_bind (read_at header_off 1 data) (\<lambda>typ.
     res_bind (get_be24 (drop (header_off + 1) data)) (\<lambda>size24.
       let typ = hd typ; sz = unat size24 in
       if \<not> reftable_is_block_type typ then Err FORMAT_ERROR
       else res_bind
         (if typ = BLOCK_TYPE_LOG then block_inflate E data header_off sz
          else if table_block_size = 0 then Ok (data, sz)
          else if sz < table_block_size \<and> sz < length data \<and> data ! sz \<noteq> 0 then Ok (data, sz)
          else Ok (data, table_block_size))
         (\<lambda>(data, full_block_size).
           if sz < 2 \<or> sz > length data then Crash Out_Of_Bounds
           else let restart_count = unat (get_be16 E (drop (sz - 2) data));
                    restart_start = u32_sub (sz - 2) (3 * restart_count) in
             Ok \<lparr>br_data = data, br_hash_size = hsz, br_block_len = restart_start,
                 br_full_block_size = full_block_size, br_header_off = header_off,
                 br_restart_count = restart_count, br_restart_start = restart_start\<rparr>)))"

definition block_reader_type :: "block_reader \<Rightarrow> byte res" where
  "block_reader_type br = res_bind (read_at (br_header_off br) 1 (br_data br)) (\<lambda>bs. Ok (hd bs))"

text \<open>A view on the data from one offset up to another.\<close>

definition view :: "bytes \<Rightarrow> nat \<Rightarrow> nat \<Rightarrow> bytes res" where
  "view data off stop =
     (if off \<le> stop \<and> stop \<le> length data then Ok (take (stop - off) (drop off data))
      else Crash Out_Of_Bounds)"

definition block_reader_first_key :: "block_reader \<Rightarrow> bytes res" where
  "block_reader_first_key br =
     res_bind (view (br_data br) (br_header_off br + 4) (br_block_len br)) (\<lambda>inp.
     res_bind (reftable_decode_key [] inp) (\<lambda>(key, extra, n).
       if length key = 0 then Err FORMAT_ERROR else Ok key))"

definition block_reader_restart_offset :: "block_reader \<Rightarrow> nat \<Rightarrow> nat res" where
  "block_reader_restart_offset br idx =
     res_bind (get_be24 (drop (br_restart_start br + 3 * idx) (br_data br))) (\<lambda>off. Ok (unat off))"

section \<open>Iterating over a block\<close>

record block_iter =
  bi_block :: bytes
  bi_block_len :: nat
  bi_hash_size :: nat
  bi_last_key :: bytes
  bi_next_off :: nat

definition block_iter_reset :: "block_iter \<Rightarrow> block_iter" where
  "block_iter_reset it = it\<lparr>bi_last_key := [], bi_next_off := 0, bi_block := [], bi_block_len := 0, bi_hash_size := 0\<rparr>"

definition block_iter_seek_start :: "block_reader \<Rightarrow> block_iter" where
  "block_iter_seek_start br =
     \<lparr>bi_block = br_data br, bi_block_len = br_block_len br, bi_hash_size = br_hash_size br,
      bi_last_key = [], bi_next_off = br_header_off br + 4\<rparr>"

text \<open>
  The predicate of the binary search. Its state is the flag \<open>args.error\<close>; the needle is read up
  to the length of the shorter of the two keys.
\<close>

definition restart_needle_less :: "block_reader \<Rightarrow> bytes \<Rightarrow> nat \<Rightarrow> bool \<Rightarrow> (int \<times> bool) res" where
  "restart_needle_less br needle idx err =
     res_bind (block_reader_restart_offset br idx) (\<lambda>off.
     res_bind (view (br_data br) off (br_block_len br)) (\<lambda>inp.
       case reftable_decode_keylen inp of
         Crash c \<Rightarrow> Crash c
       | Err _ \<Rightarrow> Ok (- 1, True)
       | Ok (prefix_len, suffix_len, extra, n) \<Rightarrow>
           if prefix_len \<noteq> 0 then Ok (- 1, True)
           else let inp = drop n inp in
             if unat suffix_len > length inp then Ok (- 1, True)
             else let c = memcmp needle inp
                        (if length needle < unat suffix_len then length needle else unat suffix_len) in
               if c \<noteq> 0 then Ok (of_bool (c < 0), err)
               else Ok (of_bool (length needle < unat suffix_len), err)))"

definition block_iter_next ::
  "reftable_env \<Rightarrow> block_iter \<Rightarrow> reftable_record \<Rightarrow> (block_iter \<times> reftable_record) option res" where
  "block_iter_next E it rec =
     (if bi_next_off it \<ge> bi_block_len it then Ok None
      else res_bind (view (bi_block it) (bi_next_off it) (bi_block_len it)) (\<lambda>inp.
        res_bind (or_error GENERAL_ERROR (reftable_decode_key (bi_last_key it) inp)) (\<lambda>(key, extra, n).
          if length key = 0 then Err FORMAT_ERROR
          else res_bind (or_error GENERAL_ERROR
                 (reftable_record_decode E rec key extra (drop n inp) (bi_hash_size it))) (\<lambda>(rec, m).
            Ok (Some (it\<lparr>bi_last_key := key, bi_next_off := bi_next_off it + n + m\<rparr>, rec))))))"

lemma block_iter_next_advances:
  assumes "block_iter_next E it rec = Ok (Some (it', rec'))"
  shows "bi_next_off it < bi_next_off it'" "bi_next_off it < bi_block_len it"
    "bi_block_len it' = bi_block_len it" "bi_block it' = bi_block it" "bi_hash_size it' = bi_hash_size it"
  using assms
  by (auto simp: block_iter_next_def res_bind_eq_Ok split: if_splits dest!: reftable_decode_key_consumed)

lemma block_iter_next_decreases:
  "block_iter_next E it rec = Ok (Some (it', rec')) \<Longrightarrow>
     bi_block_len it' - bi_next_off it' < bi_block_len it - bi_next_off it"
  using block_iter_next_advances [of E it rec it' rec'] by simp

function block_iter_seek_loop ::
  "reftable_env \<Rightarrow> block_iter \<Rightarrow> reftable_record \<Rightarrow> bytes \<Rightarrow> block_iter res" where
  "block_iter_seek_loop E it rec want =
     (case block_iter_next E it rec of
        Crash c \<Rightarrow> Crash c
      | Err e \<Rightarrow> Err e
      | Ok None \<Rightarrow> Ok it
      | Ok (Some (it', rec')) \<Rightarrow>
          res_bind (reftable_record_key E rec') (\<lambda>key.
            if reftable_buf_cmp key want \<ge> 0
            then Ok (it'\<lparr>bi_last_key := key, bi_next_off := bi_next_off it\<rparr>)
            else block_iter_seek_loop E (it'\<lparr>bi_last_key := key\<rparr>) rec' want))"
  by pat_completeness auto
termination
  by (relation "measure (\<lambda>(E, it, rec, want). bi_block_len it - bi_next_off it)")
    (auto dest: block_iter_next_decreases)

declare block_iter_seek_loop.simps [simp del]

text \<open>
  When the binary search reports a malformed restart point, the function leaves through the label
  \<open>done\<close>, where it releases a record that has not been initialised.
\<close>

definition block_iter_seek_key ::
  "reftable_env \<Rightarrow> block_iter \<Rightarrow> block_reader \<Rightarrow> bytes \<Rightarrow> block_iter res" where
  "block_iter_seek_key E it br want =
     res_bind (binsearch (br_restart_count br) (restart_needle_less br want) False) (\<lambda>(i, error).
       if error then Crash Uninitialised
       else res_bind (if i > 0 then block_reader_restart_offset br (i - 1)
                      else Ok (br_header_off br + 4)) (\<lambda>off.
         let it = it\<lparr>bi_next_off := off, bi_block := br_data br, bi_block_len := br_block_len br,
                     bi_hash_size := br_hash_size br\<rparr> in
         res_bind (block_reader_type br) (\<lambda>typ.
         res_bind (reftable_record_init typ) (\<lambda>rec.
           block_iter_seek_loop E it rec want))))"

section \<open>The layout of a block\<close>

text \<open>
  The reference for what the writer produces: entry \<open>j\<close> is stored against the key of its predecessor, except at every \<open>iv\<close>-th entry.
\<close>

definition prev_key :: "reftable_env \<Rightarrow> nat \<Rightarrow> reftable_record list \<Rightarrow> nat \<Rightarrow> bytes" where
  "prev_key E iv recs j = (if j mod iv = 0 then [] else key_of E (recs ! (j - 1)))"

definition entry_bytes :: "reftable_env \<Rightarrow> nat \<Rightarrow> reftable_record list \<Rightarrow> nat \<Rightarrow> bytes" where
  "entry_bytes E iv recs j =
     key_bytes (prev_key E iv recs j) (key_of E (recs ! j)) (reftable_record_val_type E (recs ! j))
     @ record_body (recs ! j)"

definition entries_from :: "reftable_env \<Rightarrow> nat \<Rightarrow> reftable_record list \<Rightarrow> nat \<Rightarrow> bytes" where
  "entries_from E iv recs j = concat (map (entry_bytes E iv recs) [j..<length recs])"

definition entry_off :: "reftable_env \<Rightarrow> nat \<Rightarrow> reftable_record list \<Rightarrow> nat \<Rightarrow> nat" where
  "entry_off E iv recs j = length (concat (map (entry_bytes E iv recs) [0..<j]))"

definition restart_at :: "reftable_env \<Rightarrow> nat \<Rightarrow> reftable_record list \<Rightarrow> nat \<Rightarrow> bool" where
  "restart_at E iv recs j \<longleftrightarrow> common_prefix_size (prev_key E iv recs j) (key_of E (recs ! j)) = 0"

definition restart_indices :: "reftable_env \<Rightarrow> nat \<Rightarrow> reftable_record list \<Rightarrow> nat list" where
  "restart_indices E iv recs = take (MAX_RESTARTS E) (filter (restart_at E iv recs) [0..<length recs])"

text \<open>Records of one block: well-formed, of the same type, with a key.\<close>

definition block_records :: "reftable_env \<Rightarrow> nat \<Rightarrow> byte \<Rightarrow> reftable_record list \<Rightarrow> bool" where
  "block_records E hsz typ recs \<longleftrightarrow>
     (\<forall>rec \<in> set recs. record_ok E hsz rec \<and> reftable_record_type rec = typ \<and> key_of E rec \<noteq> [])"

lemma prev_key_append: "j < length recs \<Longrightarrow> prev_key E iv (recs @ rest) j = prev_key E iv recs j"
  by (simp add: prev_key_def nth_append)

lemma entry_bytes_append: "j < length recs \<Longrightarrow> entry_bytes E iv (recs @ rest) j = entry_bytes E iv recs j"
  by (simp add: entry_bytes_def prev_key_append nth_append)

lemma map_entry_bytes_append:
  "j \<le> length recs \<Longrightarrow> map (entry_bytes E iv (recs @ rest)) [0..<j] = map (entry_bytes E iv recs) [0..<j]"
  by (auto simp: entry_bytes_append)

lemma entry_off_append: "j \<le> length recs \<Longrightarrow> entry_off E iv (recs @ rest) j = entry_off E iv recs j"
  by (simp only: entry_off_def map_entry_bytes_append)

lemma entries_from_0_append:
  "entries_from E iv (recs @ [rec]) 0 = entries_from E iv recs 0 @ entry_bytes E iv (recs @ [rec]) (length recs)"
  using map_entry_bytes_append [of "length recs" recs E iv "[rec]"]
  by (simp add: entries_from_def del: map_eq_conv)

lemma entries_from_step:
  "j < length recs \<Longrightarrow> entries_from E iv recs j = entry_bytes E iv recs j @ entries_from E iv recs (Suc j)"
  by (simp add: entries_from_def upt_conv_Cons)

lemma entries_from_end [simp]: "length recs \<le> j \<Longrightarrow> entries_from E iv recs j = []"
  by (simp add: entries_from_def)

lemma entries_from_split:
  "j \<le> length recs \<Longrightarrow> entries_from E iv recs 0 = concat (map (entry_bytes E iv recs) [0..<j]) @ entries_from E iv recs j"
  using upt_add_eq_append [of 0 j "length recs - j"] by (simp add: entries_from_def)

lemma entry_off_total: "entry_off E iv recs (length recs) = length (entries_from E iv recs 0)"
  by (simp add: entry_off_def entries_from_def)

lemma entry_bytes_nonempty: "0 < length (entry_bytes E iv recs j)"
  using length_key_bytes_pos by (simp add: entry_bytes_def)

lemma restart_at_append: "j < length recs \<Longrightarrow> restart_at E iv (recs @ rest) j = restart_at E iv recs j"
  by (simp add: restart_at_def prev_key_append nth_append)

lemma restart_indices_append:
  "restart_indices E iv (recs @ [rec]) =
     (if length (restart_indices E iv recs) < MAX_RESTARTS E \<and> restart_at E iv (recs @ [rec]) (length recs)
      then restart_indices E iv recs @ [length recs] else restart_indices E iv recs)"
proof -
  have "filter (restart_at E iv (recs @ [rec])) [0..<length recs] = filter (restart_at E iv recs) [0..<length recs]"
    by (rule filter_cong) (auto simp: restart_at_append)
  then show ?thesis by (auto simp: restart_indices_def)
qed

section \<open>The writer produces the layout\<close>

lemma u32_sub_eq [simp]: "b \<le> a \<Longrightarrow> a < 2 ^ 32 \<Longrightarrow> u32_sub a b = a - b"
  by (simp add: u32_sub_def of_nat_diff [symmetric] nat_mod_distrib)

lemma write_at_inside:
  "off + length bs \<le> length mem \<Longrightarrow> write_at off bs mem = Ok (take off mem @ bs @ drop (off + length bs) mem)"
  by (simp add: write_at_def)

definition bw_inv :: "reftable_env \<Rightarrow> nat \<Rightarrow> byte \<Rightarrow> reftable_record list \<Rightarrow> block_writer \<Rightarrow> bool" where
  "bw_inv E iv typ recs w \<longleftrightarrow>
     block_records E (bw_hash_size w) typ recs
     \<and> bw_restart_interval w = iv \<and> bw_entries w = length recs
     \<and> length (bw_block w) = bw_block_size w \<and> bw_block_size w < 2 ^ 24
     \<and> bw_next w = bw_header_off w + 4 + length (entries_from E iv recs 0)
     \<and> bw_next w \<le> bw_block_size w
     \<and> (recs \<noteq> [] \<longrightarrow> bw_next w + 2 + 3 * length (bw_restarts w) \<le> bw_block_size w)
     \<and> bw_block w ! bw_header_off w = typ
     \<and> take (length (entries_from E iv recs 0)) (drop (bw_header_off w + 4) (bw_block w)) = entries_from E iv recs 0
     \<and> bw_restarts w = map (\<lambda>j. bw_header_off w + 4 + entry_off E iv recs j) (restart_indices E iv recs)
     \<and> (recs \<noteq> [] \<longrightarrow> bw_last_key w = key_of E (last recs))"

lemma bw_inv_init:
  assumes "header_off + 4 \<le> length block" "length block < 2 ^ 24"
  shows "\<exists>w. block_writer_init typ block (length block) header_off hsz = Ok w
    \<and> bw_inv E iv typ [] (w\<lparr>bw_restart_interval := iv\<rparr>)
    \<and> bw_hash_size w = hsz \<and> bw_header_off w = header_off \<and> bw_block_size w = length block
    \<and> take header_off (bw_block w) = take header_off block"
  using assms
  by (simp add: block_writer_init_def write_at_inside bw_inv_def block_records_def restart_indices_def
      nth_append)

lemma bw_prev_key:
  assumes "bw_inv E iv typ recs w"
  shows "(if bw_entries w mod bw_restart_interval w = 0 then [] else bw_last_key w) =
    prev_key E iv (recs @ [rec]) (length recs)"
proof (cases "recs = []")
  case False
  then show ?thesis
    using assms by (simp add: bw_inv_def prev_key_def nth_append last_conv_nth)
qed (use assms in \<open>simp add: bw_inv_def prev_key_def\<close>)

text \<open>The state after a record has been added, when it fits.\<close>

definition bw_added :: "reftable_env \<Rightarrow> nat \<Rightarrow> reftable_record list \<Rightarrow> reftable_record \<Rightarrow> block_writer \<Rightarrow> block_writer" where
  "bw_added E iv recs rec w =
     (let bs = entry_bytes E iv (recs @ [rec]) (length recs) in
      w\<lparr>bw_block := take (bw_next w) (bw_block w) @ bs @ drop (bw_next w + length bs) (bw_block w),
        bw_restarts := map (\<lambda>j. bw_header_off w + 4 + entry_off E iv (recs @ [rec]) j)
                         (restart_indices E iv (recs @ [rec])),
        bw_next := bw_next w + length bs, bw_last_key := key_of E rec, bw_entries := bw_entries w + 1\<rparr>)"

definition bw_fits :: "reftable_env \<Rightarrow> nat \<Rightarrow> reftable_record list \<Rightarrow> reftable_record \<Rightarrow> block_writer \<Rightarrow> bool" where
  "bw_fits E iv recs rec w \<longleftrightarrow>
     bw_next w + length (entry_bytes E iv (recs @ [rec]) (length recs)) + 2
       + 3 * length (restart_indices E iv (recs @ [rec])) \<le> bw_block_size w"

lemma restart_offsets_append:
  "map (\<lambda>j. h + entry_off E iv (recs @ [rec]) j) (restart_indices E iv (recs @ [rec])) =
     map (\<lambda>j. h + entry_off E iv recs j) (restart_indices E iv recs)
     @ (if length (restart_indices E iv recs) < MAX_RESTARTS E \<and> restart_at E iv (recs @ [rec]) (length recs)
        then [h + length (entries_from E iv recs 0)] else [])"
proof -
  have "j \<in> set (restart_indices E iv recs) \<Longrightarrow> j \<le> length recs" for j
    unfolding restart_indices_def by (fastforce dest: in_set_takeD)
  then show ?thesis
    by (simp add: restart_indices_append entry_off_append entry_off_total)
qed

lemma block_writer_add_eq:
  assumes inv: "bw_inv E iv typ recs w" and ok: "record_ok E (bw_hash_size w) rec" "key_of E rec \<noteq> []"
  shows "block_writer_add E w rec =
    (if bw_fits E iv recs rec w then Ok (bw_added E iv recs rec w) else Err GENERAL_ERROR)"
proof -
  let ?j = "length recs" and ?recs = "recs @ [rec]"
  define k where "k = key_of E rec"
  define t where "t = reftable_record_val_type E rec"
  define kbs where "kbs = key_bytes (prev_key E iv ?recs ?j) k t"
  define vbs where "vbs = record_body rec"
  define room where "room = bw_block_size w - bw_next w"
  have room: "u32_sub (bw_block_size w) (bw_next w) = room" "bw_next w + room = bw_block_size w"
    "length (bw_block w) = bw_block_size w"
    using inv by (simp_all add: bw_inv_def room_def)
  have bs: "entry_bytes E iv ?recs ?j = kbs @ vbs"
    by (simp add: entry_bytes_def kbs_def vbs_def k_def t_def)
  have key: "reftable_record_key E rec = Ok k" "k \<noteq> []"
    using key_of_eq [OF ok(1)] ok(2) by (simp_all add: k_def)
  have enc: "reftable_record_encode rec n (bw_hash_size w) =
      (if n < length vbs then Err GENERAL_ERROR else Ok vbs)" for n
    using any_codec.encode_eq [of E "bw_hash_size w" rec rec n] ok(1) by (simp add: vbs_def)
  define b where "b = (length (restart_indices E iv recs) < MAX_RESTARTS E \<and> restart_at E iv ?recs ?j)"
  have rlen: "length (bw_restarts w) = length (restart_indices E iv recs)"
    using inv by (simp add: bw_inv_def)
  have added: "map (\<lambda>j. bw_header_off w + 4 + entry_off E iv ?recs j) (restart_indices E iv ?recs) =
      bw_restarts w @ (if b then [bw_next w] else [])"
    using inv unfolding restart_offsets_append b_def by (simp add: bw_inv_def)
  have nlen: "length (restart_indices E iv ?recs) = length (restart_indices E iv recs) + of_bool b"
    by (simp add: restart_indices_append b_def)
  have reg: "block_writer_register_restart E (w\<lparr>bw_block := block\<rparr>) n (restart_at E iv ?recs ?j) k =
      (if 2 + 3 * (length (restart_indices E iv recs) + of_bool b) + n > room then Err GENERAL_ERROR
       else Ok (w\<lparr>bw_block := block, bw_restarts := bw_restarts w @ (if b then [bw_next w] else []),
                 bw_next := bw_next w + n, bw_last_key := k, bw_entries := bw_entries w + 1\<rparr>))" for block n
    unfolding block_writer_register_restart_def Let_def b_def by (simp add: rlen room(1))
  have restart: "common_prefix_size (prev_key E iv ?recs ?j) k = 0 \<longleftrightarrow> restart_at E iv ?recs ?j"
    by (simp add: restart_at_def k_def)
  have add: "block_writer_add E w rec =
      (if room < length kbs \<or> room - length kbs < length vbs then Err GENERAL_ERROR
       else res_bind (write_at (bw_next w) (kbs @ vbs) (bw_block w)) (\<lambda>block.
         block_writer_register_restart E (w\<lparr>bw_block := block\<rparr>) (length kbs + length vbs) (restart_at E iv ?recs ?j) k))"
    unfolding block_writer_add_def Let_def bw_prev_key [OF inv, of rec] room(1) key(1) t_def [symmetric]
      reftable_encode_key_eq enc
    using key(2) by (simp add: kbs_def [symmetric] restart)
  show ?thesis
    unfolding add reg bw_fits_def bw_added_def bs added nlen Let_def k_def [symmetric]
    using room(2,3) by (auto simp: write_at_inside)
qed

lemma bw_added_inv:
  assumes inv: "bw_inv E iv typ recs w" and fits: "bw_fits E iv recs rec w"
    and ok: "record_ok E (bw_hash_size w) rec" "key_of E rec \<noteq> []" "reftable_record_type rec = typ"
  shows "bw_inv E iv typ (recs @ [rec]) (bw_added E iv recs rec w)"
proof -
  define bs where "bs = entry_bytes E iv (recs @ [rec]) (length recs)"
  define old where "old = entries_from E iv recs 0"
  have ents: "entries_from E iv (recs @ [rec]) 0 = old @ bs"
    by (simp add: entries_from_0_append bs_def old_def)
  have old: "take (length old) (drop (bw_header_off w + 4) (bw_block w)) = old"
    and n: "bw_next w = bw_header_off w + 4 + length old"
    and len: "length (bw_block w) = bw_block_size w" and ty: "bw_block w ! bw_header_off w = typ"
    using inv by (simp_all add: bw_inv_def old_def)
  have room: "bw_next w + length bs + 2 + 3 * length (restart_indices E iv (recs @ [rec])) \<le> bw_block_size w"
    using fits by (simp add: bw_fits_def bs_def)
  let ?block = "take (bw_next w) (bw_block w) @ bs @ drop (bw_next w + length bs) (bw_block w)"
  have "take (bw_next w) (bw_block w) = take (bw_header_off w + 4) (bw_block w) @ old"
    unfolding n by (subst take_add) (simp add: old)
  then have block: "?block = take (bw_header_off w + 4) (bw_block w) @ (old @ bs)
      @ drop (bw_next w + length bs) (bw_block w)" by simp
  have l: "length (take (bw_header_off w + 4) (bw_block w)) = bw_header_off w + 4"
    using n len room by simp
  have "take (length (old @ bs)) (drop (bw_header_off w + 4) ?block) = old @ bs"
    unfolding block using l by simp
  moreover have "?block ! bw_header_off w = typ"
    using ty n len room by (simp add: nth_append)
  moreover have "length ?block = bw_block_size w" using len room by simp
  ultimately show ?thesis
    using inv ok room n
    unfolding bw_inv_def ents
    by (simp add: bw_added_def Let_def bs_def [symmetric] old_def [symmetric] block_records_def)
qed

section \<open>The image of a finished block\<close>

definition restarts_bytes :: "nat list \<Rightarrow> bytes" where
  "restarts_bytes rs = concat (map (\<lambda>r. put_be24 (word_of_nat r)) rs)"

lemma length_restarts_bytes [simp]: "length (restarts_bytes rs) = 3 * length rs"
  by (induction rs) (simp_all add: restarts_bytes_def)

lemma restarts_bytes_simps [simp]:
  "restarts_bytes [] = []" "restarts_bytes (r # rs) = put_be24 (word_of_nat r) @ restarts_bytes rs"
  by (simp_all add: restarts_bytes_def)

definition restart_offsets :: "reftable_env \<Rightarrow> nat \<Rightarrow> reftable_record list \<Rightarrow> nat \<Rightarrow> nat list" where
  "restart_offsets E iv recs header_off =
     map (\<lambda>j. header_off + 4 + entry_off E iv recs j) (restart_indices E iv recs)"

definition block_content :: "reftable_env \<Rightarrow> nat \<Rightarrow> reftable_record list \<Rightarrow> nat \<Rightarrow> bytes" where
  "block_content E iv recs header_off =
     entries_from E iv recs 0 @ restarts_bytes (restart_offsets E iv recs header_off)
     @ put_be16 (word_of_nat (length (restart_indices E iv recs)))"

definition block_len :: "reftable_env \<Rightarrow> nat \<Rightarrow> reftable_record list \<Rightarrow> nat \<Rightarrow> nat" where
  "block_len E iv recs header_off = header_off + 4 + length (block_content E iv recs header_off)"

definition block_head :: "reftable_env \<Rightarrow> nat \<Rightarrow> byte \<Rightarrow> reftable_record list \<Rightarrow> nat \<Rightarrow> bytes" where
  "block_head E iv typ recs header_off = typ # put_be24 (word_of_nat (block_len E iv recs header_off))"

lemma length_block_head [simp]: "length (block_head E iv typ recs header_off) = 4"
  by (simp add: block_head_def)

lemma write_at_append:
  "length a = off \<Longrightarrow> length bs = length b \<Longrightarrow> write_at off bs (a @ b @ c) = Ok (a @ bs @ c)"
  by (simp add: write_at_inside)

lemma write_restarts_append:
  "bw_block w = a @ b @ c \<Longrightarrow> length a = bw_next w \<Longrightarrow> length b = 3 * length rs \<Longrightarrow>
   write_restarts rs w = Ok (w\<lparr>bw_block := a @ restarts_bytes rs @ c, bw_next := bw_next w + 3 * length rs\<rparr>)"
proof (induction rs arbitrary: w a b)
  case (Cons r rs)
  define b1 b2 where "b1 = take 3 b" and "b2 = drop 3 b"
  have b: "b = b1 @ b2" "length b1 = 3" "length b2 = 3 * length rs"
    using Cons.prems(3) by (simp_all add: b1_def b2_def)
  have "write_at (bw_next w) (put_be24 (word_of_nat r)) (bw_block w) =
      Ok (a @ put_be24 (word_of_nat r) @ b2 @ c)"
    using write_at_append [OF Cons.prems(2), of "put_be24 (word_of_nat r)" b1 "b2 @ c"] Cons.prems(1) b
    by simp
  then show ?case
    using Cons.IH [of "w\<lparr>bw_block := a @ put_be24 (word_of_nat r) @ b2 @ c, bw_next := bw_next w + 3\<rparr>"
        "a @ put_be24 (word_of_nat r)" b2] Cons.prems b
    by simp
qed auto

lemma split_segments:
  assumes "n1 + n2 + n3 \<le> length xs"
  obtains a b c where "xs = take n1 xs @ a @ b @ c" "length a = n2" "length b = n3"
    "c = drop (n1 + n2 + n3) xs"
proof
  show "xs = take n1 xs @ take n2 (drop n1 xs) @ take n3 (drop (n1 + n2) xs) @ drop (n1 + n2 + n3) xs"
    by (metis add.commute append_take_drop_id drop_drop)
qed (use assms in auto)

lemma bw_block_parts:
  assumes inv: "bw_inv E iv typ recs w" and "recs \<noteq> []"
  obtains x y z suf where
    "bw_block w = (take (bw_header_off w) (bw_block w) @ [typ]) @ x @ entries_from E iv recs 0 @ y @ z @ suf"
    "length x = 3" "length y = 3 * length (bw_restarts w)" "length z = 2"
    "suf = drop (block_len E iv recs (bw_header_off w)) (bw_block w)"
    "length (take (bw_header_off w) (bw_block w)) = bw_header_off w"
proof -
  let ?H = "bw_header_off w" and ?b = "bw_block w" and ?e = "entries_from E iv recs 0"
  let ?r = "length (bw_restarts w)"
  have ent: "take (length ?e) (drop (?H + 4) ?b) = ?e" and ty: "?b ! ?H = typ"
    and n: "bw_next w = ?H + 4 + length ?e" and r: "?r = length (restart_indices E iv recs)"
    using inv by (simp_all add: bw_inv_def)
  have room: "bw_next w + 2 + 3 * ?r \<le> length ?b"
    using inv assms(2) unfolding bw_inv_def by (elim conjE) simp
  have "block_len E iv recs ?H = bw_next w + 3 * ?r + 2"
    by (simp add: block_len_def block_content_def restart_offsets_def n r)
  moreover obtain y z suf where tail: "?b = take (bw_next w) ?b @ y @ z @ suf" "length y = 3 * ?r" "length z = 2"
    "suf = drop (bw_next w + 3 * ?r + 2) ?b"
    using split_segments [of "bw_next w" "3 * ?r" 2 ?b] room by auto
  moreover have "take (bw_next w) ?b = take (?H + 4) ?b @ ?e"
    unfolding n by (subst take_add) (simp add: ent)
  moreover have "take (?H + 4) ?b = (take ?H ?b @ [typ]) @ take 3 (drop (?H + 1) ?b)"
  proof -
    have "take (?H + 1) ?b = take ?H ?b @ [typ]"
      using ty room n by (simp add: take_Suc_conv_app_nth)
    then show ?thesis using take_add [of "?H + 1" 3 ?b] by (simp add: add.commute)
  qed
  ultimately show thesis
    using that [of "take 3 (drop (?H + 1) ?b)" y z suf] room n by simp
qed

text \<open>The block with its restart points and its size, before log data is compressed.\<close>

definition raw_block :: "reftable_env \<Rightarrow> nat \<Rightarrow> byte \<Rightarrow> reftable_record list \<Rightarrow> block_writer \<Rightarrow> bytes" where
  "raw_block E iv typ recs w =
     (take (bw_header_off w) (bw_block w) @ block_head E iv typ recs (bw_header_off w))
     @ block_content E iv recs (bw_header_off w) @ drop (block_len E iv recs (bw_header_off w)) (bw_block w)"

lemma block_writer_finish_eq:
  assumes inv: "bw_inv E iv typ recs w" and ne: "recs \<noteq> []"
  defines "H \<equiv> bw_header_off w"
  shows "\<exists>w'. block_writer_finish E w =
    (if typ = BLOCK_TYPE_LOG
     then res_bind (write_at (4 + H) (deflate E (block_content E iv recs H)) (raw_block E iv typ recs w)) (\<lambda>block.
            Ok (w'\<lparr>bw_block := block, bw_next := length (deflate E (block_content E iv recs H)) + (4 + H)\<rparr>,
                length (deflate E (block_content E iv recs H)) + (4 + H)))
     else Ok (w', block_len E iv recs H)) \<and> bw_block w' = raw_block E iv typ recs w"
proof -
  obtain x y z suf where parts:
    "bw_block w = (take H (bw_block w) @ [typ]) @ x @ entries_from E iv recs 0 @ y @ z @ suf"
    "length x = 3" "length y = 3 * length (bw_restarts w)" "length z = 2"
    "suf = drop (block_len E iv recs H) (bw_block w)" "length (take H (bw_block w)) = H"
    unfolding H_def by (rule bw_block_parts [OF inv ne])
  define pre where "pre = take H (bw_block w)"
  define ents where "ents = entries_from E iv recs 0"
  have rs: "bw_restarts w = restart_offsets E iv recs H" and n: "bw_next w = H + 4 + length ents"
    using inv by (simp_all add: bw_inv_def restart_offsets_def H_def ents_def)
  have len: "length (restart_offsets E iv recs H) = length (restart_indices E iv recs)"
    by (simp add: restart_offsets_def)
  have block: "bw_block w = (pre @ [typ] @ x @ ents) @ y @ z @ suf"
    using parts(1) by (simp add: pre_def ents_def)
  have pre: "length pre = H" using parts(6) by (simp add: pre_def)
  let ?rb = "restarts_bytes (restart_offsets E iv recs H)" and ?cnt = "put_be16 (word_of_nat (length (restart_indices E iv recs)))"
  let ?r = "length (restart_offsets E iv recs H)"
  have s1: "write_restarts (bw_restarts w) w =
      Ok (w\<lparr>bw_block := (pre @ [typ] @ x @ ents) @ ?rb @ z @ suf, bw_next := bw_next w + 3 * ?r\<rparr>)"
    using write_restarts_append [OF block, of "bw_restarts w"] parts pre n rs by simp
  have s2: "write_at (bw_next w + 3 * ?r) ?cnt ((pre @ [typ] @ x @ ents) @ ?rb @ z @ suf) =
      Ok ((pre @ [typ] @ x @ ents @ ?rb) @ ?cnt @ suf)"
    using write_at_append [of "pre @ [typ] @ x @ ents @ ?rb" "bw_next w + 3 * ?r" ?cnt z suf] parts pre n by simp
  have bl: "block_len E iv recs H = bw_next w + 3 * ?r + 2"
    by (simp add: block_len_def block_content_def n ents_def len)
  have s3: "write_at (1 + H) (put_be24 (word_of_nat (block_len E iv recs H)))
      ((pre @ [typ] @ x @ ents @ ?rb) @ ?cnt @ suf) = Ok (raw_block E iv typ recs w)"
    using write_at_append [of "pre @ [typ]" "1 + H" "put_be24 (word_of_nat (block_len E iv recs H))" x
        "ents @ ?rb @ ?cnt @ suf"] parts pre
    by (simp add: raw_block_def block_head_def block_content_def pre_def ents_def H_def)
  have raw: "raw_block E iv typ recs w = (pre @ block_head E iv typ recs H) @ block_content E iv recs H @ suf"
    by (simp add: raw_block_def pre_def parts(5) H_def)
  have t: "read_at H 1 (raw_block E iv typ recs w) = Ok [typ]"
    by (simp add: raw read_at_def block_head_def pre)
  have c: "read_at (4 + H) (block_len E iv recs H - (4 + H)) (raw_block E iv typ recs w) = Ok (block_content E iv recs H)"
    by (simp add: raw read_at_def pre block_len_def)
  show ?thesis
    using s1 s2 s3 t c bl rs len
    by (intro exI [of _ "w\<lparr>bw_block := raw_block E iv typ recs w, bw_next := block_len E iv recs H\<rparr>"])
      (cases "typ = BLOCK_TYPE_LOG"; simp add: block_writer_finish_def Let_def H_def block_writer_type_def)
qed

section \<open>The reader reads the image\<close>

text \<open>What a reader on the uncompressed image of a block looks like.\<close>

definition br_reads :: "reftable_env \<Rightarrow> nat \<Rightarrow> nat \<Rightarrow> byte \<Rightarrow> reftable_record list \<Rightarrow> block_reader \<Rightarrow> bool" where
  "br_reads E iv hsz typ recs br \<longleftrightarrow>
     (let H = br_header_off br in
      br_hash_size br = hsz \<and> block_len E iv recs H < 2 ^ 24 \<and> length (restart_indices E iv recs) < 2 ^ 16
      \<and> br_block_len br = H + 4 + length (entries_from E iv recs 0)
      \<and> br_restart_start br = br_block_len br
      \<and> br_restart_count br = length (restart_indices E iv recs)
      \<and> (\<exists>pre suf. length pre = H \<and> br_data br = pre @ block_head E iv typ recs H @ block_content E iv recs H @ suf))"

lemma block_len_ge: "2 \<le> block_len E iv recs H"
  by (simp add: block_len_def)

lemma br_reads_init_data:
  fixes ty :: byte and suf :: bytes
  assumes "length pre = H" "be16_ok E"
    and sz: "block_len E iv recs H < 2 ^ 24" and rc: "length (restart_indices E iv recs) < 2 ^ 16"
  defines "data \<equiv> pre @ block_head E iv ty recs H @ block_content E iv recs H @ suf"
  shows "read_at H 1 data = Ok [ty]"
    and "get_be24 (drop (H + 1) data) = Ok (word_of_nat (block_len E iv recs H))"
    and "unat (get_be16 E (drop (block_len E iv recs H - 2) data)) = length (restart_indices E iv recs)"
    and "block_len E iv recs H \<le> length data"
proof -
  show "read_at H 1 data = Ok [ty]"
    by (simp add: data_def read_at_def block_head_def assms(1))
  show "get_be24 (drop (H + 1) data) = Ok (word_of_nat (block_len E iv recs H))"
    using get_put_be24_nat(1) [OF sz] assms(1) by (simp add: data_def block_head_def)
  let ?cnt = "put_be16 (word_of_nat (length (restart_indices E iv recs)))"
  have "drop (block_len E iv recs H - 2) data = ?cnt @ suf"
    using assms(1) by (simp add: data_def block_len_def block_content_def)
  then show "unat (get_be16 E (drop (block_len E iv recs H - 2) data)) = length (restart_indices E iv recs)"
    using get_put_be16 [OF assms(2)] rc by (simp add: unat_of_nat)
  show "block_len E iv recs H \<le> length data"
    using assms(1) by (simp add: block_len_def data_def)
qed

lemma restart_start_eq:
  assumes "block_len E iv recs H < 2 ^ 24"
  shows "u32_sub (block_len E iv recs H - 2) (3 * length (restart_indices E iv recs)) =
    H + 4 + length (entries_from E iv recs 0)"
proof -
  have "block_len E iv recs H = H + 4 + length (entries_from E iv recs 0) + 3 * length (restart_indices E iv recs) + 2"
    by (simp add: block_len_def block_content_def restart_offsets_def)
  then show ?thesis using assms by simp
qed

definition image_reader :: "reftable_env \<Rightarrow> nat \<Rightarrow> nat \<Rightarrow> reftable_record list \<Rightarrow> nat \<Rightarrow> nat \<Rightarrow> bytes \<Rightarrow> block_reader" where
  "image_reader E iv hsz recs H full data =
     \<lparr>br_data = data, br_hash_size = hsz, br_block_len = H + 4 + length (entries_from E iv recs 0),
      br_full_block_size = full, br_header_off = H, br_restart_count = length (restart_indices E iv recs),
      br_restart_start = H + 4 + length (entries_from E iv recs 0)\<rparr>"

lemma image_reader_reads:
  "length pre = H \<Longrightarrow> block_len E iv recs H < 2 ^ 24 \<Longrightarrow> length (restart_indices E iv recs) < 2 ^ 16 \<Longrightarrow>
   br_reads E iv hsz typ recs (image_reader E iv hsz recs H full (pre @ block_head E iv typ recs H @ block_content E iv recs H @ suf))"
  by (auto simp: br_reads_def image_reader_def Let_def)

lemma block_reader_init_full:
  fixes suf :: bytes and tbs :: nat
  assumes "typ \<noteq> BLOCK_TYPE_LOG" "reftable_is_block_type typ" "length pre = H" "be16_ok E"
    and "block_len E iv recs H < 2 ^ 24" "length (restart_indices E iv recs) < 2 ^ 16"
  defines "data \<equiv> pre @ block_head E iv typ recs H @ block_content E iv recs H @ suf"
  defines "full \<equiv> if tbs = 0 \<or> block_len E iv recs H < tbs \<and> suf \<noteq> [] \<and> hd suf \<noteq> 0 then block_len E iv recs H else tbs"
  shows "block_reader_init E data H tbs hsz = Ok (image_reader E iv hsz recs H full data)"
proof -
  note d = br_reads_init_data [where ty = "typ" and suf = suf, OF assms(3-6), folded data_def]
  have "block_len E iv recs H < length data \<longleftrightarrow> suf \<noteq> []" "suf \<noteq> [] \<Longrightarrow> data ! block_len E iv recs H = hd suf"
    using assms(3) by (auto simp: data_def block_len_def nth_append hd_conv_nth)
  then show ?thesis
    using assms(1,2) d(4) block_len_ge [of E iv recs H]
    unfolding block_reader_init_def d(1,2) Let_def image_reader_def full_def
    by (simp add: d(3) restart_start_eq [OF assms(5)] get_put_be24_nat(2) [OF assms(5)])
qed

lemma block_reader_init_log:
  assumes "length pre = H" "be16_ok E" "zlib_ok E"
    and "block_len E iv recs H < 2 ^ 24" "length (restart_indices E iv recs) < 2 ^ 16"
  defines "raw \<equiv> pre @ block_head E iv BLOCK_TYPE_LOG recs H @ block_content E iv recs H"
    and "compressed \<equiv> deflate E (block_content E iv recs H)"
  shows "block_reader_init E (pre @ block_head E iv BLOCK_TYPE_LOG recs H @ compressed @ suf) H tbs hsz =
    Ok (image_reader E iv hsz recs H (H + 4 + length compressed) raw)"
proof -
  define data where "data = pre @ block_head E iv BLOCK_TYPE_LOG recs H @ compressed @ suf"
  note d = br_reads_init_data [where ty = BLOCK_TYPE_LOG and suf = "[]", OF assms(1,2,4,5),
      unfolded append_Nil2, folded raw_def]
  have t: "read_at H 1 data = Ok [BLOCK_TYPE_LOG]"
    "get_be24 (drop (H + 1) data) = Ok (word_of_nat (block_len E iv recs H))"
    using get_put_be24_nat(1) [OF assms(4)] assms(1) by (simp_all add: data_def read_at_def block_head_def)
  have "inflate E (compressed @ suf) (length (block_content E iv recs H)) =
      Some (block_content E iv recs H, length compressed)"
    using assms(3) by (simp add: zlib_ok_def compressed_def)
  then have i: "block_inflate E data H (block_len E iv recs H) = Ok (raw, H + 4 + length compressed)"
    using assms(1) by (simp add: data_def raw_def block_inflate_def block_len_def Let_def)
  have ty: "reftable_is_block_type BLOCK_TYPE_LOG" by (simp add: reftable_is_block_type_def)
  show ?thesis
    using ty d(4) block_len_ge [of E iv recs H]
    unfolding data_def [symmetric] block_reader_init_def t Let_def image_reader_def
    by (simp add: i d(3) restart_start_eq [OF assms(4)] get_put_be24_nat(2) [OF assms(4)])
qed

section \<open>Iterating over the image\<close>

text \<open>
  The iterator stands before entry \<open>j\<close>. Its last key must agree with the key of that entry on the
  prefix which the entry does not store.
\<close>

definition last_key_ok :: "reftable_env \<Rightarrow> nat \<Rightarrow> reftable_record list \<Rightarrow> nat \<Rightarrow> bytes \<Rightarrow> bool" where
  "last_key_ok E iv recs j last_key \<longleftrightarrow>
     (j < length recs \<longrightarrow>
       (let p = common_prefix_size (prev_key E iv recs j) (key_of E (recs ! j)) in
        p \<le> length last_key \<and> take p last_key = take p (key_of E (recs ! j))))"

definition bi_at :: "reftable_env \<Rightarrow> nat \<Rightarrow> reftable_record list \<Rightarrow> nat \<Rightarrow> block_iter \<Rightarrow> bool" where
  "bi_at E iv recs j it \<longleftrightarrow> j \<le> length recs \<and> last_key_ok E iv recs j (bi_last_key it) \<and>
     (\<exists>pre suf. bi_block it = pre @ entries_from E iv recs 0 @ suf
        \<and> bi_next_off it = length pre + entry_off E iv recs j
        \<and> bi_block_len it = length pre + length (entries_from E iv recs 0))"

lemma last_key_ok_self: "last_key_ok E iv recs j (key_of E (recs ! j))"
  using common_prefix_size_bounds by (auto simp: last_key_ok_def Let_def)

lemma last_key_ok_prev: "last_key_ok E iv recs (Suc j) (key_of E (recs ! j))"
  using common_prefix_size_bounds take_common_prefix_size
  by (auto simp: last_key_ok_def prev_key_def Let_def)

lemma last_key_ok_restart: "restart_at E iv recs j \<Longrightarrow> last_key_ok E iv recs j k"
  by (simp add: last_key_ok_def restart_at_def)

lemma entry_off_Suc: "entry_off E iv recs (Suc j) = entry_off E iv recs j + length (entry_bytes E iv recs j)"
  by (simp add: entry_off_def)

lemma entry_off_entries:
  "j \<le> length recs \<Longrightarrow> entry_off E iv recs j + length (entries_from E iv recs j) = length (entries_from E iv recs 0)"
  using entries_from_split [of j recs E iv] by (simp add: entry_off_def)

lemma view_entries:
  assumes "j \<le> length recs"
  shows "view (pre @ entries_from E iv recs 0 @ suf) (length pre + entry_off E iv recs j)
    (length pre + length (entries_from E iv recs 0)) = Ok (entries_from E iv recs j)"
proof -
  have "drop (entry_off E iv recs j) (entries_from E iv recs 0) = entries_from E iv recs j"
    using entries_from_split [OF assms, of E iv] by (simp add: entry_off_def)
  then show ?thesis
    using entry_off_entries [OF assms, of E iv] by (simp add: view_def)
qed

lemma block_iter_next_end: "bi_at E iv recs (length recs) it \<Longrightarrow> block_iter_next E it rec = Ok None"
  by (auto simp: bi_at_def block_iter_next_def entry_off_total)

lemma block_iter_next_entry:
  assumes at: "bi_at E iv recs j it" and j: "j < length recs"
    and recs: "block_records E (bi_hash_size it) (reftable_record_type rec) recs"
  shows "\<exists>it'. block_iter_next E it rec = Ok (Some (it', record_norm (recs ! j)))
    \<and> bi_at E iv recs (Suc j) it' \<and> bi_at E iv recs j (it'\<lparr>bi_next_off := bi_next_off it\<rparr>)
    \<and> bi_last_key it' = key_of E (recs ! j) \<and> bi_hash_size it' = bi_hash_size it"
proof -
  define r k where "r = recs ! j" and "k = key_of E r"
  define kbs where "kbs = key_bytes (prev_key E iv recs j) k (reftable_record_val_type E r)"
  define rest where "rest = entries_from E iv recs (Suc j)"
  from recs j have ok: "record_ok E (bi_hash_size it) r \<and> reftable_record_type r = reftable_record_type rec"
    and ne: "k \<noteq> []"
    by (auto simp: block_records_def r_def k_def)
  note key = key_of_eq [OF conjunct1 [OF ok], folded k_def]
  from at obtain pre suf where b: "bi_block it = pre @ entries_from E iv recs 0 @ suf"
    "bi_next_off it = length pre + entry_off E iv recs j"
    "bi_block_len it = length pre + length (entries_from E iv recs 0)"
    by (auto simp: bi_at_def)
  have bytes: "entries_from E iv recs j = kbs @ record_body r @ rest"
    by (simp add: entries_from_step j entry_bytes_def kbs_def k_def r_def rest_def)
  have len: "length (entry_bytes E iv recs j) = length kbs + length (record_body r)"
    by (simp add: entry_bytes_def kbs_def k_def r_def)
  have more: "\<not> bi_next_off it \<ge> bi_block_len it"
    using entry_off_entries [of j recs E iv] entries_from_step [OF j, of E iv] entry_bytes_nonempty [of E iv recs j] b j
    by (simp del: length_greater_0_conv)
  have dk: "reftable_decode_key (bi_last_key it) (kbs @ record_body r @ rest) =
      Ok (k, reftable_record_val_type E r, length kbs)"
    unfolding kbs_def
    using at j by (intro reftable_decode_key_bytes any_codec.val_type_small [OF ok] key(2))
      (auto simp: bi_at_def last_key_ok_def Let_def k_def r_def)
  have v: "view (bi_block it) (bi_next_off it) (bi_block_len it) = Ok (kbs @ record_body r @ rest)"
    using view_entries [of j recs pre E iv suf] j b by (simp add: bytes)
  have "block_iter_next E it rec = Ok (Some (it\<lparr>bi_last_key := k,
      bi_next_off := bi_next_off it + length kbs + length (record_body r)\<rparr>, record_norm r))"
    using more v dk ne any_codec.decode_body [OF ok key(1), of rest]
    by (simp add: block_iter_next_def)
  then show ?thesis
    using b j last_key_ok_self [of E iv recs j] last_key_ok_prev [of E iv recs j]
    by (auto simp: bi_at_def entry_off_Suc len r_def k_def)
qed

text \<open>Reading to the end, as every client of the iterator does.\<close>

function block_iter_collect ::
  "reftable_env \<Rightarrow> block_iter \<Rightarrow> reftable_record \<Rightarrow> reftable_record list res" where
  "block_iter_collect E it rec =
     (case block_iter_next E it rec of
        Crash c \<Rightarrow> Crash c
      | Err e \<Rightarrow> Err e
      | Ok None \<Rightarrow> Ok []
      | Ok (Some (it', rec')) \<Rightarrow> res_bind (block_iter_collect E it' rec') (\<lambda>recs. Ok (rec' # recs)))"
  by pat_completeness auto
termination
  by (relation "measure (\<lambda>(E, it, rec). bi_block_len it - bi_next_off it)")
    (auto dest: block_iter_next_decreases)

declare block_iter_collect.simps [simp del]

lemma block_iter_collect_entries:
  assumes "bi_at E iv recs j it" "block_records E (bi_hash_size it) (reftable_record_type rec) recs"
  shows "block_iter_collect E it rec = Ok (map record_norm (drop j recs))"
  using assms
proof (induction "length recs - j" arbitrary: j it rec)
  case 0
  then have "j = length recs" by (simp add: bi_at_def)
  with 0 show ?case
    by (simp add: block_iter_collect.simps [of E it rec] block_iter_next_end)
next
  case (Suc n)
  then have j: "j < length recs" by simp
  from block_iter_next_entry [OF Suc.prems(1) j Suc.prems(2)] obtain it' where
    it': "block_iter_next E it rec = Ok (Some (it', record_norm (recs ! j)))"
    "bi_at E iv recs (Suc j) it'" "bi_hash_size it' = bi_hash_size it" by blast
  have "reftable_record_type (recs ! j) = reftable_record_type rec"
    using Suc.prems(2) j by (simp add: block_records_def)
  then have "block_iter_collect E it' (record_norm (recs ! j)) = Ok (map record_norm (drop (Suc j) recs))"
    using Suc.hyps(1) [of "Suc j" it' "record_norm (recs ! j)"] Suc.hyps(2) Suc.prems it' by simp
  then show ?case
    using it'(1) j by (simp add: block_iter_collect.simps [of E it rec] Cons_nth_drop_Suc [symmetric])
qed

section \<open>Seeking in the image\<close>

lemma block_iter_seek_loop_entries:
  assumes "bi_at E iv recs j it" "block_records E (bi_hash_size it) (reftable_record_type rec) recs"
  shows "\<exists>it'. block_iter_seek_loop E it rec want = Ok it' \<and> bi_hash_size it' = bi_hash_size it
    \<and> bi_at E iv recs (j + length (takeWhile (\<lambda>r. key_of E r < want) (drop j recs))) it'"
  using assms
proof (induction "length recs - j" arbitrary: j it rec)
  case 0
  then have "j = length recs" by (simp add: bi_at_def)
  with 0 show ?case
    by (simp add: block_iter_seek_loop.simps [of E it rec] block_iter_next_end)
next
  case (Suc n)
  then have j: "j < length recs" by simp
  let ?r = "recs ! j"
  from block_iter_next_entry [OF Suc.prems(1) j Suc.prems(2)] obtain it' where
    it': "block_iter_next E it rec = Ok (Some (it', record_norm ?r))"
    "bi_at E iv recs (Suc j) it'" "bi_at E iv recs j (it'\<lparr>bi_next_off := bi_next_off it\<rparr>)"
    "bi_hash_size it' = bi_hash_size it" "bi_last_key it' = key_of E ?r" by blast
  have r: "reftable_record_type ?r = reftable_record_type rec" "record_ok E (bi_hash_size it) ?r"
    using Suc.prems(2) j by (simp_all add: block_records_def)
  have same: "it'\<lparr>bi_last_key := key_of E ?r\<rparr> = it'" using it'(5) by (cases it') simp
  have drop: "drop j recs = ?r # drop (Suc j) recs" by (simp add: Cons_nth_drop_Suc j)
  show ?case
  proof (cases "key_of E ?r < want")
    case True
    then have "block_iter_seek_loop E it rec want = block_iter_seek_loop E it' (record_norm ?r) want"
      using it' key_of_eq(1) [OF r(2)] leD [of want "key_of E ?r"]
      by (auto simp: block_iter_seek_loop.simps [of E it rec] reftable_buf_cmp_sign same)
    moreover have "n = length recs - Suc j" using Suc.hyps(2) by simp
    ultimately show ?thesis
      using Suc.hyps(1) [of "Suc j" it' "record_norm ?r"] Suc.prems(2) it' r True
      by (simp add: drop)
  next
    case False
    then have "block_iter_seek_loop E it rec want = Ok (it'\<lparr>bi_next_off := bi_next_off it\<rparr>)"
      using it' key_of_eq(1) [OF r(2)]
      by (auto simp: block_iter_seek_loop.simps [of E it rec] reftable_buf_cmp_sign same not_less)
    with False it' show ?thesis by (simp add: drop)
  qed
qed

lemma drop_restarts_bytes:
  "i < length rs \<Longrightarrow> drop (3 * i) (restarts_bytes rs) = put_be24 (word_of_nat (rs ! i)) @ drop (3 * Suc i) (restarts_bytes rs)"
proof (induction rs arbitrary: i)
  case (Cons r rs)
  then show ?case by (cases i) simp_all
qed simp

lemma restart_indices_bounds:
  assumes "j \<in> set (restart_indices E iv recs)"
  shows "j < length recs" "restart_at E iv recs j"
proof -
  from assms have "j \<in> set (filter (restart_at E iv recs) [0..<length recs])"
    unfolding restart_indices_def by (rule in_set_takeD)
  then show "j < length recs" "restart_at E iv recs j" by simp_all
qed

lemma restart_indices_sorted: "sorted_wrt (<) (restart_indices E iv recs)"
  unfolding restart_indices_def by (intro sorted_wrt_take sorted_wrt_filter sorted_wrt_upt)

lemma restart_indices_first:
  assumes "recs \<noteq> []" "MAX_RESTARTS E > 0"
  shows "restart_indices E iv recs \<noteq> []" "restart_indices E iv recs ! 0 = 0"
proof -
  have "[0..<length recs] = 0 # [1..<length recs]"
    using assms(1) by (simp add: upt_conv_Cons)
  then have "filter (restart_at E iv recs) [0..<length recs] = 0 # filter (restart_at E iv recs) [1..<length recs]"
    by (simp add: restart_at_def prev_key_def)
  moreover obtain m where "MAX_RESTARTS E = Suc m" using assms(2) by (cases "MAX_RESTARTS E") auto
  ultimately show "restart_indices E iv recs \<noteq> []" "restart_indices E iv recs ! 0 = 0"
    by (simp_all add: restart_indices_def)
qed

lemma br_reads_data:
  assumes "br_reads E iv hsz typ recs br"
  obtains pre suf where "br_data br = pre @ entries_from E iv recs 0 @ restarts_bytes (restart_offsets E iv recs (br_header_off br)) @ suf"
    "length pre = br_header_off br + 4"
proof -
  from assms obtain pre suf where
    d: "br_data br = pre @ block_head E iv typ recs (br_header_off br) @ block_content E iv recs (br_header_off br) @ suf"
    "length pre = br_header_off br"
    by (auto simp: br_reads_def Let_def)
  then show thesis
    using that [of "pre @ block_head E iv typ recs (br_header_off br)"] by (simp add: block_content_def)
qed

lemma restart_offset_reads:
  assumes br: "br_reads E iv hsz typ recs br" and i: "i < length (restart_indices E iv recs)"
  shows "block_reader_restart_offset br i =
    Ok (br_header_off br + 4 + entry_off E iv recs (restart_indices E iv recs ! i))"
proof -
  let ?H = "br_header_off br" and ?off = "br_header_off br + 4 + entry_off E iv recs (restart_indices E iv recs ! i)"
  obtain pre suf where d: "br_data br = pre @ entries_from E iv recs 0 @ restarts_bytes (restart_offsets E iv recs ?H) @ suf"
    "length pre = ?H + 4" by (rule br_reads_data [OF br])
  have len: "i < length (restart_offsets E iv recs ?H)" "restart_offsets E iv recs ?H ! i = ?off"
    using i by (simp_all add: restart_offsets_def)
  have st: "br_restart_start br = length (pre @ entries_from E iv recs 0)"
    and bl: "block_len E iv recs ?H < 2 ^ 24"
    using br d by (simp_all add: br_reads_def Let_def)
  have "restart_indices E iv recs ! i < length recs"
    using i by (intro restart_indices_bounds(1) [of _ E iv]) simp
  then have "entry_off E iv recs (restart_indices E iv recs ! i) \<le> length (entries_from E iv recs 0)"
    using entry_off_entries [of "restart_indices E iv recs ! i" recs E iv] by simp
  then have lt: "?off < 2 ^ 24"
    using bl by (simp add: block_len_def block_content_def)
  have "drop (br_restart_start br + 3 * i) (br_data br) =
      put_be24 (word_of_nat ?off) @ drop (3 * Suc i) (restarts_bytes (restart_offsets E iv recs ?H)) @ suf"
    using drop_restarts_bytes [OF len(1)] len st d by simp
  then show ?thesis
    using get_put_be24_nat [OF lt] by (simp add: block_reader_restart_offset_def)
qed

lemma memcmp_less:
  "(let c = memcmp a (b @ xs) (if length a < length b then length a else length b) in
     if c \<noteq> 0 then c < 0 else length a < length b) \<longleftrightarrow> a < b"
proof -
  let ?m = "min (length a) (length b)"
  define c where "c = memcmp a (b @ xs) (if length a < length b then length a else length b)"
  have "c = bytes_cmp (take ?m a) (take ?m b)"
    by (simp add: memcmp_def c_def)
  then have "(if c \<noteq> 0 then c else if length a < length b then - 1 else if length a \<noteq> length b then 1 else 0)
      = order_sign a b"
    by (simp only: bytes_cmp_sign)
  then have "a < b \<longleftrightarrow> (if c \<noteq> 0 then c else if length a < length b then - 1 else if length a \<noteq> length b then 1 else 0) < 0"
    by (simp only: order_sign_simps)
  then show ?thesis unfolding c_def [symmetric] Let_def by auto
qed

lemma restart_needle_less_reads:
  assumes br: "br_reads E iv hsz typ recs br" and recs: "block_records E hsz typ recs"
    and i: "i < length (restart_indices E iv recs)"
  shows "restart_needle_less br want i err =
    Ok (of_bool (want < key_of E (recs ! (restart_indices E iv recs ! i))), err)"
proof -
  define j where "j = restart_indices E iv recs ! i"
  define k t where "k = key_of E (recs ! j)" and "t = reftable_record_val_type E (recs ! j)"
  have j: "j < length recs" "restart_at E iv recs j"
    using i restart_indices_bounds [of j E iv recs] by (simp_all add: j_def)
  then have ok: "record_ok E hsz (recs ! j)" using recs by (simp add: block_records_def)
  note small = key_of_eq(2) [OF ok, folded k_def] any_codec.val_type_small [of E hsz "recs ! j" "recs ! j", folded t_def]
  obtain pre suf where d: "br_data br = pre @ entries_from E iv recs 0 @ suf" "length pre = br_header_off br + 4"
    using br_reads_data [OF br] by metis
  have v: "view (br_data br) (br_header_off br + 4 + entry_off E iv recs j) (br_block_len br) = Ok (entries_from E iv recs j)"
    using view_entries [of j recs pre E iv suf] br d j by (simp add: br_reads_def Let_def)
  define rest where "rest = record_body (recs ! j) @ entries_from E iv recs (Suc j)"
  have bytes: "entries_from E iv recs j = key_bytes (prev_key E iv recs j) k t @ rest"
    by (simp add: entries_from_step j entry_bytes_def k_def t_def rest_def)
  have p: "common_prefix_size (prev_key E iv recs j) k = 0" using j by (simp add: restart_at_def k_def)
  obtain h where h: "key_bytes (prev_key E iv recs j) k t = h @ k"
    by (simp add: key_bytes_def p)
  have kl: "reftable_decode_keylen (h @ k @ rest) = Ok (0, word_of_nat (length k), t, length h)"
    using reftable_decode_keylen_bytes [OF small(2) small(1), of "prev_key E iv recs j" rest] ok by (simp add: p h)
  have n: "unat (word_of_nat (length k) :: u64) = length k" using small(1) by (simp add: unat_of_nat)
  show ?thesis
    unfolding restart_needle_less_def restart_offset_reads [OF br i] j_def [symmetric] k_def [symmetric]
    unfolding memcmp_less [of want k rest, symmetric] by (simp add: v bytes h kl n Let_def)
qed

lemma takeWhile_sorted_skip:
  assumes "sorted_wrt (<) (map f xs)" "j < length xs" "f (xs ! j) \<le> (want :: 'b::linorder)"
  shows "length (takeWhile (\<lambda>x. f x < want) xs) = j + length (takeWhile (\<lambda>x. f x < want) (drop j xs))"
proof -
  have "\<forall>x \<in> set (take j xs). f x < want"
  proof
    fix x assume "x \<in> set (take j xs)"
    then obtain i where "i < j" "x = xs ! i" by (auto simp: in_set_conv_nth)
    then have "f x < f (xs ! j)" using assms(1,2) by (simp add: sorted_wrt_iff_nth_less)
    with assms(3) show "f x < want" by simp
  qed
  then have "takeWhile (\<lambda>x. f x < want) (take j xs @ drop j xs) = take j xs @ takeWhile (\<lambda>x. f x < want) (drop j xs)"
    by (intro takeWhile_append2) simp
  then have "length (takeWhile (\<lambda>x. f x < want) xs) =
      length (take j xs) + length (takeWhile (\<lambda>x. f x < want) (drop j xs))"
    by (metis append_take_drop_id length_append)
  with assms(2) show ?thesis by simp
qed

lemma block_reader_type_reads: "br_reads E iv hsz typ recs br \<Longrightarrow> block_reader_type br = Ok typ"
  by (auto simp: br_reads_def block_reader_type_def read_at_def block_head_def Let_def)

lemma block_iter_seek_start_at:
  "br_reads E iv hsz typ recs br \<Longrightarrow> bi_at E iv recs 0 (block_iter_seek_start br)"
proof -
  assume br: "br_reads E iv hsz typ recs br"
  obtain pre suf where "br_data br = pre @ entries_from E iv recs 0 @ suf" "length pre = br_header_off br + 4"
    using br_reads_data [OF br] by metis
  with br show ?thesis
    by (auto simp: bi_at_def block_iter_seek_start_def br_reads_def Let_def entry_off_def
        intro!: last_key_ok_restart simp: restart_at_def prev_key_def)
qed

lemma reftable_record_init_type:
  "reftable_is_block_type typ \<Longrightarrow> \<exists>rec. reftable_record_init typ = Ok rec \<and> reftable_record_type rec = typ"
  by (auto simp: reftable_is_block_type_def reftable_record_init_def block_type_defs)

lemma block_iter_seek_key_reads:
  assumes br: "br_reads E iv hsz typ recs br" and recs: "block_records E hsz typ recs" "recs \<noteq> []"
    and sorted: "sorted_wrt (<) (map (key_of E) recs)"
    and E: "MAX_RESTARTS E > 0" and ty: "reftable_is_block_type typ"
  shows "\<exists>it'. block_iter_seek_key E it br want = Ok it' \<and> bi_hash_size it' = hsz
    \<and> bi_at E iv recs (length (takeWhile (\<lambda>r. key_of E r < want) recs)) it'"
proof -
  let ?ri = "restart_indices E iv recs" and ?H = "br_header_off br"
  let ?P = "\<lambda>i. want < key_of E (recs ! (?ri ! i))"
  note first = restart_indices_first [OF recs(2) E]
  have mono: "key_of E (recs ! (?ri ! a)) \<le> key_of E (recs ! (?ri ! b))" if "a \<le> b" "b < length ?ri" for a b
    using that sorted restart_indices_sorted [of E iv recs] restart_indices_bounds(1) [of "?ri ! b" E iv recs]
    by (cases "a = b") (auto simp: sorted_wrt_iff_nth_less less_imp_le)
  obtain i where i: "i \<le> length ?ri" "binsearch (length ?ri) (restart_needle_less br want) False = Ok (i, False)"
    "\<forall>k<i. \<not> ?P k"
    using binsearch_finds [where P = ?P and f = "restart_needle_less br want" and args = False and sz = "length ?ri"]
      restart_needle_less_reads [OF br recs(1)] mono first(1) less_le_trans by fastforce
  have cnt: "br_restart_count br = length ?ri" and hsz: "br_hash_size br = hsz"
    and bl: "br_block_len br = ?H + 4 + length (entries_from E iv recs 0)"
    using br by (simp_all add: br_reads_def Let_def)
  obtain pre suf where d: "br_data br = pre @ entries_from E iv recs 0 @ suf" "length pre = ?H + 4"
    using br_reads_data [OF br] by metis
  obtain rec where rec: "reftable_record_init typ = Ok rec" "reftable_record_type rec = typ"
    using reftable_record_init_type [OF ty] by blast
  define j where "j = (if i > 0 then ?ri ! (i - 1) else 0)"
  define it0 where "it0 = it\<lparr>bi_next_off := ?H + 4 + entry_off E iv recs j, bi_block := br_data br,
      bi_block_len := br_block_len br, bi_hash_size := br_hash_size br\<rparr>"
  have off: "(if i > 0 then block_reader_restart_offset br (i - 1) else Ok (?H + 4)) = Ok (?H + 4 + entry_off E iv recs j)"
    using restart_offset_reads [OF br, of "i - 1"] i by (simp add: j_def entry_off_def)
  have "0 < length ?ri" using first(1) by simp
  with i(1) have "i - 1 < length ?ri" by linarith
  moreover have "j = ?ri ! (i - 1)" using first(2) by (simp add: j_def)
  ultimately have "j \<in> set ?ri" by simp
  note j = restart_indices_bounds [OF this]
  have at: "bi_at E iv recs j it0"
    using j d bl by (auto simp: bi_at_def it0_def intro: last_key_ok_restart)
  have skip: "j + length (takeWhile (\<lambda>r. key_of E r < want) (drop j recs)) = length (takeWhile (\<lambda>r. key_of E r < want) recs)"
  proof (cases "i > 0")
    case True
    with i j have "key_of E (recs ! j) \<le> want" by (simp add: j_def not_less)
    from takeWhile_sorted_skip [OF sorted j(1) this] show ?thesis by simp
  qed (simp add: j_def)
  have "block_iter_seek_key E it br want = block_iter_seek_loop E it0 rec want"
    using i off rec block_reader_type_reads [OF br]
    by (simp add: block_iter_seek_key_def cnt it0_def Let_def)
  moreover have "bi_hash_size it0 = hsz" by (simp add: it0_def hsz)
  ultimately show ?thesis
    using block_iter_seek_loop_entries [OF at, of rec want] recs rec skip by simp
qed

section \<open>Writing and reading back\<close>

fun block_writer_add_list :: "reftable_env \<Rightarrow> block_writer \<Rightarrow> reftable_record list \<Rightarrow> block_writer res" where
  "block_writer_add_list E w [] = Ok w"
| "block_writer_add_list E w (rec # recs) =
     res_bind (block_writer_add E w rec) (\<lambda>w. block_writer_add_list E w recs)"

text \<open>A block from first to last: start it with a restart interval, add the records, finish it.\<close>

definition write_block ::
  "reftable_env \<Rightarrow> nat \<Rightarrow> byte \<Rightarrow> bytes \<Rightarrow> nat \<Rightarrow> nat \<Rightarrow> reftable_record list \<Rightarrow> (block_writer \<times> nat) res" where
  "write_block E iv typ block header_off hsz recs =
     res_bind (block_writer_init typ block (length block) header_off hsz) (\<lambda>w.
     res_bind (block_writer_add_list E (w\<lparr>bw_restart_interval := iv\<rparr>) recs) (\<lambda>w. block_writer_finish E w))"

lemma bw_added_same:
  "bw_hash_size (bw_added E iv recs rec w) = bw_hash_size w" "bw_header_off (bw_added E iv recs rec w) = bw_header_off w"
  "bw_block_size (bw_added E iv recs rec w) = bw_block_size w"
  by (simp_all add: bw_added_def Let_def)

lemma bw_added_header:
  "bw_inv E iv typ recs w \<Longrightarrow>
     take (bw_header_off w) (bw_block (bw_added E iv recs rec w)) = take (bw_header_off w) (bw_block w)"
  by (auto simp: bw_added_def Let_def bw_inv_def)

lemma block_writer_add_list_inv:
  assumes "bw_inv E iv typ recs w" "block_records E (bw_hash_size w) typ new"
    and "block_writer_add_list E w new = Ok w'"
  shows "bw_inv E iv typ (recs @ new) w' \<and> bw_hash_size w' = bw_hash_size w
    \<and> bw_header_off w' = bw_header_off w \<and> bw_block_size w' = bw_block_size w
    \<and> take (bw_header_off w) (bw_block w') = take (bw_header_off w) (bw_block w)"
  using assms
proof (induction new arbitrary: recs w)
  case (Cons rec new)
  from Cons.prems(2) have ok: "record_ok E (bw_hash_size w) rec" "key_of E rec \<noteq> []" "reftable_record_type rec = typ"
    and new: "block_records E (bw_hash_size w) typ new"
    by (simp_all add: block_records_def)
  from Cons.prems(3) have fits: "bw_fits E iv recs rec w"
    and rest: "block_writer_add_list E (bw_added E iv recs rec w) new = Ok w'"
    by (auto simp: block_writer_add_eq [OF Cons.prems(1) ok(1,2)] split: if_splits)
  from Cons.IH [OF bw_added_inv [OF Cons.prems(1) fits ok] _ rest] new bw_added_header [OF Cons.prems(1), of rec]
  show ?case by (simp add: bw_added_same)
qed simp

lemma write_block_inv:
  assumes "write_block E iv typ block H hsz recs = Ok (w, n)" "block_records E hsz typ recs"
    and "H + 4 \<le> length block" "length block < 2 ^ 24"
  obtains w1 where "bw_inv E iv typ recs w1" "block_writer_finish E w1 = Ok (w, n)"
    "bw_hash_size w1 = hsz" "bw_header_off w1 = H" "bw_block_size w1 = length block"
    "take H (bw_block w1) = take H block"
proof -
  from bw_inv_init [OF assms(3,4)] obtain w0 where
    w0: "block_writer_init typ block (length block) H hsz = Ok w0"
    "bw_inv E iv typ [] (w0\<lparr>bw_restart_interval := iv\<rparr>)" "bw_hash_size w0 = hsz"
    "bw_header_off w0 = H" "bw_block_size w0 = length block" "take H (bw_block w0) = take H block" by blast
  with assms(1) obtain w1 where
    w1: "block_writer_add_list E (w0\<lparr>bw_restart_interval := iv\<rparr>) recs = Ok w1" "block_writer_finish E w1 = Ok (w, n)"
    by (auto simp: write_block_def res_bind_eq_Ok)
  with block_writer_add_list_inv [OF w0(2) _ w1(1)] assms(2) w0 that [of w1] show thesis by simp
qed

text \<open>What the reader makes of a written block, whatever follows it in the file.\<close>

lemma write_block_reads:
  assumes w: "write_block E iv typ block H hsz recs = Ok (w, n)" "block_records E hsz typ recs" "recs \<noteq> []"
    and sz: "H + 4 \<le> length block" "length block < 2 ^ 24"
    and E: "be16_ok E" "zlib_ok E" "MAX_RESTARTS E < 2 ^ 16" and ty: "reftable_is_block_type typ"
  shows "\<exists>br. block_reader_init E (take n (bw_block w) @ suf) H tbs hsz = Ok br \<and> br_reads E iv hsz typ recs br
    \<and> br_full_block_size br \<in> {n, tbs}"
proof -
  obtain w1 where w1: "bw_inv E iv typ recs w1" "block_writer_finish E w1 = Ok (w, n)"
    "bw_hash_size w1 = hsz" "bw_header_off w1 = H" "bw_block_size w1 = length block"
    "take H (bw_block w1) = take H block"
    by (rule write_block_inv [OF w(1,2) sz])
  let ?c = "block_content E iv recs H" and ?pre = "take H block"
  have rc: "length (restart_indices E iv recs) < 2 ^ 16"
    using E(3) by (simp add: restart_indices_def)
  have bl: "block_len E iv recs H \<le> length block"
  proof -
    have "block_len E iv recs H = bw_next w1 + 2 + 3 * length (bw_restarts w1)"
      using w1(1,4) by (simp add: block_len_def block_content_def restart_offsets_def bw_inv_def)
    also have "\<dots> \<le> bw_block_size w1" using w1(1) w(3) unfolding bw_inv_def by blast
    finally show ?thesis by (simp add: w1(5))
  qed
  then have bl24: "block_len E iv recs H < 2 ^ 24" using sz by simp
  have pre: "length ?pre = H" using sz by simp
  let ?n = "block_len E iv recs H"
  have raw: "raw_block E iv typ recs w1 = (?pre @ block_head E iv typ recs H) @ ?c @ drop ?n (bw_block w1)"
    by (simp add: raw_block_def w1(4,6))
  note fin = block_writer_finish_eq [OF w1(1) w(3), unfolded w1(2,4)]
  show ?thesis
  proof (cases "typ = BLOCK_TYPE_LOG")
    case False
    with fin raw pre have "take n (bw_block w) = ?pre @ block_head E iv typ recs H @ ?c"
      by (auto simp: block_len_def)
    moreover have "n = ?n" using False fin by auto
    ultimately show ?thesis
      using block_reader_init_full [where suf = suf and tbs = tbs and hsz = hsz, OF False ty pre E(1) bl24 rc]
        image_reader_reads [OF pre bl24 rc] by (auto simp: image_reader_def)
  next
    case True
    let ?d = "deflate E ?c"
    from fin True obtain block' where b: "write_at (4 + H) ?d (raw_block E iv typ recs w1) = Ok block'"
      "bw_block w = block'" "n = length ?d + (4 + H)"
      by (auto simp: res_bind_eq_Ok dest!: sym [of "Ok _"])
    have "take (4 + H) (raw_block E iv typ recs w1) = ?pre @ block_head E iv typ recs H"
      using pre by (simp add: raw)
    with b(1,2) have "bw_block w = (?pre @ block_head E iv typ recs H @ ?d) @ drop (4 + H + length ?d) (raw_block E iv typ recs w1)"
      by (simp add: write_at_def split: if_splits)
    moreover have "length (?pre @ block_head E iv typ recs H @ ?d) = n" using pre b(3) by simp
    ultimately have "take n (bw_block w) = ?pre @ block_head E iv typ recs H @ ?d"
      by (metis append_eq_conv_conj)
    then show ?thesis
      using block_reader_init_log [where suf = suf and tbs = tbs and hsz = hsz, OF pre E(1,2) bl24 rc] True b(3)
        image_reader_reads [OF pre bl24 rc, where suf = "[]"] by (auto simp: image_reader_def add.commute)
  qed
qed

end
