(* ===== verification/Reft_Tree.thy ===== *)
theory Reft_Tree
  imports Reft_Basics
begin

text \<open>
  The unbalanced binary search tree of \<open>reftable_tree.c\<close>, with which the table writer collects
  object ids. \<open>NULL\<close> is \<open>Leaf\<close>. An operation that returns a node is modelled by the key of that
  node.
\<close>

datatype 'k tree_node = Leaf | Node "'k tree_node" 'k "'k tree_node"

fun tree_search :: "'k tree_node \<Rightarrow> 'k \<Rightarrow> ('k \<Rightarrow> 'k \<Rightarrow> int) \<Rightarrow> 'k option" where
  "tree_search Leaf key compare = None"
| "tree_search (Node l k r) key compare =
     (let res = compare key k in
      if res < 0 then tree_search l key compare
      else if res > 0 then tree_search r key compare
      else Some k)"

fun tree_insert :: "'k tree_node \<Rightarrow> 'k \<Rightarrow> ('k \<Rightarrow> 'k \<Rightarrow> int) \<Rightarrow> 'k tree_node \<times> 'k" where
  "tree_insert Leaf key compare = (Node Leaf key Leaf, key)"
| "tree_insert (Node l k r) key compare =
     (let res = compare key k in
      if res < 0 then (case tree_insert l key compare of (l', n) \<Rightarrow> (Node l' k r, n))
      else if res > 0 then (case tree_insert r key compare of (r', n) \<Rightarrow> (Node l k r', n))
      else (Node l k r, k))"

text \<open>
  \<open>infix_walk\<close> passes \<open>arg\<close> to every call of the action; what the action does through that pointer
  is its result here.
\<close>

fun infix_walk :: "'k tree_node \<Rightarrow> ('a \<Rightarrow> 'k \<Rightarrow> 'a res) \<Rightarrow> 'a \<Rightarrow> 'a res" where
  "infix_walk Leaf action arg = Crash Null_Deref"
| "infix_walk (Node l k r) action arg =
     res_bind (if l \<noteq> Leaf then infix_walk l action arg else Ok arg) (\<lambda>arg.
     res_bind (action arg k) (\<lambda>arg.
       if r \<noteq> Leaf then infix_walk r action arg else Ok arg))"

text \<open>\<open>tree_free\<close> gives every node back once; here, the number of nodes that it frees.\<close>

fun tree_free :: "'k tree_node \<Rightarrow> nat" where
  "tree_free Leaf = 0"
| "tree_free (Node l k r) =
     (if l \<noteq> Leaf then tree_free l else 0) + (if r \<noteq> Leaf then tree_free r else 0) + 1"

section \<open>The walk visits the keys in infix order\<close>

fun infix_keys :: "'k tree_node \<Rightarrow> 'k list" where
  "infix_keys Leaf = []"
| "infix_keys (Node l k r) = infix_keys l @ k # infix_keys r"

fun res_fold :: "('a \<Rightarrow> 'k \<Rightarrow> 'a res) \<Rightarrow> 'k list \<Rightarrow> 'a \<Rightarrow> 'a res" where
  "res_fold f [] a = Ok a"
| "res_fold f (k # ks) a = res_bind (f a k) (res_fold f ks)"

lemma res_fold_append: "res_fold f (xs @ ys) a = res_bind (res_fold f xs a) (res_fold f ys)"
  by (induction xs arbitrary: a) (auto simp: res_bind_assoc intro!: res_bind_cong)

lemma res_fold_Ok: "res_fold (\<lambda>a k. Ok (f a k)) ks a = Ok (foldl f a ks)"
  by (induction ks arbitrary: a) simp_all

lemma infix_walk_fold: "t \<noteq> Leaf \<Longrightarrow> infix_walk t action arg = res_fold action (infix_keys t) arg"
proof (induction t arbitrary: arg)
  case (Node l k r)
  have l: "(if l \<noteq> Leaf then infix_walk l action arg else Ok arg) = res_fold action (infix_keys l) arg" for arg
    using Node.IH(1) by (cases l) auto
  have r: "(if r \<noteq> Leaf then infix_walk r action arg else Ok arg) = res_fold action (infix_keys r) arg" for arg
    using Node.IH(2) by (cases r) auto
  show ?case
    unfolding infix_walk.simps l r infix_keys.simps res_fold_append by (intro res_bind_cong) simp_all
qed simp

lemma tree_free_size: "tree_free t = length (infix_keys t)"
  by (induction t) auto

section \<open>Search trees\<close>

text \<open>What the tree relies on: the comparison has the sign of a linear order of the keys' names.\<close>

locale tree_compare =
  fixes compare :: "'k \<Rightarrow> 'k \<Rightarrow> int"
    and name :: "'k \<Rightarrow> 'n::linorder"
  assumes compare_sign: "sgn (compare a b) = order_sign (name a) (name b)"
begin

lemma compare_iff:
  "compare a b < 0 \<longleftrightarrow> name a < name b" "compare a b > 0 \<longleftrightarrow> name b < name a"
  "compare a b = 0 \<longleftrightarrow> name a = name b"
  using compare_sign [of a b] order_sign_simps [of "name a" "name b"]
  by (metis sgn_less, metis sgn_greater, metis sgn_0_0)

definition search_tree :: "'k tree_node \<Rightarrow> bool" where
  "search_tree t \<longleftrightarrow> sorted_wrt (<) (map name (infix_keys t))"

lemma search_tree_Node:
  "search_tree (Node l k r) \<longleftrightarrow> search_tree l \<and> search_tree r
     \<and> (\<forall>x \<in> set (infix_keys l). name x < name k) \<and> (\<forall>x \<in> set (infix_keys r). name k < name x)"
  by (auto simp: search_tree_def sorted_wrt_append intro: less_trans)

lemma search_finds:
  "search_tree t \<Longrightarrow>
     tree_search t key compare = find (\<lambda>k. name k = name key) (infix_keys t)"
proof (induction t)
  case (Node l k r)
  have no_l: "find (\<lambda>x. name x = name key) (infix_keys l) = None" if "name k \<le> name key"
    using Node.prems that by (force simp: search_tree_Node find_None_iff)
  have no_r: "find (\<lambda>x. name x = name key) (infix_keys r) = None" if "name key \<le> name k"
    using Node.prems that by (force simp: search_tree_Node find_None_iff)
  have app: "find P (xs @ ys) = (case find P xs of None \<Rightarrow> find P ys | Some x \<Rightarrow> Some x)" for P and xs ys :: "'k list"
    by (induction xs) auto
  from Node no_l no_r show ?case
    by (cases "name key" "name k" rule: linorder_cases)
      (auto simp: app search_tree_Node compare_iff less_imp_le less_imp_neq split: option.splits)
qed simp

lemma insert_set:
  "search_tree t \<Longrightarrow>
     set (infix_keys (fst (tree_insert t key compare))) =
       (if \<exists>k \<in> set (infix_keys t). name k = name key then set (infix_keys t)
        else insert key (set (infix_keys t)))"
proof (induction t)
  case (Node l k r)
  have l: "\<not> (\<exists>x \<in> set (infix_keys l). name x = name key)" if "name k \<le> name key"
    using Node.prems that by (auto simp: search_tree_Node)
  have r: "\<not> (\<exists>x \<in> set (infix_keys r). name x = name key)" if "name key \<le> name k"
    using Node.prems that by (auto simp: search_tree_Node)
  show ?case
    using Node l r
    by (cases "name key" "name k" rule: linorder_cases)
      (auto simp: search_tree_Node compare_iff split: prod.splits if_splits)
qed simp

lemma insert_search_tree: "search_tree t \<Longrightarrow> search_tree (fst (tree_insert t key compare))"
proof (induction t)
  case Leaf
  then show ?case by (simp add: search_tree_def)
next
  case (Node l k r)
  then have sl: "search_tree l" and sr: "search_tree r" by (simp_all add: search_tree_Node)
  show ?case
    using Node.IH(1) [OF sl] Node.IH(2) [OF sr] Node.prems insert_set [OF sl, of key] insert_set [OF sr, of key]
    by (cases "name key" "name k" rule: linorder_cases)
      (auto simp: search_tree_Node compare_iff split: prod.splits if_splits)
qed

lemma insert_node:
  "snd (tree_insert t key compare) \<in> set (infix_keys (fst (tree_insert t key compare)))
   \<and> name (snd (tree_insert t key compare)) = name key"
  by (induction t) (auto simp: Let_def compare_iff split: prod.splits)

end

interpretation buf_tree: tree_compare reftable_buf_cmp id
  by unfold_locales (simp add: reftable_buf_cmp_sign order_sign_def)

end
