(* ===== verification/Reft_Pq.thy ===== *)
theory Reft_Pq
  imports Reft_Record "HOL-Library.Multiset" "HOL-Library.Product_Lexorder"
begin

text \<open>
  The priority queue of the merged iterator (\<open>reftable_pq.c\<close>): a binary heap in an array. The
  loops take the comparison as an argument; the queue of the library is their instance at
  \<open>pq_less\<close>. The array is a list, whose length is \<open>pq->len\<close>.
\<close>

section \<open>The heap operations\<close>

definition swap :: "'e list \<Rightarrow> nat \<Rightarrow> nat \<Rightarrow> 'e list" where
  "swap h i j = h[i := h ! j, j := h ! i]"

function sift_down :: "('e \<Rightarrow> 'e \<Rightarrow> bool res) \<Rightarrow> 'e list \<Rightarrow> nat \<Rightarrow> 'e list res" where
  "sift_down lt h i =
     (if i < length h then
        let j = 2 * i + 1; k = 2 * i + 2 in
        res_bind (if j < length h then lt (h ! j) (h ! i) else Ok False) (\<lambda>lj.
        let min = (if lj then j else i) in
        res_bind (if k < length h then lt (h ! k) (h ! min) else Ok False) (\<lambda>lk.
        let min = (if lk then k else min) in
        if min = i then Ok h else sift_down lt (swap h i min) min))
      else Ok h)"
  by pat_completeness auto
termination
  by (relation "measure (\<lambda>(lt, h, i). length h - i)") (auto simp: swap_def split: if_splits)

function sift_up :: "('e \<Rightarrow> 'e \<Rightarrow> bool res) \<Rightarrow> 'e list \<Rightarrow> nat \<Rightarrow> 'e list res" where
  "sift_up lt h i =
     (if i > 0 then
        let j = (i - 1) div 2 in
        res_bind (lt (h ! j) (h ! i)) (\<lambda>l.
        if l then Ok h else sift_up lt (swap h j i) j)
      else Ok h)"
  by pat_completeness auto
termination
  by (relation "measure (\<lambda>(lt, h, i). i)") auto

declare sift_down.simps [simp del] and sift_up.simps [simp del]

definition pqueue_remove :: "('e \<Rightarrow> 'e \<Rightarrow> bool res) \<Rightarrow> 'e list \<Rightarrow> ('e \<times> 'e list) res" where
  "pqueue_remove lt h =
     (case h of
        [] \<Rightarrow> Crash Out_Of_Bounds
      | e # _ \<Rightarrow> res_bind (sift_down lt (butlast (h[0 := last h])) 0) (\<lambda>h. Ok (e, h)))"

definition pqueue_add :: "('e \<Rightarrow> 'e \<Rightarrow> bool res) \<Rightarrow> 'e list \<Rightarrow> 'e \<Rightarrow> 'e list res" where
  "pqueue_add lt h e = sift_up lt (h @ [e]) (length h)"

record pq_entry =
  pq_index :: nat
  pq_rec :: reftable_record

definition pq_less :: "pq_entry \<Rightarrow> pq_entry \<Rightarrow> bool res" where
  "pq_less a b =
     res_bind (reftable_record_cmp (pq_rec a) (pq_rec b)) (\<lambda>cmp.
       if cmp = 0 then Ok (pq_index a > pq_index b) else Ok (cmp < 0))"

definition merged_iter_pqueue_remove :: "pq_entry list \<Rightarrow> (pq_entry \<times> pq_entry list) res" where
  "merged_iter_pqueue_remove pq = pqueue_remove pq_less pq"

definition merged_iter_pqueue_add :: "pq_entry list \<Rightarrow> pq_entry \<Rightarrow> pq_entry list res" where
  "merged_iter_pqueue_add pq e = pqueue_add pq_less pq e"

definition merged_iter_pqueue_release :: "pq_entry list \<Rightarrow> pq_entry list" where
  "merged_iter_pqueue_release pq = []"

text \<open>Removing an entry makes the queue shorter, whatever the comparison does.\<close>

lemma sift_down_step:
  assumes "sift_down lt h i = Ok h'"
  shows "h' = h \<or> (i < length h \<and> (\<exists>m>i. sift_down lt (swap h i m) m = Ok h'))"
proof -
  have m: "\<exists>m>i. sift_down lt (swap h i m) m = Ok h'" if "sift_down lt (swap h i (i + Suc k)) (i + Suc k) = Ok h'" for k
    using that by (intro exI [of _ "i + Suc k"]) simp
  show ?thesis
    using assms m [of i] m [of "Suc i"]
    by (subst (asm) sift_down.simps) (auto simp: Let_def res_bind_eq_Ok mult_2 split: if_splits)
qed

lemma length_sift_down: "sift_down lt h i = Ok h' \<Longrightarrow> length h' = length h"
proof (induction "length h - i" arbitrary: h i rule: less_induct)
  case less
  from sift_down_step [OF less.prems] show ?case
  proof (elim disjE conjE exE)
    fix m assume "i < length h" "i < m" "sift_down lt (swap h i m) m = Ok h'"
    then show ?case using less.hyps [of "swap h i m" m] by (simp add: swap_def)
  qed simp
qed

lemma pqueue_remove_shrinks: "pqueue_remove lt h = Ok (e, h') \<Longrightarrow> length h' < length h"
  by (auto simp: pqueue_remove_def res_bind_eq_Ok split: list.splits dest!: length_sift_down)

section \<open>Heaps over an order\<close>

text \<open>
  What the heap relies on: on the elements that are \<open>valid\<close> for one queue, the comparison answers
  and follows a linear order of their ranks.
\<close>

locale ranked_less =
  fixes valid :: "'e \<Rightarrow> bool"
    and lt :: "'e \<Rightarrow> 'e \<Rightarrow> bool res"
    and rank :: "'e \<Rightarrow> 'k::linorder"
  assumes less_rank: "valid a \<Longrightarrow> valid b \<Longrightarrow> lt a b = Ok (rank a < rank b)"
begin

definition heap :: "'e list \<Rightarrow> bool" where
  "heap h \<longleftrightarrow> (\<forall>x \<in> set h. valid x) \<and>
     (\<forall>k. 0 < k \<longrightarrow> k < length h \<longrightarrow> rank (h ! ((k - 1) div 2)) \<le> rank (h ! k))"

text \<open>Heaps with one entry that may be too small, or too large, for its place.\<close>

definition up_inv :: "'e list \<Rightarrow> nat \<Rightarrow> bool" where
  "up_inv h i \<longleftrightarrow> (\<forall>x \<in> set h. valid x) \<and> i < length h \<and>
     (\<forall>k. 0 < k \<longrightarrow> k < length h \<longrightarrow> k \<noteq> i \<longrightarrow> rank (h ! ((k - 1) div 2)) \<le> rank (h ! k)) \<and>
     (\<forall>k. 0 < k \<longrightarrow> k < length h \<longrightarrow> (k - 1) div 2 = i \<longrightarrow> 0 < i \<longrightarrow> rank (h ! ((i - 1) div 2)) \<le> rank (h ! k))"

definition down_inv :: "'e list \<Rightarrow> nat \<Rightarrow> bool" where
  "down_inv h i \<longleftrightarrow> (\<forall>x \<in> set h. valid x) \<and>
     (\<forall>k. 0 < k \<longrightarrow> k < length h \<longrightarrow> (k - 1) div 2 \<noteq> i \<longrightarrow> rank (h ! ((k - 1) div 2)) \<le> rank (h ! k)) \<and>
     (\<forall>k. 0 < k \<longrightarrow> k < length h \<longrightarrow> (k - 1) div 2 = i \<longrightarrow> 0 < i \<longrightarrow> rank (h ! ((i - 1) div 2)) \<le> rank (h ! k))"

lemma swap_facts:
  assumes "i < length h" "j < length h"
  shows "length (swap h i j) = length h" "mset (swap h i j) = mset h" "set (swap h i j) = set h"
    "\<And>k. k < length h \<Longrightarrow> swap h i j ! k = (if k = j then h ! i else if k = i then h ! j else h ! k)"
proof -
  show m: "mset (swap h i j) = mset h" using assms by (simp add: swap_def mset_swap)
  then show "set (swap h i j) = set h" by (metis set_mset_mset)
qed (auto simp: swap_def nth_list_update)

lemma up_step:
  assumes inv: "up_inv h i" and i: "0 < i" and ge: "rank (h ! i) \<le> rank (h ! ((i - 1) div 2))"
  shows "up_inv (swap h ((i - 1) div 2) i) ((i - 1) div 2)"
proof -
  let ?j = "(i - 1) div 2" and ?h = "swap h ((i - 1) div 2) i"
  have il: "i < length h" and jl: "?j < length h" and ji: "?j < i" using inv i by (auto simp: up_inv_def)
  note s = swap_facts [OF jl il]
  have up: "rank (h ! ((k - 1) div 2)) \<le> rank (h ! k)" if "0 < k" "k < length h" "k \<noteq> i" for k
    using inv that by (simp add: up_inv_def)
  have gp: "rank (h ! ?j) \<le> rank (h ! k)" if "0 < k" "k < length h" "(k - 1) div 2 = i" for k
    using inv that i by (simp add: up_inv_def)
  have "rank (?h ! ((k - 1) div 2)) \<le> rank (?h ! k)" if k: "0 < k" "k < length h" "k \<noteq> ?j" for k
  proof -
    have pk: "(k - 1) div 2 < length h" using k by linarith
    consider "k = i" | "k \<noteq> i" "(k - 1) div 2 = i" | "k \<noteq> i" "(k - 1) div 2 = ?j" "(k - 1) div 2 \<noteq> i"
      | "k \<noteq> i" "(k - 1) div 2 \<noteq> i" "(k - 1) div 2 \<noteq> ?j" by blast
    then show ?thesis
    proof cases
      case 3
      then show ?thesis using s(4) [OF pk] s(4) [OF k(2)] up [of k] k ge by simp
    qed (use s(4) [OF pk] s(4) [OF k(2)] up [of k] gp [of k] k ge ji in simp_all)
  qed
  moreover have "rank (?h ! ((?j - 1) div 2)) \<le> rank (?h ! k)"
    if k: "0 < k" "k < length h" "(k - 1) div 2 = ?j" "0 < ?j" for k
  proof -
    have pj: "(?j - 1) div 2 < ?j" using k(4) by linarith
    then have "(?j - 1) div 2 < length h" "(?j - 1) div 2 \<noteq> i" "(?j - 1) div 2 \<noteq> ?j" using jl ji by linarith+
    then have e1: "?h ! ((?j - 1) div 2) = h ! ((?j - 1) div 2)" by (simp only: s(4) if_False)
    have e2: "rank (h ! ((?j - 1) div 2)) \<le> rank (h ! ?j)" using up [of ?j] k jl ji by simp
    have e3: "rank (h ! ?j) \<le> rank (?h ! k)" 
    proof (cases "k = i")
      case True
      show ?thesis unfolding True s(4) [OF il] by simp
    next
      case False
      have "?j < k" using k(1,3) by linarith
      then have "?h ! k = h ! k" using s(4) [OF k(2)] False by simp
      then show ?thesis using up [OF k(1,2) False] k(3) by simp
    qed
    show ?thesis unfolding e1 by (rule order_trans [OF e2 e3])
  qed
  moreover have "\<forall>x \<in> set ?h. valid x" using inv s(3) by (simp add: up_inv_def)
  ultimately show ?thesis unfolding up_inv_def s(1) using jl by blast
qed

lemma up_done: "up_inv h i \<Longrightarrow> i = 0 \<or> rank (h ! ((i - 1) div 2)) \<le> rank (h ! i) \<Longrightarrow> heap h"
  unfolding up_inv_def heap_def by (metis less_numeral_extra(3))

lemma sift_up_heap:
  "up_inv h i \<Longrightarrow> \<exists>h'. sift_up lt h i = Ok h' \<and> heap h' \<and> mset h' = mset h"
proof (induction i arbitrary: h rule: less_induct)
  case (less i)
  show ?case
  proof (cases "0 < i")
    case False
    then show ?thesis using up_done [OF less.prems] by (simp add: sift_up.simps)
  next
    case True
    let ?j = "(i - 1) div 2"
    from True less.prems have l: "i < length h" "?j < length h" "?j < i" by (auto simp: up_inv_def)
    have lt: "lt (h ! ?j) (h ! i) = Ok (rank (h ! ?j) < rank (h ! i))"
      using less.prems l by (intro less_rank) (auto simp: up_inv_def)
    show ?thesis
    proof (cases "rank (h ! ?j) < rank (h ! i)")
      case lt': True
      then show ?thesis using True lt up_done [OF less.prems] by (simp add: sift_up.simps [of _ h i] Let_def)
    next
      case ge: False
      then have "up_inv (swap h ?j i) ?j" using up_step [OF less.prems True] by simp
      from less.IH [OF l(3) this] ge True lt swap_facts(2) [OF l(2,1)] show ?thesis
        by (simp add: sift_up.simps [of _ h i] Let_def)
    qed
  qed
qed

lemma down_step:
  assumes inv: "down_inv h i" and m: "m < length h" "0 < m" "(m - 1) div 2 = i"
    and small: "rank (h ! m) \<le> rank (h ! i)"
      "\<And>k. 0 < k \<Longrightarrow> k < length h \<Longrightarrow> (k - 1) div 2 = i \<Longrightarrow> rank (h ! m) \<le> rank (h ! k)"
  shows "down_inv (swap h i m) m"
proof -
  let ?h = "swap h i m"
  have im: "i < m" using m by linarith
  then have il: "i < length h" using m by linarith
  note s = swap_facts [OF il m(1)]
  have down: "rank (h ! ((k - 1) div 2)) \<le> rank (h ! k)" if "0 < k" "k < length h" "(k - 1) div 2 \<noteq> i" for k
    using inv that by (simp add: down_inv_def)
  have "rank (?h ! ((k - 1) div 2)) \<le> rank (?h ! k)" if k: "0 < k" "k < length h" "(k - 1) div 2 \<noteq> m" for k
  proof -
    have pk: "(k - 1) div 2 < length h" "(k - 1) div 2 < k" using k by linarith+
    consider "(k - 1) div 2 = i" | "(k - 1) div 2 \<noteq> i" "k = i" | "(k - 1) div 2 \<noteq> i" "k \<noteq> i" by blast
    then show ?thesis
    proof cases
      case 1
      then show ?thesis using s(4) [OF pk(1)] s(4) [OF k(2)] small pk k im by auto
    next
      case 2
      have "rank (h ! ((i - 1) div 2)) \<le> rank (h ! m)"
        using inv m k 2 by (simp add: down_inv_def)
      then show ?thesis using s(4) [OF pk(1)] s(4) [OF k(2)] 2 k im by simp
    next
      case 3
      then have "k \<noteq> m" using m by blast
      then show ?thesis using s(4) [OF pk(1)] s(4) [OF k(2)] 3 k down [of k] by simp
    qed
  qed
  moreover have "rank (?h ! ((m - 1) div 2)) \<le> rank (?h ! k)"
    if k: "0 < k" "k < length h" "(k - 1) div 2 = m" "0 < m" for k
  proof -
    have "m < k" using k by linarith
    then show ?thesis using s(4) [OF il] s(4) [OF k(2)] down [of k] k m im by simp
  qed
  moreover have "\<forall>x \<in> set ?h. valid x" using inv s(3) by (simp add: down_inv_def)
  ultimately show ?thesis unfolding down_inv_def s(1) by blast
qed

lemma down_done:
  "down_inv h i \<Longrightarrow> (\<And>k. 0 < k \<Longrightarrow> k < length h \<Longrightarrow> (k - 1) div 2 = i \<Longrightarrow> rank (h ! i) \<le> rank (h ! k)) \<Longrightarrow> heap h"
  unfolding down_inv_def heap_def by metis

text \<open>The two comparisons of a round find the smallest of an entry and its children.\<close>

lemma least_of_family:
  assumes valid: "\<forall>x \<in> set h. valid x" and i: "i < length h"
  obtains lj lk m where
    "(if 2 * i + 1 < length h then lt (h ! (2 * i + 1)) (h ! i) else Ok False) = Ok lj"
    "(if 2 * i + 2 < length h then lt (h ! (2 * i + 2)) (h ! (if lj then 2 * i + 1 else i)) else Ok False) = Ok lk"
    "m = (if lk then 2 * i + 2 else if lj then 2 * i + 1 else i)" "m < length h"
    "m = i \<or> 0 < m \<and> (m - 1) div 2 = i" "rank (h ! m) \<le> rank (h ! i)"
    "\<And>k. 0 < k \<Longrightarrow> k < length h \<Longrightarrow> (k - 1) div 2 = i \<Longrightarrow> rank (h ! m) \<le> rank (h ! k)"
proof -
  let ?j = "2 * i + 1" and ?k = "2 * i + 2"
  define lj where "lj \<longleftrightarrow> ?j < length h \<and> rank (h ! ?j) < rank (h ! i)"
  define a where "a = (if lj then ?j else i)"
  define lk where "lk \<longleftrightarrow> ?k < length h \<and> rank (h ! ?k) < rank (h ! a)"
  define m where "m = (if lk then ?k else a)"
  have al: "a < length h" "rank (h ! a) \<le> rank (h ! i)" "?j < length h \<Longrightarrow> rank (h ! a) \<le> rank (h ! ?j)"
    using i by (auto simp: a_def lj_def)
  have ml: "m < length h" "rank (h ! m) \<le> rank (h ! a)" "?k < length h \<Longrightarrow> rank (h ! m) \<le> rank (h ! ?k)"
    using al by (auto simp: m_def lk_def)
  have f1: "(if ?j < length h then lt (h ! ?j) (h ! i) else Ok False) = Ok lj"
    using less_rank valid i by (simp add: lj_def)
  have f2: "(if ?k < length h then lt (h ! ?k) (h ! a) else Ok False) = Ok lk"
    using less_rank valid al by (simp add: lk_def)
  have f3: "m = i \<or> 0 < m \<and> (m - 1) div 2 = i" by (auto simp: m_def a_def)
  have f4: "rank (h ! m) \<le> rank (h ! k)" if k: "0 < k" "k < length h" "(k - 1) div 2 = i" for k
  proof -
    from k have "k = ?j \<or> k = ?k" by linarith
    then show ?thesis using al ml k by (metis order_trans)
  qed
  show thesis
    by (rule that [OF f1 f2 [unfolded a_def] m_def [unfolded a_def] ml(1) f3 order_trans [OF ml(2) al(2)] f4])
qed

lemma sift_down_heap:
  "down_inv h i \<Longrightarrow> \<exists>h'. sift_down lt h i = Ok h' \<and> heap h' \<and> mset h' = mset h"
proof (induction "length h - i" arbitrary: h i rule: less_induct)
  case less
  show ?case
  proof (cases "i < length h")
    case False
    then show ?thesis
      using down_done [OF less.prems] by (force simp: sift_down.simps [of _ h i])
  next
    case True
    obtain lj lk m where round:
      "(if 2 * i + 1 < length h then lt (h ! (2 * i + 1)) (h ! i) else Ok False) = Ok lj"
      "(if 2 * i + 2 < length h then lt (h ! (2 * i + 2)) (h ! (if lj then 2 * i + 1 else i)) else Ok False) = Ok lk"
      "m = (if lk then 2 * i + 2 else if lj then 2 * i + 1 else i)" "m < length h"
      "m = i \<or> 0 < m \<and> (m - 1) div 2 = i" "rank (h ! m) \<le> rank (h ! i)"
      "\<And>k. 0 < k \<Longrightarrow> k < length h \<Longrightarrow> (k - 1) div 2 = i \<Longrightarrow> rank (h ! m) \<le> rank (h ! k)"
      using least_of_family [OF _ True] less.prems unfolding down_inv_def by blast
    have step: "sift_down lt h i = (if m = i then Ok h else sift_down lt (swap h i m) m)"
      using True by (simp only: sift_down.simps [of _ h i] Let_def round(1,2) res_bind.simps round(3) if_True)
    show ?thesis
    proof (cases "m = i")
      case m: True
      then have "heap h" using down_done [OF less.prems] round(7) by blast
      with step m show ?thesis by simp
    next
      case False
      with round(5) have m: "0 < m" "(m - 1) div 2 = i" by auto
      then have "i < m" by linarith
      note inv = down_step [OF less.prems round(4) m round(6,7)]
      have "length (swap h i m) - m < length h - i"
        using \<open>i < m\<close> True swap_facts(1) [OF True round(4)] by simp
      from less.hyps [OF this inv] step False swap_facts(2) [OF True round(4)] show ?thesis by simp
    qed
  qed
qed

lemma heap_least: "heap h \<Longrightarrow> k < length h \<Longrightarrow> rank (h ! 0) \<le> rank (h ! k)"
proof (induction k rule: less_induct)
  case (less k)
  show ?case
  proof (cases "k = 0")
    case False
    then have p: "(k - 1) div 2 < k" "(k - 1) div 2 < length h" using less.prems(2) by linarith+
    from less.IH [OF p(1) less.prems(1) p(2)] have "rank (h ! 0) \<le> rank (h ! ((k - 1) div 2))" .
    also have "\<dots> \<le> rank (h ! k)" using less.prems False by (simp add: heap_def)
    finally show ?thesis .
  qed simp
qed

lemma pqueue_add_heap:
  assumes "heap h" "valid e"
  shows "\<exists>h'. pqueue_add lt h e = Ok h' \<and> heap h' \<and> mset h' = add_mset e (mset h)"
proof -
  have "up_inv (h @ [e]) (length h)"
    unfolding up_inv_def
  proof (intro conjI allI impI)
    fix k assume k: "0 < k" "k < length (h @ [e])" "k \<noteq> length h"
    then have "(k - 1) div 2 < length h" "k < length h" by auto
    with assms(1) k(1) show "rank ((h @ [e]) ! ((k - 1) div 2)) \<le> rank ((h @ [e]) ! k)"
      by (simp add: heap_def nth_append)
  next
    fix k assume "0 < k" "k < length (h @ [e])" "(k - 1) div 2 = length h"
    then have False by auto
    then show "rank ((h @ [e]) ! ((length h - 1) div 2)) \<le> rank ((h @ [e]) ! k)" ..
  qed (use assms in \<open>auto simp: heap_def\<close>)
  from sift_up_heap [OF this] show ?thesis by (simp add: pqueue_add_def)
qed

lemma pqueue_remove_heap:
  assumes h: "heap h" "h \<noteq> []"
  shows "\<exists>e h'. pqueue_remove lt h = Ok (e, h') \<and> heap h' \<and> mset h = add_mset e (mset h')
    \<and> (\<forall>x \<in> set h. rank e \<le> rank x)"
proof -
  let ?b = "butlast (h[0 := last h])"
  obtain e t where et: "h = e # t" using h(2) by (cases h) auto
  have mb: "mset h = add_mset e (mset ?b)"
  proof (cases "t = []")
    case False
    have "mset t = add_mset (last t) (mset (butlast t))"
      using arg_cong [OF append_butlast_last_id [OF False], of mset] by simp
    with False show ?thesis by (simp add: et)
  qed (simp add: et)
  have nth: "?b ! k = h ! k" if "0 < k" "k < length ?b" for k
    using that by (simp add: nth_butlast)
  have "down_inv ?b 0"
    unfolding down_inv_def
  proof (intro conjI allI impI)
    show "\<forall>x \<in> set ?b. valid x"
      using h(1) mb unfolding heap_def by (metis insert_iff set_mset_add_mset_insert set_mset_mset)
    fix k assume k: "0 < k" "k < length ?b" "(k - 1) div 2 \<noteq> 0"
    then have "(k - 1) div 2 < length ?b" by auto
    with k h(1) show "rank (?b ! ((k - 1) div 2)) \<le> rank (?b ! k)"
      by (simp add: nth heap_def)
  qed simp
  from sift_down_heap [OF this] obtain h' where
    h': "sift_down lt ?b 0 = Ok h'" "heap h'" "mset h' = mset ?b" by blast
  have "rank e \<le> rank x" if "x \<in> set h" for x
    using that heap_least [OF h(1)] et by (metis in_set_conv_nth nth_Cons_0)
  with h' mb et show ?thesis by (auto simp: pqueue_remove_def)
qed

end

section \<open>The queue of the merged iterator\<close>

text \<open>Entries are ordered by key; among equal keys, the one of the newest table comes first.\<close>

definition pq_rank :: "reftable_env \<Rightarrow> pq_entry \<Rightarrow> bytes \<times> int" where
  "pq_rank E e = (key_of E (pq_rec e), - int (pq_index e))"

definition pq_valid :: "reftable_env \<Rightarrow> byte \<Rightarrow> nat \<Rightarrow> pq_entry \<Rightarrow> bool" where
  "pq_valid E typ len e \<longleftrightarrow> be64_ok E \<and> cmp_ok typ len (pq_rec e)"

interpretation pq: ranked_less "pq_valid E typ len" pq_less "pq_rank E" for E "typ" len
proof unfold_locales
  fix a b assume v: "pq_valid E typ len a" "pq_valid E typ len b"
  then obtain c where c: "reftable_record_cmp (pq_rec a) (pq_rec b) = Ok c"
    "sgn c = order_sign (key_of E (pq_rec a)) (key_of E (pq_rec b))"
    using record_cmp_sign [of E "typ" len "pq_rec a" "pq_rec b"] by (auto simp: pq_valid_def)
  have "c = 0 \<longleftrightarrow> key_of E (pq_rec a) = key_of E (pq_rec b)" "c < 0 \<longleftrightarrow> key_of E (pq_rec a) < key_of E (pq_rec b)"
    using c(2) order_sign_simps by (metis sgn_0_0, metis sgn_less)
  then show "pq_less a b = Ok (pq_rank E a < pq_rank E b)"
    by (auto simp: pq_less_def c(1) pq_rank_def less_prod_def le_less)
qed

end
