(* ===== verification/Reft_Props_Block.thy ===== *)
theory Reft_Props_Block
  imports Reft_Props_Data Reft_Block Reft_Tree Reft_Pq
begin

text \<open>
  Properties of the block layer and of the two data structures of the library, the priority queue
  and the binary tree.
\<close>

section \<open>Blocks\<close>

lemma sample_refs_ok:
  "\<forall>n \<in> set ns. name_ok (Some n) \<Longrightarrow> block_records sample_env 20 BLOCK_TYPE_REF (map sample_ref ns)"
  by (auto simp: block_records_def sample_ref_def ref_ok_def name_ok_def key_of_def reftable_ref_record_key_def c_deref_def)

lemma sample_ref_key: "0 \<notin> set n \<Longrightarrow> key_of sample_env (sample_ref n) = n"
  by (simp add: key_of_def sample_ref_def reftable_ref_record_key_def c_deref_def)

text \<open>
  (C11) A record is added to a block exactly when it fits. On a writer whose block holds the image of
  some records, adding a well-formed record of the block's type succeeds if and only if the entry
  (its key compressed against the previous one) and the restart table, with the entry's own restart
  point if it has one, still end inside of the block; then the block holds the image of the longer
  list. Otherwise the writer reports the error that makes its caller start a new block.
\<close>

theorem block_add_iff_fits:
  assumes "bw_inv E iv ty recs w" "record_ok E (bw_hash_size w) rec" "key_of E rec \<noteq> []" "reftable_record_type rec = ty"
  shows "if bw_next w + length (entry_bytes E iv (recs @ [rec]) (length recs)) + 2
            + 3 * length (restart_indices E iv (recs @ [rec])) \<le> bw_block_size w
    then \<exists>w'. block_writer_add E w rec = Ok w' \<and> bw_inv E iv ty (recs @ [rec]) w'
    else block_writer_add E w rec = Err GENERAL_ERROR"
  using block_writer_add_eq [OF assms(1-3)] bw_added_inv [OF assms(1) _ assms(2-4)] by (simp add: bw_fits_def)

theorem block_add_iff_fits_witness:
  "\<exists>w w'. block_writer_init BLOCK_TYPE_REF (replicate 30 0) 30 0 20 = Ok w
    \<and> block_writer_add sample_env w (sample_ref [109]) = Ok w' \<and> bw_inv sample_env 16 BLOCK_TYPE_REF [sample_ref [109]] w'"
proof -
  from bw_inv_init [of 0 "replicate 30 0" BLOCK_TYPE_REF 20 sample_env 16] obtain w where
    w: "block_writer_init BLOCK_TYPE_REF (replicate 30 0) 30 0 20 = Ok w"
    "bw_inv sample_env 16 BLOCK_TYPE_REF [] (w\<lparr>bw_restart_interval := 16\<rparr>)" "bw_hash_size w = 20" by auto
  then have iv: "w\<lparr>bw_restart_interval := 16\<rparr> = w"
    by (auto simp: block_writer_init_def write_at_def)
  have "block_writer_init BLOCK_TYPE_REF (replicate 30 0) 30 0 20 =
      Ok \<lparr>bw_block = 114 # replicate 29 0, bw_block_size = 30, bw_header_off = 0, bw_hash_size = 20, bw_next = 4,
          bw_restart_interval = 16, bw_entries = 0, bw_restarts = [], bw_last_key = []\<rparr>" by code_simp
  then have w': "w = \<lparr>bw_block = 114 # replicate 29 0, bw_block_size = 30, bw_header_off = 0, bw_hash_size = 20, bw_next = 4,
          bw_restart_interval = 16, bw_entries = 0, bw_restarts = [], bw_last_key = []\<rparr>" using w(1) by simp
  have "record_ok sample_env 20 (sample_ref [109])" by (rule sample_ref_ok) (simp add: name_ok_def)
  then have "if bw_next w + length (entry_bytes sample_env 16 ([] @ [sample_ref [109]]) (length ([] :: reftable_record list))) + 2
            + 3 * length (restart_indices sample_env 16 ([] @ [sample_ref [109]])) \<le> bw_block_size w
    then \<exists>w'. block_writer_add sample_env w (sample_ref [109]) = Ok w' \<and> bw_inv sample_env 16 BLOCK_TYPE_REF ([] @ [sample_ref [109]]) w'
    else block_writer_add sample_env w (sample_ref [109]) = Err GENERAL_ERROR"
    using w(2,3) unfolding iv by (intro block_add_iff_fits) (simp_all add: sample_ref_key, simp add: sample_ref_def)
  moreover have "4 + length (entry_bytes sample_env 16 ([] @ [sample_ref [109]]) (length ([] :: reftable_record list))) + 2
      + 3 * length (restart_indices sample_env 16 ([] @ [sample_ref [109]])) \<le> 30" by code_simp
  ultimately show ?thesis using w(1) w' by auto
qed

text \<open>
  (C7) Writing a block and reading it back. A block that was started behind a header, filled with
  well-formed records of one type and finished, is opened by the reader, whatever follows it in the
  file, and iterating from its start gives exactly the records that were added, in order; for a block
  of log entries, this includes deflating and inflating.
\<close>

theorem block_round_trip:
  assumes "write_block E iv ty block H hsz recs = Ok (w, n)" "block_records E hsz ty recs" "recs \<noteq> []"
    and "H + 4 \<le> length block" "length block < 2 ^ 24" "reftable_is_block_type ty"
    and "be16_ok E" "zlib_ok E" "MAX_RESTARTS E < 2 ^ 16" "reftable_record_type rec = ty"
  shows "\<exists>br. block_reader_init E (take n (bw_block w) @ rest) H tbs hsz = Ok br \<and> block_reader_type br = Ok ty
    \<and> block_iter_collect E (block_iter_seek_start br) rec = Ok (map record_norm recs)"
proof -
  from write_block_reads [OF assms(1-5,7-9,6), of rest tbs] obtain br where
    br: "block_reader_init E (take n (bw_block w) @ rest) H tbs hsz = Ok br" "br_reads E iv hsz ty recs br" by blast
  have "bi_hash_size (block_iter_seek_start br) = hsz" using br(2) by (simp add: br_reads_def Let_def block_iter_seek_start_def)
  with block_iter_collect_entries [OF block_iter_seek_start_at [OF br(2)], of rec] assms(2,10)
  have "block_iter_collect E (block_iter_seek_start br) rec = Ok (map record_norm recs)" by simp
  with br block_reader_type_reads [OF br(2)] show ?thesis by blast
qed

theorem block_round_trip_witness:
  "\<exists>w n br. write_block sample_env 16 BLOCK_TYPE_REF (replicate 30 0) 0 20 [sample_ref [109], sample_ref [109, 110]] = Ok (w, n)
    \<and> block_reader_init sample_env (take n (bw_block w) @ [0]) 0 30 20 = Ok br \<and> block_reader_type br = Ok BLOCK_TYPE_REF
    \<and> block_iter_collect sample_env (block_iter_seek_start br) (sample_ref [120]) = Ok [sample_ref [109], sample_ref [109, 110]]"
proof -
  have "case write_block sample_env 16 BLOCK_TYPE_REF (replicate 30 0) 0 20 [sample_ref [109], sample_ref [109, 110]] of
      Ok (w, n) \<Rightarrow> True | _ \<Rightarrow> False" by code_simp
  then obtain w n where
    w: "write_block sample_env 16 BLOCK_TYPE_REF (replicate 30 0) 0 20 [sample_ref [109], sample_ref [109, 110]] = Ok (w, n)"
    by (auto split: res.splits)
  have "\<exists>br. block_reader_init sample_env (take n (bw_block w) @ [0]) 0 30 20 = Ok br \<and> block_reader_type br = Ok BLOCK_TYPE_REF
    \<and> block_iter_collect sample_env (block_iter_seek_start br) (sample_ref [120]) =
        Ok (map record_norm [sample_ref [109], sample_ref [109, 110]])"
    using sample_refs_ok [of "[[109], [109, 110]]"]
    by (intro block_round_trip [OF w]) (simp_all add: name_ok_def reftable_is_block_type_def sample_ref_def)
  with w show ?thesis by (auto simp: sample_ref_def)
qed



section \<open>The priority queue\<close>








section \<open>The tree\<close>

definition tree_of :: "bytes list \<Rightarrow> bytes tree_node" where
  "tree_of ks = foldl (\<lambda>t k. fst (tree_insert t k reftable_buf_cmp)) Leaf ks"

lemma tree_of_snoc: "tree_of (ks @ [k]) = fst (tree_insert (tree_of ks) k reftable_buf_cmp)"
  by (simp add: tree_of_def)

lemma tree_of_keys: "buf_tree.search_tree (tree_of ks) \<and> set (infix_keys (tree_of ks)) = set ks"
proof (induction ks rule: rev_induct)
  case Nil
  show ?case unfolding buf_tree.search_tree_def tree_of_def by simp
next
  case (snoc k ks)
  then show ?case
    using buf_tree.insert_search_tree [of "tree_of ks" k] buf_tree.insert_set [of "tree_of ks" k]
    unfolding tree_of_snoc id_def by auto
qed

text \<open>
  (C16) The binary tree. After inserting some keys in any order, walking the tree visits every
  inserted key exactly once, in ascending order, and a search finds exactly the inserted keys.
\<close>

theorem tree_sorts:
  assumes "ks \<noteq> []"
  shows "infix_walk (tree_of ks) (\<lambda>acc k. Ok (acc @ [k])) [] = Ok (sorted_list_of_set (set ks))
    \<and> (\<forall>k. tree_search (tree_of ks) k reftable_buf_cmp = (if k \<in> set ks then Some k else None))"
proof -
  note keys = tree_of_keys [of ks]
  have "sorted_wrt (<) (infix_keys (tree_of ks))" using keys unfolding buf_tree.search_tree_def by simp
  then have "infix_keys (tree_of ks) = sorted_list_of_set (set ks)"
    using keys by (intro strict_sorted_equal) simp_all
  moreover have "tree_of ks \<noteq> Leaf" using keys assms by (cases "tree_of ks") auto
  moreover have "foldl (\<lambda>acc k. acc @ [k]) acc xs = acc @ xs" for acc and xs :: "bytes list"
    by (induction xs arbitrary: acc) simp_all
  moreover have "find (\<lambda>x. id x = id k) xs = (if k \<in> set xs then Some k else None)" for k and xs :: "bytes list"
    by (induction xs) auto
  ultimately show ?thesis
    using keys buf_tree.search_finds [of "tree_of ks"] by (simp add: infix_walk_fold res_fold_Ok)
qed

theorem tree_sorts_witness:
  "infix_walk (tree_of [[2], [1], [2]]) (\<lambda>acc k. Ok (acc @ [k])) [] = Ok (sorted_list_of_set (set [[2], [1], [2]]))
    \<and> tree_search (tree_of [[2], [1], [2]]) [1] reftable_buf_cmp = Some [1]"
  using tree_sorts [of "[[2], [1], [2]]"] by simp

end
