(* ===== verification/Reft_Iter.thy ===== *)
theory Reft_Iter
  imports Reft_Record
begin

text \<open>
  Iterators (\<open>reftable_iter.c\<close>). \<open>struct reftable_iterator\<close> is a state and a table of functions;
  here, the table is a record of functions on the type of the states. A seek tells whether C
  returns zero or a positive number; a step gives the next record, or none at the end. The
  iterator over an object index needs the table reader and is defined with it.
\<close>

section \<open>The interface\<close>

record 'i iterator_ops =
  op_seek :: "'i \<Rightarrow> reftable_record \<Rightarrow> ('i \<times> bool) run"
  op_next :: "'i \<Rightarrow> reftable_record \<Rightarrow> ('i \<times> reftable_record option) run"

definition iterator_seek :: "'i iterator_ops \<Rightarrow> 'i \<Rightarrow> reftable_record \<Rightarrow> ('i \<times> bool) run" where
  "iterator_seek ops it want = op_seek ops it want"

definition iterator_next ::
  "'i iterator_ops \<Rightarrow> 'i \<Rightarrow> reftable_record \<Rightarrow> ('i \<times> reftable_record option) run" where
  "iterator_next ops it rec = op_next ops it rec"

definition reftable_iterator_seek_ref :: "'i iterator_ops \<Rightarrow> 'i \<Rightarrow> bytes \<Rightarrow> ('i \<times> bool) run" where
  "reftable_iterator_seek_ref ops it name =
     op_seek ops it (Rec_Ref \<lparr>ref_name = Some name, ref_update_index = 0, ref_value = Ref_Deletion\<rparr>)"

definition reftable_iterator_next_ref ::
  "'i iterator_ops \<Rightarrow> 'i \<Rightarrow> ref_record \<Rightarrow> ('i \<times> ref_record option) run" where
  "reftable_iterator_next_ref ops it ref =
     run_bind (iterator_next ops it (Rec_Ref ref)) (\<lambda>(it, r). case r of
        None \<Rightarrow> Some (Ok (it, None))
      | Some (Rec_Ref ref) \<Rightarrow> Some (Ok (it, Some ref))
      | Some _ \<Rightarrow> Some (Crash Bug))"

definition reftable_iterator_seek_log_at ::
  "'i iterator_ops \<Rightarrow> 'i \<Rightarrow> bytes \<Rightarrow> u64 \<Rightarrow> ('i \<times> bool) run" where
  "reftable_iterator_seek_log_at ops it name update_index =
     op_seek ops it (Rec_Log \<lparr>log_name = Some name, log_update_index = update_index, log_value = Log_Deletion\<rparr>)"

definition reftable_iterator_seek_log :: "'i iterator_ops \<Rightarrow> 'i \<Rightarrow> bytes \<Rightarrow> ('i \<times> bool) run" where
  "reftable_iterator_seek_log ops it name = reftable_iterator_seek_log_at ops it name (- 1)"

definition reftable_iterator_next_log ::
  "'i iterator_ops \<Rightarrow> 'i \<Rightarrow> log_record \<Rightarrow> ('i \<times> log_record option) run" where
  "reftable_iterator_next_log ops it log =
     run_bind (iterator_next ops it (Rec_Log log)) (\<lambda>(it, r). case r of
        None \<Rightarrow> Some (Ok (it, None))
      | Some (Rec_Log log) \<Rightarrow> Some (Ok (it, Some log))
      | Some _ \<Rightarrow> Some (Crash Bug))"

section \<open>The empty iterator\<close>

definition empty_iterator_seek :: "'a \<Rightarrow> reftable_record \<Rightarrow> ('a \<times> bool) run" where
  "empty_iterator_seek arg want = Some (Ok (arg, True))"

definition empty_iterator_next :: "'a \<Rightarrow> reftable_record \<Rightarrow> ('a \<times> reftable_record option) run" where
  "empty_iterator_next arg rec = Some (Ok (arg, None))"

section \<open>References to one object\<close>

record 'i filtering_ref_iterator =
  fri_oid :: bytes
  fri_it :: 'i

definition filtering_ref_iterator_seek ::
  "'i iterator_ops \<Rightarrow> 'i filtering_ref_iterator \<Rightarrow> reftable_record \<Rightarrow> ('i filtering_ref_iterator \<times> bool) run" where
  "filtering_ref_iterator_seek ops fri want =
     run_bind (iterator_seek ops (fri_it fri) want) (\<lambda>(it, b). Some (Ok (fri\<lparr>fri_it := it\<rparr>, b)))"

definition ref_matches :: "bytes \<Rightarrow> ref_record \<Rightarrow> bool" where
  "ref_matches oid ref =
     (case ref_value ref of
        Ref_Val2 v t \<Rightarrow> memcmp oid t (length oid) = 0 \<or> memcmp oid v (length oid) = 0
      | Ref_Val1 v \<Rightarrow> memcmp oid v (length oid) = 0
      | _ \<Rightarrow> False)"

partial_function (option) filtering_ref_iterator_loop ::
  "'i iterator_ops \<Rightarrow> 'i filtering_ref_iterator \<Rightarrow> ref_record \<Rightarrow> ('i filtering_ref_iterator \<times> ref_record option) run" where
  "filtering_ref_iterator_loop ops fri ref =
     run_bind (reftable_iterator_next_ref ops (fri_it fri) ref) (\<lambda>(it, r).
       let fri = fri\<lparr>fri_it := it\<rparr> in
       case r of
         None \<Rightarrow> Some (Ok (fri, None))
       | Some ref \<Rightarrow>
           if ref_matches (fri_oid fri) ref then Some (Ok (fri, Some ref))
           else filtering_ref_iterator_loop ops fri ref)"

declare filtering_ref_iterator_loop.simps [code]

definition filtering_ref_iterator_next ::
  "'i iterator_ops \<Rightarrow> 'i filtering_ref_iterator \<Rightarrow> reftable_record
   \<Rightarrow> ('i filtering_ref_iterator \<times> reftable_record option) run" where
  "filtering_ref_iterator_next ops fri rec =
     (case rec of
        Rec_Ref ref \<Rightarrow>
          run_bind (filtering_ref_iterator_loop ops fri ref) (\<lambda>(fri, r). Some (Ok (fri, map_option Rec_Ref r)))
      | _ \<Rightarrow> Some (Crash Bug))"

definition filtering_ref_iterator_vtable :: "'i iterator_ops \<Rightarrow> 'i filtering_ref_iterator iterator_ops" where
  "filtering_ref_iterator_vtable ops =
     \<lparr>op_seek = filtering_ref_iterator_seek ops, op_next = filtering_ref_iterator_next ops\<rparr>"

section \<open>Iterators over a list of records\<close>

text \<open>
  The contract of an iterator towards its clients: \<open>rep it rs\<close> says that \<open>rs\<close> is the list of the
  records still to come, all of one type, and every step returns and takes the first of them.
\<close>

locale listed_iter =
  fixes ops :: "'i iterator_ops"
    and rep :: "'i \<Rightarrow> reftable_record list \<Rightarrow> bool"
    and ty :: byte
  assumes next_end: "rep it [] \<Longrightarrow> reftable_record_type rec = ty \<Longrightarrow>
      \<exists>it'. op_next ops it rec = Some (Ok (it', None)) \<and> rep it' []"
    and next_more: "rep it (r # rs) \<Longrightarrow> reftable_record_type rec = ty \<Longrightarrow>
      \<exists>it'. op_next ops it rec = Some (Ok (it', Some r)) \<and> rep it' rs"
    and rep_type: "rep it rs \<Longrightarrow> r \<in> set rs \<Longrightarrow> reftable_record_type r = ty"

text \<open>Reading an iterator to its end.\<close>

partial_function (option) iterator_collect ::
  "'i iterator_ops \<Rightarrow> 'i \<Rightarrow> reftable_record \<Rightarrow> reftable_record list run" where
  "iterator_collect ops it rec =
     run_bind (iterator_next ops it rec) (\<lambda>(it, r). case r of
        None \<Rightarrow> Some (Ok [])
      | Some rec \<Rightarrow> run_bind (iterator_collect ops it rec) (\<lambda>recs. Some (Ok (rec # recs))))"

declare iterator_collect.simps [code]

context listed_iter
begin

lemma collect_rep:
  "rep it rs \<Longrightarrow> reftable_record_type rec = ty \<Longrightarrow> iterator_collect ops it rec = Some (Ok rs)"
proof (induction rs arbitrary: it rec)
  case Nil
  then show ?case
    using next_end [of it rec] by (auto simp: iterator_collect.simps [of ops it rec] iterator_next_def)
next
  case (Cons r rs)
  then obtain it' where it': "op_next ops it rec = Some (Ok (it', Some r))" "rep it' rs"
    using next_more [of it r rs rec] by auto
  have "reftable_record_type r = ty" using rep_type [OF Cons.prems(1)] by simp
  with Cons.IH [of it' r] it' show ?case
    by (simp add: iterator_collect.simps [of ops it rec] iterator_next_def)
qed

end

text \<open>
  Iterators that can be sought: \<open>full it rs\<close> says that \<open>rs\<close> are all the records behind the
  iterator, whatever its position. Seeking goes to the first record whose key is not below the
  wanted one; only when there is none, it may say that it has not found anything.
\<close>

locale seekable_iter = listed_iter ops rep ty
  for ops :: "'i iterator_ops" and rep :: "'i \<Rightarrow> reftable_record list \<Rightarrow> bool" and ty :: byte +
  fixes E :: reftable_env
    and full :: "'i \<Rightarrow> reftable_record list \<Rightarrow> bool"
  assumes seek_rep: "full it rs \<Longrightarrow> reftable_record_type want = ty \<Longrightarrow> reftable_record_key E want = Ok k \<Longrightarrow>
      \<exists>it' found. op_seek ops it want = Some (Ok (it', found)) \<and> full it' rs
        \<and> (if found then rep it' (dropWhile (\<lambda>r. key_of E r < k) rs) else dropWhile (\<lambda>r. key_of E r < k) rs = [])"
    and next_full: "full it rs \<Longrightarrow> op_next ops it rec = Some (Ok (it', r)) \<Longrightarrow> full it' rs"

text \<open>Seeking and reading to the end.\<close>

definition iterator_list_from :: "'i iterator_ops \<Rightarrow> 'i \<Rightarrow> reftable_record \<Rightarrow> reftable_record list run" where
  "iterator_list_from ops it want =
     run_bind (iterator_seek ops it want) (\<lambda>(it, found).
       if found then iterator_collect ops it want else Some (Ok []))"

context seekable_iter
begin

lemma list_from_full:
  assumes "full it rs" "reftable_record_type want = ty" "reftable_record_key E want = Ok k"
  shows "iterator_list_from ops it want = Some (Ok (dropWhile (\<lambda>r. key_of E r < k) rs))"
  using seek_rep [OF assms] collect_rep [OF _ assms(2)]
  by (auto simp: iterator_list_from_def iterator_seek_def simp del: dropWhile_eq_Nil_conv split: if_splits)

end

text \<open>
  Over references, the filtering iterator keeps the contract of the iterator inside of it: it
  shows the records that have the object as their value or their peeled value.
\<close>

fun record_matches :: "bytes \<Rightarrow> reftable_record \<Rightarrow> bool" where
  "record_matches oid (Rec_Ref ref) = ref_matches oid ref"
| "record_matches oid _ = False"

definition filtering_rep ::
  "('i \<Rightarrow> reftable_record list \<Rightarrow> bool) \<Rightarrow> 'i filtering_ref_iterator \<Rightarrow> reftable_record list \<Rightarrow> bool" where
  "filtering_rep rep fri l \<longleftrightarrow> (\<exists>rs. rep (fri_it fri) rs \<and> l = filter (record_matches (fri_oid fri)) rs)"

lemma filtering_loop_rep:
  assumes it: "listed_iter ops rep BLOCK_TYPE_REF" and "rep (fri_it fri) rs"
  shows "\<exists>fri'. filtering_ref_iterator_loop ops fri ref =
      Some (Ok (fri', case filter (record_matches (fri_oid fri)) rs of
                        [] \<Rightarrow> None | Rec_Ref r # _ \<Rightarrow> Some r | _ \<Rightarrow> None))
    \<and> filtering_rep rep fri' (tl (filter (record_matches (fri_oid fri)) rs))"
  using assms(2)
proof (induction rs arbitrary: fri ref)
  case Nil
  obtain it' where "op_next ops (fri_it fri) (Rec_Ref ref) = Some (Ok (it', None))" "rep it' []"
    using listed_iter.next_end [OF it Nil, of "Rec_Ref ref"] by auto
  then show ?case
    by (auto simp: filtering_ref_iterator_loop.simps [of ops fri] reftable_iterator_next_ref_def
        iterator_next_def filtering_rep_def intro: exI [of _ "[]"])
next
  case (Cons r rs)
  obtain it' where it': "op_next ops (fri_it fri) (Rec_Ref ref) = Some (Ok (it', Some r))" "rep it' rs"
    using listed_iter.next_more [OF it Cons.prems, of "Rec_Ref ref"] by auto
  have "reftable_record_type r = BLOCK_TYPE_REF"
    using listed_iter.rep_type [OF it Cons.prems] by simp
  then obtain r' where r': "r = Rec_Ref r'" by (cases r) (auto simp: block_type_defs)
  have step: "filtering_ref_iterator_loop ops fri ref =
      (if ref_matches (fri_oid fri) r' then Some (Ok (fri\<lparr>fri_it := it'\<rparr>, Some r'))
       else filtering_ref_iterator_loop ops (fri\<lparr>fri_it := it'\<rparr>) r')"
    using it'(1) by (simp add: filtering_ref_iterator_loop.simps [of ops fri] reftable_iterator_next_ref_def
        iterator_next_def r')
  show ?case
    using Cons.IH [of "fri\<lparr>fri_it := it'\<rparr>" r'] it'(2)
    by (auto simp: step r' filtering_rep_def)
qed

lemma filtering_listed_iter:
  assumes "listed_iter ops rep BLOCK_TYPE_REF"
  shows "listed_iter (filtering_ref_iterator_vtable ops) (filtering_rep rep) BLOCK_TYPE_REF"
proof
  fix fri :: "'a filtering_ref_iterator" and rec r rs
  let ?ops = "filtering_ref_iterator_vtable ops"
  assume ty: "reftable_record_type rec = BLOCK_TYPE_REF"
  then obtain ref where ref: "rec = Rec_Ref ref" by (cases rec) (auto simp: block_type_defs)
  show "\<exists>it'. op_next ?ops fri rec = Some (Ok (it', None)) \<and> filtering_rep rep it' []" if "filtering_rep rep fri []"
  proof -
    from that obtain xs where xs: "rep (fri_it fri) xs" "filter (record_matches (fri_oid fri)) xs = []"
      by (auto simp: filtering_rep_def)
    from filtering_loop_rep [OF assms xs(1), of ref] xs(2) show ?thesis
      by (auto simp: filtering_ref_iterator_vtable_def filtering_ref_iterator_next_def ref)
  qed
  show "\<exists>it'. op_next ?ops fri rec = Some (Ok (it', Some r)) \<and> filtering_rep rep it' rs" if "filtering_rep rep fri (r # rs)"
  proof -
    from that obtain xs where xs: "rep (fri_it fri) xs" "filter (record_matches (fri_oid fri)) xs = r # rs"
      by (auto simp: filtering_rep_def)
    then have "record_matches (fri_oid fri) r" by (metis filter_eq_ConsD)
    then obtain r' where r': "r = Rec_Ref r'" by (cases r) auto
    from filtering_loop_rep [OF assms xs(1), of ref] xs(2) r' show ?thesis
      by (auto simp: filtering_ref_iterator_vtable_def filtering_ref_iterator_next_def ref)
  qed
next
  fix fri :: "'a filtering_ref_iterator" and rs r
  assume "filtering_rep rep fri rs" "r \<in> set rs"
  then have "record_matches (fri_oid fri) r" by (auto simp: filtering_rep_def)
  then show "reftable_record_type r = BLOCK_TYPE_REF" by (cases r) simp_all
qed

end
