(* ===== verification/Reft_Reader.thy ===== *)
theory Reft_Reader
  imports Reft_Block Reft_Iter
begin

unbundle bit_operations_syntax

text \<open>
  Block sources (\<open>reftable_blocksource.c\<close>), the reader of one table with its iterator
  (\<open>reftable_reader.c\<close>), and the iterator over the blocks that an object record points to (the
  rest of \<open>reftable_iter.c\<close>). File offsets are natural numbers; the two places where they can
  wrap around 64 bits, in the size of a short file, are written out.
\<close>

section \<open>Block sources\<close>

record block_source =
  bs_size :: nat
  bs_read_block :: "nat \<Rightarrow> nat \<Rightarrow> bytes res"

definition reftable_buf_read_block :: "reftable_env \<Rightarrow> bytes \<Rightarrow> nat \<Rightarrow> nat \<Rightarrow> bytes res" where
  "reftable_buf_read_block E b off sz =
     (if \<not> (off + sz) mod 2 ^ 64 \<le> length b then Crash Assert_Failed
      else if \<not> alloc_array E sz then Err GENERAL_ERROR
      else read_at off sz b)"

definition reftable_buf_size :: "bytes \<Rightarrow> nat" where
  "reftable_buf_size b = length b"

definition block_source_from_buf :: "reftable_env \<Rightarrow> bytes \<Rightarrow> block_source" where
  "block_source_from_buf E b = \<lparr>bs_size = reftable_buf_size b, bs_read_block = reftable_buf_read_block E b\<rparr>"

definition file_read_block :: "bytes \<Rightarrow> nat \<Rightarrow> nat \<Rightarrow> bytes res" where
  "file_read_block b off sz =
     (if \<not> (off + sz) mod 2 ^ 64 \<le> length b then Crash Assert_Failed else read_at off sz b)"

definition file_size :: "bytes \<Rightarrow> nat" where
  "file_size b = length b"

text \<open>A file that has been mapped; opening and mapping it are system calls.\<close>

definition block_source_from_file :: "bytes \<Rightarrow> block_source" where
  "block_source_from_file b = \<lparr>bs_size = file_size b, bs_read_block = file_read_block b\<rparr>"

definition block_source_size :: "block_source \<Rightarrow> nat" where
  "block_source_size source = bs_size source"

definition block_source_read_block :: "block_source \<Rightarrow> nat \<Rightarrow> nat \<Rightarrow> bytes res" where
  "block_source_read_block source off sz = bs_read_block source off sz"

section \<open>Tables\<close>

record reader_offsets =
  ro_is_present :: bool
  ro_offset :: nat
  ro_index_offset :: nat

record reftable_reader =
  rd_source :: block_source
  rd_name :: bytes
  rd_size :: nat
  rd_hash_id :: reftable_hash
  rd_block_size :: nat
  rd_min_update_index :: u64
  rd_max_update_index :: u64
  rd_object_id_len :: nat
  rd_version :: nat
  rd_ref_offsets :: reader_offsets
  rd_obj_offsets :: reader_offsets
  rd_log_offsets :: reader_offsets
  rd_refcount :: nat

definition reader_offsets_for :: "reftable_reader \<Rightarrow> byte \<Rightarrow> reader_offsets res" where
  "reader_offsets_for r typ =
     (if typ = BLOCK_TYPE_REF then Ok (rd_ref_offsets r)
      else if typ = BLOCK_TYPE_LOG then Ok (rd_log_offsets r)
      else if typ = BLOCK_TYPE_OBJ then Ok (rd_obj_offsets r)
      else Crash Abort)"

definition reader_get_block :: "reftable_reader \<Rightarrow> nat \<Rightarrow> nat \<Rightarrow> bytes res" where
  "reader_get_block r off sz =
     (if off \<ge> rd_size r then Ok []
      else let sz = (if off + sz > rd_size r then rd_size r - off else sz) in
        block_source_read_block (rd_source r) off sz)"

definition REFT :: bytes where
  "REFT = [82, 69, 70, 84]"

definition parse_footer :: "reftable_env \<Rightarrow> reftable_reader \<Rightarrow> bytes \<Rightarrow> bytes \<Rightarrow> reftable_reader res" where
  "parse_footer E r footer header =
     (if memcmp footer REFT 4 \<noteq> 0 then Err FORMAT_ERROR
      else res_bind (header_size (rd_version r)) (\<lambda>hlen.
      if memcmp footer header hlen \<noteq> 0 then Err FORMAT_ERROR
      else res_bind (get_be24 (drop 5 footer)) (\<lambda>block_size.
      res_bind
        (if rd_version r = 1 then Ok HASH_SHA1
         else if get_be32 E (drop 24 footer) = FORMAT_ID_SHA1 E then Ok HASH_SHA1
         else if get_be32 E (drop 24 footer) = FORMAT_ID_SHA256 E then Ok HASH_SHA256
         else Err FORMAT_ERROR) (\<lambda>hash_id.
      let f = (if rd_version r = 1 then 24 else 28);
          ref_index = get_be64 E (drop f footer);
          obj_off = get_be64 E (drop (f + 8) footer);
          obj_index = get_be64 E (drop (f + 16) footer);
          log_off = get_be64 E (drop (f + 24) footer);
          log_index = get_be64 E (drop (f + 32) footer);
          computed_crc = crc32 E (take (f + 40) footer);
          file_crc = get_be32 E (drop (f + 40) footer) in
      if computed_crc \<noteq> file_crc then Err FORMAT_ERROR
      else if \<not> hlen < length header then Crash Out_Of_Bounds
      else let first_block_typ = header ! hlen;
          object_id_len = unat (obj_off AND 0x1f);
          obj_off = drop_bit 5 obj_off in
      if obj_off > 0 \<and> object_id_len = 0 then Err FORMAT_ERROR
      else Ok (r\<lparr>rd_block_size := unat block_size,
                 rd_min_update_index := get_be64 E (drop 8 footer),
                 rd_max_update_index := get_be64 E (drop 16 footer),
                 rd_hash_id := hash_id, rd_object_id_len := object_id_len,
                 rd_ref_offsets := \<lparr>ro_is_present = (first_block_typ = BLOCK_TYPE_REF), ro_offset = 0,
                                    ro_index_offset = unat ref_index\<rparr>,
                 rd_log_offsets := \<lparr>ro_is_present = (first_block_typ = BLOCK_TYPE_LOG \<or> log_off > 0),
                                    ro_offset = unat log_off, ro_index_offset = unat log_index\<rparr>,
                 rd_obj_offsets := \<lparr>ro_is_present = (obj_off > 0), ro_offset = unat obj_off,
                                    ro_index_offset = unat obj_index\<rparr>\<rparr>)))))"

definition empty_offsets :: reader_offsets where
  "empty_offsets = \<lparr>ro_is_present = False, ro_offset = 0, ro_index_offset = 0\<rparr>"

definition reftable_reader_new :: "reftable_env \<Rightarrow> block_source \<Rightarrow> bytes \<Rightarrow> reftable_reader res" where
  "reftable_reader_new E source name =
     (let file_size = block_source_size source in
      res_bind (header_size 2) (\<lambda>hlen.
      let read_size = hlen + 1 in
      if read_size > file_size then Err FORMAT_ERROR
      else res_bind (or_error IO_ERROR (block_source_read_block source 0 read_size)) (\<lambda>header.
      if length header \<noteq> read_size then Err IO_ERROR
      else if memcmp header REFT 4 \<noteq> 0 then Err FORMAT_ERROR
      else let version = unat (header ! 4) in
      if version \<noteq> 1 \<and> version \<noteq> 2 then Err FORMAT_ERROR
      else res_bind (footer_size version) (\<lambda>flen.
      let sz = nat ((int file_size - int flen) mod 2 ^ 64) in
      res_bind (or_error IO_ERROR (block_source_read_block source sz flen)) (\<lambda>footer.
      if length footer \<noteq> flen then Err IO_ERROR
      else parse_footer E
        \<lparr>rd_source = source, rd_name = c_str name, rd_size = sz, rd_hash_id = HASH_NONE, rd_block_size = 0,
         rd_min_update_index = 0, rd_max_update_index = 0, rd_object_id_len = 0, rd_version = version,
         rd_ref_offsets = empty_offsets, rd_obj_offsets = empty_offsets, rd_log_offsets = empty_offsets,
         rd_refcount = 1\<rparr> footer header)))))"

definition reftable_reader_incref :: "reftable_reader \<Rightarrow> reftable_reader res" where
  "reftable_reader_incref r =
     (if rd_refcount r = 0 then Crash Bug else Ok (r\<lparr>rd_refcount := rd_refcount r + 1\<rparr>))"

text \<open>The last reference closes the source and frees the reader: \<open>None\<close>.\<close>

definition reftable_reader_decref :: "reftable_reader option \<Rightarrow> reftable_reader option res" where
  "reftable_reader_decref p =
     (case p of
        None \<Rightarrow> Ok None
      | Some r \<Rightarrow>
          if rd_refcount r = 0 then Crash Bug
          else if rd_refcount r - 1 \<noteq> 0 then Ok (Some (r\<lparr>rd_refcount := rd_refcount r - 1\<rparr>))
          else Ok None)"

definition reftable_reader_hash_id :: "reftable_reader \<Rightarrow> reftable_hash" where
  "reftable_reader_hash_id r = rd_hash_id r"

definition reftable_reader_max_update_index :: "reftable_reader \<Rightarrow> u64" where
  "reftable_reader_max_update_index r = rd_max_update_index r"

definition reftable_reader_min_update_index :: "reftable_reader \<Rightarrow> u64" where
  "reftable_reader_min_update_index r = rd_min_update_index r"

section \<open>Blocks of a table\<close>

definition extract_block_size :: "bytes \<Rightarrow> nat \<Rightarrow> nat \<Rightarrow> (byte \<times> nat) res" where
  "extract_block_size data off version =
     res_bind (if off = 0 then header_size version else Ok 0) (\<lambda>skip.
     res_bind (read_at skip 1 data) (\<lambda>typ.
       let typ = hd typ in
       if reftable_is_block_type typ
       then res_bind (get_be24 (drop (skip + 1) data)) (\<lambda>sz. Ok (typ, unat sz))
       else Ok (typ, 0)))"

definition BLOCK_TYPE_ANY :: byte where
  "BLOCK_TYPE_ANY = 0"

definition reader_init_block_reader ::
  "reftable_env \<Rightarrow> reftable_reader \<Rightarrow> nat \<Rightarrow> byte \<Rightarrow> block_reader option res" where
  "reader_init_block_reader E r next_off want_typ =
     (let guess_block_size = (if rd_block_size r \<noteq> 0 then rd_block_size r else DEFAULT_BLOCK_SIZE E) in
      res_bind (if next_off \<noteq> 0 then Ok 0 else header_size (rd_version r)) (\<lambda>header_off.
      if next_off \<ge> rd_size r then Ok None
      else res_bind (reader_get_block r next_off guess_block_size) (\<lambda>block.
      res_bind (extract_block_size block next_off (rd_version r)) (\<lambda>(block_typ, block_size).
      if want_typ \<noteq> BLOCK_TYPE_ANY \<and> block_typ \<noteq> want_typ then Ok None
      else res_bind (if block_size > guess_block_size then reader_get_block r next_off block_size
                     else Ok block) (\<lambda>block.
      res_bind (hash_size E (rd_hash_id r)) (\<lambda>hsz.
      res_bind (block_reader_init E block header_off (rd_block_size r) hsz) (\<lambda>br. Ok (Some br))))))))"

section \<open>Iterating over a table\<close>

record table_iter =
  ti_r :: reftable_reader
  ti_typ :: byte
  ti_block_off :: nat
  ti_br :: block_reader
  ti_bi :: block_iter
  ti_is_finished :: bool

definition zero_block_reader :: block_reader where
  "zero_block_reader = \<lparr>br_data = [], br_hash_size = 0, br_block_len = 0, br_full_block_size = 0,
     br_header_off = 0, br_restart_count = 0, br_restart_start = 0\<rparr>"

definition zero_block_iter :: block_iter where
  "zero_block_iter = \<lparr>bi_block = [], bi_block_len = 0, bi_hash_size = 0, bi_last_key = [], bi_next_off = 0\<rparr>"

definition table_iter_init :: "reftable_reader \<Rightarrow> table_iter res" where
  "table_iter_init r =
     res_bind (reftable_reader_incref r) (\<lambda>r.
       Ok \<lparr>ti_r = r, ti_typ = 0, ti_block_off = 0, ti_br = zero_block_reader, ti_bi = zero_block_iter,
           ti_is_finished = False\<rparr>)"

fun add_update_index :: "u64 \<Rightarrow> reftable_record \<Rightarrow> reftable_record" where
  "add_update_index base (Rec_Ref r) = Rec_Ref (r\<lparr>ref_update_index := ref_update_index r + base\<rparr>)"
| "add_update_index base rec = rec"

definition table_iter_next_in_block ::
  "reftable_env \<Rightarrow> table_iter \<Rightarrow> reftable_record \<Rightarrow> (table_iter \<times> reftable_record) option res" where
  "table_iter_next_in_block E ti rec =
     res_bind (block_iter_next E (ti_bi ti) rec) (\<lambda>r. case r of
        None \<Rightarrow> Ok None
      | Some (bi, rec) \<Rightarrow>
          Ok (Some (ti\<lparr>ti_bi := bi\<rparr>, add_update_index (rd_min_update_index (ti_r ti)) rec)))"

definition table_iter_block_done :: "table_iter \<Rightarrow> table_iter" where
  "table_iter_block_done ti = ti\<lparr>ti_bi := block_iter_reset (ti_bi ti)\<rparr>"

definition table_iter_next_block :: "reftable_env \<Rightarrow> table_iter \<Rightarrow> (table_iter \<times> bool) res" where
  "table_iter_next_block E ti =
     (let next_block_off = ti_block_off ti + br_full_block_size (ti_br ti) in
      res_bind (reader_init_block_reader E (ti_r ti) next_block_off (ti_typ ti)) (\<lambda>br. case br of
        None \<Rightarrow> Ok (ti\<lparr>ti_is_finished := True\<rparr>, False)
      | Some br \<Rightarrow>
          Ok (ti\<lparr>ti_br := br, ti_block_off := next_block_off, ti_is_finished := False,
                 ti_bi := block_iter_seek_start br\<rparr>, True)))"

text \<open>
  A block reader always covers some bytes, so that the block offset grows from block to block. Only
  an iterator that has not been positioned yet may stay on its offset, once.
\<close>

definition ti_measure :: "table_iter \<Rightarrow> nat" where
  "ti_measure ti = 2 * (rd_size (ti_r ti) - ti_block_off ti)
     + (if br_full_block_size (ti_br ti) = 0 then 1 else 0)"

lemma block_reader_init_full_size:
  assumes "block_reader_init E data header_off tbs hsz = Ok br"
  shows "br_full_block_size br > 0"
  using assms
  by (auto simp: block_reader_init_def res_bind_eq_Ok block_inflate_def Let_def
      split: if_splits option.splits prod.splits)

lemma table_iter_next_block_decreases:
  assumes "table_iter_next_block E ti = Ok (ti', True)"
  shows "ti_measure ti' < ti_measure ti" "ti_r ti' = ti_r ti" "ti_typ ti' = ti_typ ti"
proof -
  from assms obtain br where
    br: "reader_init_block_reader E (ti_r ti) (ti_block_off ti + br_full_block_size (ti_br ti)) (ti_typ ti) = Ok (Some br)"
    and ti': "ti' = ti\<lparr>ti_br := br, ti_block_off := ti_block_off ti + br_full_block_size (ti_br ti),
      ti_is_finished := False, ti_bi := block_iter_seek_start br\<rparr>"
    by (auto simp: table_iter_next_block_def res_bind_eq_Ok Let_def split: option.splits)
  from br have "br_full_block_size br > 0" "ti_block_off ti + br_full_block_size (ti_br ti) < rd_size (ti_r ti)"
    by (auto simp: reader_init_block_reader_def res_bind_eq_Ok Let_def split: if_splits
        dest: block_reader_init_full_size)
  then show "ti_measure ti' < ti_measure ti" "ti_r ti' = ti_r ti" "ti_typ ti' = ti_typ ti"
    by (auto simp: ti' ti_measure_def)
qed

function table_iter_next_loop ::
  "reftable_env \<Rightarrow> table_iter \<Rightarrow> reftable_record \<Rightarrow> (table_iter \<times> reftable_record option) res" where
  "table_iter_next_loop E ti rec =
     (if ti_is_finished ti then Ok (ti, None)
      else case table_iter_next_in_block E ti rec of
        Crash c \<Rightarrow> Crash c
      | Err e \<Rightarrow> Err e
      | Ok (Some (ti', rec')) \<Rightarrow> Ok (ti', Some rec')
      | Ok None \<Rightarrow>
          (case table_iter_next_block E ti of
             Crash c \<Rightarrow> Crash c
           | Err e \<Rightarrow> Err e
           | Ok (ti', found) \<Rightarrow>
               if found then table_iter_next_loop E ti' rec
               else Ok (ti'\<lparr>ti_is_finished := True\<rparr>, None)))"
  by pat_completeness auto
termination
  by (relation "measure (\<lambda>(E, ti, rec). ti_measure ti)") (auto dest: table_iter_next_block_decreases)

declare table_iter_next_loop.simps [simp del]

definition table_iter_next ::
  "reftable_env \<Rightarrow> table_iter \<Rightarrow> reftable_record \<Rightarrow> (table_iter \<times> reftable_record option) res" where
  "table_iter_next E ti rec =
     (if reftable_record_type rec \<noteq> ti_typ ti then Err API_ERROR else table_iter_next_loop E ti rec)"

definition table_iter_seek_to :: "reftable_env \<Rightarrow> table_iter \<Rightarrow> nat \<Rightarrow> byte \<Rightarrow> (table_iter \<times> bool) res" where
  "table_iter_seek_to E ti off typ =
     res_bind (reader_init_block_reader E (ti_r ti) off typ) (\<lambda>br. case br of
        None \<Rightarrow> Ok (ti, False)
      | Some br \<Rightarrow> res_bind (block_reader_type br) (\<lambda>typ.
          Ok (ti\<lparr>ti_br := br, ti_typ := typ, ti_block_off := off, ti_bi := block_iter_seek_start br,
                 ti_is_finished := False\<rparr>, True)))"

definition table_iter_seek_start :: "reftable_env \<Rightarrow> table_iter \<Rightarrow> byte \<Rightarrow> bool \<Rightarrow> (table_iter \<times> bool) res" where
  "table_iter_seek_start E ti typ index =
     res_bind (reader_offsets_for (ti_r ti) typ) (\<lambda>offs.
       if index then
         (if ro_index_offset offs = 0 then Ok (ti, False)
          else table_iter_seek_to E ti (ro_index_offset offs) BLOCK_TYPE_INDEX)
       else table_iter_seek_to E ti (ro_offset offs) typ)"

text \<open>The scan for the last block whose first key is not beyond the wanted key.\<close>

function table_iter_scan :: "reftable_env \<Rightarrow> table_iter \<Rightarrow> bytes \<Rightarrow> table_iter res" where
  "table_iter_scan E ti want_key =
     (case table_iter_next_block E ti of
        Crash c \<Rightarrow> Crash c
      | Err e \<Rightarrow> Err e
      | Ok (ti', found) \<Rightarrow>
          if \<not> found then Ok ti
          else res_bind (block_reader_first_key (ti_br ti')) (\<lambda>got_key.
            if reftable_buf_cmp got_key want_key > 0 then Ok ti
            else table_iter_scan E ti' want_key))"
  by pat_completeness auto
termination
  by (relation "measure (\<lambda>(E, ti, want). ti_measure ti)") (auto dest: table_iter_next_block_decreases)

declare table_iter_scan.simps [simp del]

definition table_iter_seek_linear :: "reftable_env \<Rightarrow> table_iter \<Rightarrow> reftable_record \<Rightarrow> table_iter res" where
  "table_iter_seek_linear E ti want =
     res_bind (reftable_record_key E want) (\<lambda>want_key.
     res_bind (table_iter_scan E ti want_key) (\<lambda>ti.
     res_bind (block_iter_seek_key E (ti_bi ti) (ti_br ti) want_key) (\<lambda>bi. Ok (ti\<lparr>ti_bi := bi\<rparr>))))"

text \<open>Descending an index may not end when its offsets form a cycle.\<close>

partial_function (option) table_iter_descend ::
  "reftable_env \<Rightarrow> table_iter \<Rightarrow> index_record \<Rightarrow> bytes \<Rightarrow> byte \<Rightarrow> (table_iter \<times> bool) run" where
  "table_iter_descend E ti index_result want_key typ =
     run_bind (Some (table_iter_next E ti (Rec_Index index_result))) (\<lambda>(ti, r). case r of
        None \<Rightarrow> Some (Ok (ti, False))
      | Some (Rec_Index idx) \<Rightarrow>
          run_bind (Some (table_iter_seek_to E ti (unat (idx_offset idx)) BLOCK_TYPE_ANY)) (\<lambda>(ti, found).
            if \<not> found then Some (Ok (ti, False))
            else run_bind (Some (block_iter_seek_key E (ti_bi ti) (ti_br ti) want_key)) (\<lambda>bi.
              let ti = ti\<lparr>ti_bi := bi\<rparr> in
              if ti_typ ti = typ then Some (Ok (ti, True))
              else if ti_typ ti \<noteq> BLOCK_TYPE_INDEX then Some (Err FORMAT_ERROR)
              else table_iter_descend E ti idx want_key typ))
      | Some _ \<Rightarrow> Some (Crash Bug))"

declare table_iter_descend.simps [code]

definition table_iter_seek_indexed ::
  "reftable_env \<Rightarrow> table_iter \<Rightarrow> reftable_record \<Rightarrow> (table_iter \<times> bool) run" where
  "table_iter_seek_indexed E ti rec =
     run_bind (Some (reftable_record_key E rec)) (\<lambda>want_key.
     run_bind (Some (table_iter_seek_linear E ti (Rec_Index \<lparr>idx_last_key = want_key, idx_offset = 0\<rparr>))) (\<lambda>ti.
       table_iter_descend E ti \<lparr>idx_last_key = [], idx_offset = 0\<rparr> want_key (reftable_record_type rec)))"

text \<open>
  When the section is not there, \<open>table_iter_seek_start\<close> returns a positive number, which
  \<open>table_iter_seek\<close> does not look at.
\<close>

definition table_iter_seek ::
  "reftable_env \<Rightarrow> table_iter \<Rightarrow> reftable_record \<Rightarrow> (table_iter \<times> bool) run" where
  "table_iter_seek E ti want =
     run_bind (Some (reader_offsets_for (ti_r ti) (reftable_record_type want))) (\<lambda>offs.
     run_bind (Some (table_iter_seek_start E ti (reftable_record_type want) (ro_index_offset offs \<noteq> 0))) (\<lambda>(ti, _).
       if ro_index_offset offs \<noteq> 0 then table_iter_seek_indexed E ti want
       else run_bind (Some (table_iter_seek_linear E ti want)) (\<lambda>ti. Some (Ok (ti, True)))))"

definition table_iter_vtable :: "reftable_env \<Rightarrow> table_iter iterator_ops" where
  "table_iter_vtable E = \<lparr>op_seek = table_iter_seek E, op_next = (\<lambda>ti rec. Some (table_iter_next E ti rec))\<rparr>"

text \<open>The iterator that a reader hands out: of the table, or the empty one.\<close>

datatype reader_iter = Iter_Empty | Iter_Table table_iter

definition reader_init_iter :: "reftable_reader \<Rightarrow> byte \<Rightarrow> reader_iter res" where
  "reader_init_iter r typ =
     res_bind (reader_offsets_for r typ) (\<lambda>offs.
       if ro_is_present offs then res_bind (table_iter_init r) (\<lambda>ti. Ok (Iter_Table ti))
       else Ok Iter_Empty)"

definition reader_iter_vtable :: "reftable_env \<Rightarrow> reader_iter iterator_ops" where
  "reader_iter_vtable E =
     \<lparr>op_seek = (\<lambda>it want. case it of
          Iter_Empty \<Rightarrow> empty_iterator_seek it want
        | Iter_Table ti \<Rightarrow> run_bind (op_seek (table_iter_vtable E) ti want) (\<lambda>(ti, b). Some (Ok (Iter_Table ti, b)))),
      op_next = (\<lambda>it rec. case it of
          Iter_Empty \<Rightarrow> empty_iterator_next it rec
        | Iter_Table ti \<Rightarrow> run_bind (op_next (table_iter_vtable E) ti rec) (\<lambda>(ti, r). Some (Ok (Iter_Table ti, r))))\<rparr>"

definition reftable_reader_init_ref_iterator :: "reftable_reader \<Rightarrow> reader_iter res" where
  "reftable_reader_init_ref_iterator r = reader_init_iter r BLOCK_TYPE_REF"

definition reftable_reader_init_log_iterator :: "reftable_reader \<Rightarrow> reader_iter res" where
  "reftable_reader_init_log_iterator r = reader_init_iter r BLOCK_TYPE_LOG"

section \<open>References to one object\<close>

text \<open>
  \<open>indexed_table_ref_iter\<close> visits the reference blocks that an object record names. Its test of a
  record reads the two hashes of \<open>value.val2\<close> whatever the type of the value is; what that member
  of the union shows for a value of another type is the argument \<open>val2\<close>.
\<close>

record indexed_table_ref_iter =
  itr_r :: reftable_reader
  itr_oid :: bytes
  itr_offsets :: "u64 list"
  itr_offset_idx :: nat
  itr_block_reader :: block_reader
  itr_cur :: block_iter
  itr_is_finished :: bool

definition indexed_table_ref_iter_next_block ::
  "reftable_env \<Rightarrow> indexed_table_ref_iter \<Rightarrow> indexed_table_ref_iter res" where
  "indexed_table_ref_iter_next_block E it =
     (if itr_offset_idx it = length (itr_offsets it) then Ok (it\<lparr>itr_is_finished := True\<rparr>)
      else if \<not> itr_offset_idx it < length (itr_offsets it) then Crash Out_Of_Bounds
      else let off = unat (itr_offsets it ! itr_offset_idx it);
               it = it\<lparr>itr_offset_idx := itr_offset_idx it + 1\<rparr> in
        res_bind (reader_init_block_reader E (itr_r it) off BLOCK_TYPE_REF) (\<lambda>br. case br of
          None \<Rightarrow> Err FORMAT_ERROR
        | Some br \<Rightarrow> Ok (it\<lparr>itr_block_reader := br, itr_cur := block_iter_seek_start br\<rparr>)))"

definition indexed_table_ref_iter_seek ::
  "indexed_table_ref_iter \<Rightarrow> reftable_record \<Rightarrow> (indexed_table_ref_iter \<times> bool) run" where
  "indexed_table_ref_iter_seek it want = Some (Crash Bug)"

lemma indexed_next_block_decreases:
  "indexed_table_ref_iter_next_block E it = Ok it' \<Longrightarrow> \<not> itr_is_finished it' \<Longrightarrow>
     length (itr_offsets it') - itr_offset_idx it' < length (itr_offsets it) - itr_offset_idx it"
  by (auto simp: indexed_table_ref_iter_next_block_def res_bind_eq_Ok Let_def split: if_splits option.splits)

function indexed_table_ref_iter_loop ::
  "reftable_env \<Rightarrow> (ref_value \<Rightarrow> bytes \<times> bytes) \<Rightarrow> indexed_table_ref_iter \<Rightarrow> reftable_record
   \<Rightarrow> (indexed_table_ref_iter \<times> reftable_record option) res" where
  "indexed_table_ref_iter_loop E val2 it rec =
     (case block_iter_next E (itr_cur it) rec of
        Crash c \<Rightarrow> Crash c
      | Err e \<Rightarrow> Err e
      | Ok None \<Rightarrow>
          (case indexed_table_ref_iter_next_block E it of
             Crash c \<Rightarrow> Crash c
           | Err e \<Rightarrow> Err e
           | Ok it' \<Rightarrow>
               if itr_is_finished it' then Ok (it', None) else indexed_table_ref_iter_loop E val2 it' rec)
      | Ok (Some (cur, rec')) \<Rightarrow>
          (let it' = it\<lparr>itr_cur := cur\<rparr> in
           case rec' of
             Rec_Ref ref \<Rightarrow>
               (let (v, t) = val2 (ref_value ref) in
                if memcmp (itr_oid it) t (length (itr_oid it)) = 0 \<or> memcmp (itr_oid it) v (length (itr_oid it)) = 0
                then Ok (it', Some rec') else indexed_table_ref_iter_loop E val2 it' rec')
           | _ \<Rightarrow> Crash Bug))"
  by pat_completeness auto
termination
  by (relation "measures [\<lambda>(E, val2, it, rec). length (itr_offsets it) - itr_offset_idx it,
        \<lambda>(E, val2, it, rec). bi_block_len (itr_cur it) - bi_next_off (itr_cur it)]")
    (auto dest: indexed_next_block_decreases block_iter_next_decreases)

declare indexed_table_ref_iter_loop.simps [simp del]

definition indexed_table_ref_iter_new ::
  "reftable_env \<Rightarrow> reftable_reader \<Rightarrow> bytes \<Rightarrow> u64 list \<Rightarrow> indexed_table_ref_iter res" where
  "indexed_table_ref_iter_new E r oid offsets =
     indexed_table_ref_iter_next_block E
       \<lparr>itr_r = r, itr_oid = oid, itr_offsets = offsets, itr_offset_idx = 0,
        itr_block_reader = zero_block_reader, itr_cur = zero_block_iter, itr_is_finished = False\<rparr>"

datatype refs_iter =
    Refs_Empty
  | Refs_Indexed indexed_table_ref_iter
  | Refs_Filtering "table_iter filtering_ref_iterator"

definition reftable_reader_refs_for_indexed ::
  "reftable_env \<Rightarrow> reftable_reader \<Rightarrow> bytes \<Rightarrow> refs_iter option run" where
  "reftable_reader_refs_for_indexed E r oid =
     (let want = \<lparr>obj_hash_prefix = take (rd_object_id_len r) oid, obj_offsets = []\<rparr>;
          got = \<lparr>obj_hash_prefix = [], obj_offsets = []\<rparr> in
      run_bind (Some (reader_init_iter r BLOCK_TYPE_OBJ)) (\<lambda>oit.
      run_bind (iterator_seek (reader_iter_vtable E) oit (Rec_Obj want)) (\<lambda>(oit, found).
      if \<not> found then Some (Ok None)
      else run_bind (iterator_next (reader_iter_vtable E) oit (Rec_Obj got)) (\<lambda>(oit, r').
        case r' of
          None \<Rightarrow> Some (Ok (Some Refs_Empty))
        | Some (Rec_Obj got) \<Rightarrow>
            if memcmp (obj_hash_prefix want) (obj_hash_prefix got) (rd_object_id_len r) \<noteq> 0
            then Some (Ok (Some Refs_Empty))
            else run_bind (Some (hash_size E (rd_hash_id r))) (\<lambda>hsz.
              run_bind (Some (indexed_table_ref_iter_new E r (take hsz oid) (obj_offsets got))) (\<lambda>itr.
                Some (Ok (Some (Refs_Indexed itr)))))
        | Some _ \<Rightarrow> Some (Crash Bug)))))"

definition reftable_reader_refs_for_unindexed ::
  "reftable_env \<Rightarrow> reftable_reader \<Rightarrow> bytes \<Rightarrow> refs_iter res" where
  "reftable_reader_refs_for_unindexed E r oid =
     res_bind (hash_size E (rd_hash_id r)) (\<lambda>oid_len.
     res_bind (table_iter_init r) (\<lambda>ti.
     res_bind (table_iter_seek_start E ti BLOCK_TYPE_REF False) (\<lambda>(ti, _).
       Ok (Refs_Filtering \<lparr>fri_oid = take oid_len oid, fri_it = ti\<rparr>))))"

text \<open>\<open>None\<close> is the case in which C returns a positive number and leaves the iterator unset.\<close>

definition reftable_reader_refs_for ::
  "reftable_env \<Rightarrow> reftable_reader \<Rightarrow> bytes \<Rightarrow> refs_iter option run" where
  "reftable_reader_refs_for E r oid =
     (if ro_is_present (rd_obj_offsets r) then reftable_reader_refs_for_indexed E r oid
      else run_bind (Some (reftable_reader_refs_for_unindexed E r oid)) (\<lambda>it. Some (Ok (Some it))))"

definition refs_iter_next ::
  "reftable_env \<Rightarrow> (ref_value \<Rightarrow> bytes \<times> bytes) \<Rightarrow> refs_iter \<Rightarrow> reftable_record
   \<Rightarrow> (refs_iter \<times> reftable_record option) run" where
  "refs_iter_next E val2 it rec =
     (case it of
        Refs_Empty \<Rightarrow> empty_iterator_next it rec
      | Refs_Indexed itr \<Rightarrow>
          run_bind (Some (indexed_table_ref_iter_loop E val2 itr rec)) (\<lambda>(itr, r). Some (Ok (Refs_Indexed itr, r)))
      | Refs_Filtering fri \<Rightarrow>
          run_bind (filtering_ref_iterator_next (table_iter_vtable E) fri rec) (\<lambda>(fri, r).
            Some (Ok (Refs_Filtering fri, r))))"

end
