(* ===== verification/Reft_Table.thy ===== *)
theory Reft_Table
  imports Reft_Reader
begin

text \<open>
  What the iterator over a table shows (\<open>reftable_reader.c\<close>): the blocks of a section one after the
  other, the linear seek, and the seek through the levels of an index. The result is the contract
  of iterators that can be sought, for the iterators that a reader hands out.
\<close>

section \<open>A section of blocks, read in order\<close>

text \<open>
  From an offset on, the table has the blocks \<open>blks\<close> of one type, each of them the image of some
  records, and behind them no more block of that type.
\<close>

fun blocks_at ::
  "reftable_env \<Rightarrow> reftable_reader \<Rightarrow> nat \<Rightarrow> nat \<Rightarrow> byte \<Rightarrow> nat \<Rightarrow> reftable_record list list \<Rightarrow> bool" where
  "blocks_at E r iv hsz typ off [] \<longleftrightarrow> reader_init_block_reader E r off typ = Ok None"
| "blocks_at E r iv hsz typ off (recs # blks) \<longleftrightarrow>
     (\<exists>br. reader_init_block_reader E r off typ = Ok (Some br) \<and> br_reads E iv hsz typ recs br
       \<and> block_records E hsz typ recs \<and> recs \<noteq> []
       \<and> blocks_at E r iv hsz typ (off + br_full_block_size br) blks)"

text \<open>What the iterator of a table makes of a stored record.\<close>

definition shown :: "reftable_reader \<Rightarrow> reftable_record \<Rightarrow> reftable_record" where
  "shown r rec = add_update_index (rd_min_update_index r) (record_norm rec)"

lemma shown_type [simp]: "reftable_record_type (shown r rec) = reftable_record_type rec"
  by (cases rec) (simp_all add: shown_def)

lemma shown_key [simp]: "key_of E (shown r rec) = key_of E rec"
proof -
  have "key_of E (add_update_index b rec) = key_of E rec" for b rec
    by (cases rec) (simp_all add: key_of_def reftable_ref_record_key_def)
  then show ?thesis by (simp add: shown_def)
qed

definition ti_rep ::
  "reftable_env \<Rightarrow> nat \<Rightarrow> nat \<Rightarrow> byte \<Rightarrow> table_iter \<Rightarrow> reftable_record list \<Rightarrow> bool" where
  "ti_rep E iv hsz typ ti l \<longleftrightarrow> ti_typ ti = typ \<and>
     (if ti_is_finished ti then l = []
      else \<exists>recs j blks. bi_at E iv recs j (ti_bi ti) \<and> bi_hash_size (ti_bi ti) = hsz
        \<and> block_records E hsz typ recs
        \<and> blocks_at E (ti_r ti) iv hsz typ (ti_block_off ti + br_full_block_size (ti_br ti)) blks
        \<and> l = map (shown (ti_r ti)) (drop j recs @ concat blks))"

lemma block_iter_seek_start_hash [simp]: "bi_hash_size (block_iter_seek_start br) = br_hash_size br"
  by (simp add: block_iter_seek_start_def)

lemma table_iter_next_block_more:
  assumes "blocks_at E (ti_r ti) iv hsz (ti_typ ti) (ti_block_off ti + br_full_block_size (ti_br ti)) (recs # blks)"
  obtains ti' where "table_iter_next_block E ti = Ok (ti', True)" "ti_r ti' = ti_r ti" "ti_typ ti' = ti_typ ti"
    "\<not> ti_is_finished ti'" "br_reads E iv hsz (ti_typ ti) recs (ti_br ti')"
    "ti_bi ti' = block_iter_seek_start (ti_br ti')"
    "blocks_at E (ti_r ti) iv hsz (ti_typ ti) (ti_block_off ti' + br_full_block_size (ti_br ti')) blks"
    "block_records E hsz (ti_typ ti) recs" "recs \<noteq> []"
  using assms by (auto simp: table_iter_next_block_def Let_def intro: that)

lemma table_iter_next_block_end:
  assumes "blocks_at E (ti_r ti) iv hsz (ti_typ ti) (ti_block_off ti + br_full_block_size (ti_br ti)) []"
  shows "table_iter_next_block E ti = Ok (ti\<lparr>ti_is_finished := True\<rparr>, False)"
  using assms by (simp add: table_iter_next_block_def Let_def)

lemma table_iter_in_block:
  assumes "\<not> ti_is_finished ti" "bi_at E iv recs j (ti_bi ti)" "j < length recs"
    and "block_records E (bi_hash_size (ti_bi ti)) (ti_typ ti) recs" "reftable_record_type rec = ti_typ ti"
    and "blocks_at E (ti_r ti) iv (bi_hash_size (ti_bi ti)) (ti_typ ti) (ti_block_off ti + br_full_block_size (ti_br ti)) blks"
  shows "\<exists>ti'. table_iter_next_loop E ti rec = Ok (ti', Some (shown (ti_r ti) (recs ! j)))
    \<and> ti_rep E iv (bi_hash_size (ti_bi ti)) (ti_typ ti) ti' (map (shown (ti_r ti)) (drop (Suc j) recs @ concat blks))"
proof -
  from block_iter_next_entry [OF assms(2,3), of rec] assms(4,5) obtain bi where
    bi: "block_iter_next E (ti_bi ti) rec = Ok (Some (bi, record_norm (recs ! j)))" "bi_at E iv recs (Suc j) bi"
    "bi_hash_size bi = bi_hash_size (ti_bi ti)" by auto
  have "table_iter_next_loop E ti rec = Ok (ti\<lparr>ti_bi := bi\<rparr>, Some (shown (ti_r ti) (recs ! j)))"
    using assms(1) bi(1)
    by (simp add: table_iter_next_loop.simps [of E ti rec] table_iter_next_in_block_def shown_def)
  moreover have "ti_rep E iv (bi_hash_size (ti_bi ti)) (ti_typ ti) (ti\<lparr>ti_bi := bi\<rparr>)
      (map (shown (ti_r ti)) (drop (Suc j) recs @ concat blks))"
    unfolding ti_rep_def using assms(1,4,6) bi(2,3)
    by (auto intro!: exI [of _ recs] exI [of _ "Suc j"] exI [of _ blks])
  ultimately show ?thesis by blast
qed

lemma table_iter_next_loop_rep:
  assumes "ti_rep E iv hsz typ ti l" "reftable_record_type rec = typ"
  shows "\<exists>ti'. table_iter_next_loop E ti rec = Ok (ti', case l of [] \<Rightarrow> None | r # _ \<Rightarrow> Some r)
    \<and> ti_rep E iv hsz typ ti' (tl l)"
proof (cases "ti_is_finished ti")
  case True
  with assms show ?thesis by (simp add: ti_rep_def table_iter_next_loop.simps [of E ti rec])
next
  case False
  with assms obtain recs j blks where
    rep: "bi_at E iv recs j (ti_bi ti)" "bi_hash_size (ti_bi ti) = hsz" "block_records E hsz typ recs"
    "blocks_at E (ti_r ti) iv hsz typ (ti_block_off ti + br_full_block_size (ti_br ti)) blks"
    and l: "l = map (shown (ti_r ti)) (drop j recs @ concat blks)" and ty: "ti_typ ti = typ"
    unfolding ti_rep_def by auto
  have j: "j \<le> length recs" using rep(1) by (simp add: bi_at_def)
  show ?thesis
  proof (cases "j < length recs")
    case True
    with table_iter_in_block [OF False rep(1) True] rep ty assms(2) l show ?thesis
      by (simp add: Cons_nth_drop_Suc [symmetric])
  next
    case jn: False
    with j have "j = length recs" by simp
    with rep(1) have stop: "table_iter_next_in_block E ti rec = Ok None"
      by (simp add: table_iter_next_in_block_def block_iter_next_end)
    show ?thesis
    proof (cases blks)
      case Nil
      with rep(4) ty have "table_iter_next_block E ti = Ok (ti\<lparr>ti_is_finished := True\<rparr>, False)"
        by (intro table_iter_next_block_end [of E ti iv hsz]) simp
      with False stop Nil l ty jn show ?thesis
        by (simp add: table_iter_next_loop.simps [of E ti rec] ti_rep_def)
    next
      case (Cons recs' blks')
      obtain ti' where ti': "table_iter_next_block E ti = Ok (ti', True)" "ti_r ti' = ti_r ti" "ti_typ ti' = ti_typ ti"
        "\<not> ti_is_finished ti'" "br_reads E iv hsz (ti_typ ti) recs' (ti_br ti')"
        "ti_bi ti' = block_iter_seek_start (ti_br ti')"
        "blocks_at E (ti_r ti) iv hsz (ti_typ ti) (ti_block_off ti' + br_full_block_size (ti_br ti')) blks'"
        "block_records E hsz (ti_typ ti) recs'" "recs' \<noteq> []"
        by (rule table_iter_next_block_more [of E ti iv hsz recs' blks']) (use rep(4) ty Cons in simp)
      have h: "bi_hash_size (ti_bi ti') = hsz" using ti'(5,6) by (simp add: br_reads_def Let_def)
      have loop: "table_iter_next_loop E ti rec = table_iter_next_loop E ti' rec"
        using False stop ti'(1) by (simp add: table_iter_next_loop.simps [of E ti rec])
      have "bi_at E iv recs' 0 (ti_bi ti')" using block_iter_seek_start_at [OF ti'(5)] ti'(6) by simp
      from table_iter_in_block [OF ti'(4) this, of rec blks'] ti' h ty assms(2) obtain ti'' where
        "table_iter_next_loop E ti' rec = Ok (ti'', Some (shown (ti_r ti) (recs' ! 0)))"
        "ti_rep E iv hsz typ ti'' (map (shown (ti_r ti)) (drop (Suc 0) recs' @ concat blks'))" by auto
      then show ?thesis
        using loop l jn Cons ti'(9) by (cases recs') auto
    qed
  qed
qed

lemma ti_rep_type: "ti_rep E iv hsz typ ti l \<Longrightarrow> r \<in> set l \<Longrightarrow> reftable_record_type r = typ"
proof -
  have b: "blocks_at E rd iv hsz typ off blks \<Longrightarrow> x \<in> set (concat blks) \<Longrightarrow> reftable_record_type x = typ" for rd off blks x
    by (induction blks arbitrary: off) (auto simp: block_records_def)
  assume "ti_rep E iv hsz typ ti l" "r \<in> set l"
  then show ?thesis
    using b by (fastforce simp: ti_rep_def block_records_def split: if_splits dest: in_set_dropD)
qed

interpretation table: listed_iter "table_iter_vtable E" "ti_rep E iv hsz ty" ty for E iv hsz ty
proof
  fix ti rec r rs
  assume ty: "reftable_record_type rec = ty"
  have "ti_typ ti = ty" if "ti_rep E iv hsz ty ti l" for l using that by (simp add: ti_rep_def)
  then show "\<exists>it'. op_next (table_iter_vtable E) ti rec = Some (Ok (it', None)) \<and> ti_rep E iv hsz ty it' []"
    if "ti_rep E iv hsz ty ti []"
    using table_iter_next_loop_rep [OF that ty] that ty by (auto simp: table_iter_vtable_def table_iter_next_def)
  show "\<exists>it'. op_next (table_iter_vtable E) ti rec = Some (Ok (it', Some r)) \<and> ti_rep E iv hsz ty it' rs"
    if "ti_rep E iv hsz ty ti (r # rs)"
    using table_iter_next_loop_rep [OF that ty] that ty
    by (auto simp: table_iter_vtable_def table_iter_next_def ti_rep_def [of E iv hsz ty ti])
qed (rule ti_rep_type)

section \<open>Seeking in a section\<close>

lemma block_reader_first_key_reads:
  assumes br: "br_reads E iv hsz typ recs br" and recs: "block_records E hsz typ recs" "recs \<noteq> []"
  shows "block_reader_first_key br = Ok (key_of E (recs ! 0))"
proof -
  define r where "r = recs ! 0"
  define k where "k = key_of E r"
  have ok: "record_ok E hsz r" "k \<noteq> []" using recs by (simp_all add: block_records_def r_def k_def)
  obtain pre suf where d: "br_data br = pre @ entries_from E iv recs 0 @ suf" "length pre = br_header_off br + 4"
    using br_reads_data [OF br] by metis
  have v: "view (br_data br) (br_header_off br + 4) (br_block_len br) = Ok (entries_from E iv recs 0)"
    using view_entries [of 0 recs pre E iv suf] br d by (simp add: br_reads_def Let_def entry_off_def)
  have bytes: "entries_from E iv recs 0 =
      key_bytes [] k (reftable_record_val_type E r) @ record_body r @ entries_from E iv recs (Suc 0)"
    using entries_from_step [of 0 recs E iv] recs(2)
    by (simp add: entry_bytes_def prev_key_def k_def r_def)
  have "reftable_decode_key [] (entries_from E iv recs 0) =
      Ok (k, reftable_record_val_type E r, length (key_bytes [] k (reftable_record_val_type E r)))"
    unfolding bytes using ok key_of_eq(2) [OF ok(1)] any_codec.val_type_small [of E hsz r r]
    by (intro reftable_decode_key_bytes) (simp_all add: k_def)
  with v ok show ?thesis by (simp add: block_reader_first_key_def k_def r_def)
qed

text \<open>The iterator stands somewhere in the block \<open>recs\<close>, with the blocks \<open>blks\<close> behind it.\<close>

definition ti_in_block ::
  "reftable_env \<Rightarrow> nat \<Rightarrow> nat \<Rightarrow> byte \<Rightarrow> table_iter \<Rightarrow> reftable_record list \<Rightarrow> reftable_record list list \<Rightarrow> bool" where
  "ti_in_block E iv hsz typ ti recs blks \<longleftrightarrow> ti_typ ti = typ \<and> \<not> ti_is_finished ti
     \<and> br_reads E iv hsz typ recs (ti_br ti) \<and> block_records E hsz typ recs \<and> recs \<noteq> []
     \<and> blocks_at E (ti_r ti) iv hsz typ (ti_block_off ti + br_full_block_size (ti_br ti)) blks"

lemma table_iter_scan_blocks:
  assumes "ti_in_block E iv hsz typ ti recs blks"
  shows "\<exists>ti' skip recs' blks'. table_iter_scan E ti want = Ok ti' \<and> ti_r ti' = ti_r ti
    \<and> ti_in_block E iv hsz typ ti' recs' blks' \<and> recs # blks = skip @ recs' # blks'
    \<and> (skip \<noteq> [] \<longrightarrow> key_of E (recs' ! 0) \<le> want)
    \<and> (\<forall>b bs. blks' = b # bs \<longrightarrow> want < key_of E (b ! 0))"
  using assms
proof (induction blks arbitrary: ti recs)
  case Nil
  then have "table_iter_next_block E ti = Ok (ti\<lparr>ti_is_finished := True\<rparr>, False)"
    by (intro table_iter_next_block_end [of E ti iv hsz]) (simp add: ti_in_block_def)
  with Nil show ?case
    by (intro exI [of _ ti] exI [of _ "[]"] exI [of _ recs]) (simp add: table_iter_scan.simps [of E ti want])
next
  case (Cons recs2 blks)
  obtain ti2 where ti2: "table_iter_next_block E ti = Ok (ti2, True)" "ti_r ti2 = ti_r ti" "ti_typ ti2 = ti_typ ti"
    "\<not> ti_is_finished ti2" "br_reads E iv hsz (ti_typ ti) recs2 (ti_br ti2)"
    "ti_bi ti2 = block_iter_seek_start (ti_br ti2)"
    "blocks_at E (ti_r ti) iv hsz (ti_typ ti) (ti_block_off ti2 + br_full_block_size (ti_br ti2)) blks"
    "block_records E hsz (ti_typ ti) recs2" "recs2 \<noteq> []"
    by (rule table_iter_next_block_more [of E ti iv hsz recs2 blks]) (use Cons.prems in \<open>simp add: ti_in_block_def\<close>)
  have fk: "block_reader_first_key (ti_br ti2) = Ok (key_of E (recs2 ! 0))"
    by (rule block_reader_first_key_reads [OF ti2(5,8,9)])
  have in2: "ti_in_block E iv hsz typ ti2 recs2 blks"
    using ti2 Cons.prems by (simp add: ti_in_block_def)
  show ?case
  proof (cases "want < key_of E (recs2 ! 0)")
    case True
    then have "table_iter_scan E ti want = Ok ti"
      using ti2(1) fk by (simp add: table_iter_scan.simps [of E ti want] reftable_buf_cmp_sign)
    with True Cons.prems show ?thesis
      by (intro exI [of _ ti] exI [of _ "[]"] exI [of _ recs] exI [of _ "recs2 # blks"]) simp
  next
    case False
    then have step: "table_iter_scan E ti want = table_iter_scan E ti2 want"
      using ti2(1) fk by (simp add: table_iter_scan.simps [of E ti want] reftable_buf_cmp_sign)
    from Cons.IH [OF in2] obtain ti' skip recs' blks' where
      ih: "table_iter_scan E ti2 want = Ok ti'" "ti_r ti' = ti_r ti2" "ti_in_block E iv hsz typ ti' recs' blks'"
      "recs2 # blks = skip @ recs' # blks'" "skip \<noteq> [] \<longrightarrow> key_of E (recs' ! 0) \<le> want"
      "\<forall>b bs. blks' = b # bs \<longrightarrow> want < key_of E (b ! 0)" by blast
    have "key_of E (recs' ! 0) \<le> want" using ih(4,5) False by (cases skip) auto
    then show ?thesis
      using step ih ti2(2) by (intro exI [of _ ti'] exI [of _ "recs # skip"] exI [of _ recs'] exI [of _ blks']) simp
  qed
qed

lemma dropWhile_sorted_blocks:
  fixes f :: "'a \<Rightarrow> 'b::linorder"
  assumes sorted: "sorted_wrt (<) (map f (concat skip @ recs @ concat blks))" and ne: "recs \<noteq> []"
    and le: "skip \<noteq> [] \<longrightarrow> f (recs ! 0) \<le> want"
    and gt: "\<forall>b bs. blks = b # bs \<longrightarrow> want < f (b ! 0)" and nes: "[] \<notin> set blks"
  shows "dropWhile (\<lambda>x. f x < want) (concat skip @ recs @ concat blks) =
    dropWhile (\<lambda>x. f x < want) recs @ concat blks"
proof -
  have "f x < want" if "x \<in> set (concat skip)" for x
  proof -
    have "recs ! 0 \<in> set recs" using ne by simp
    then have "f x < f (recs ! 0)" using sorted that by (auto simp: sorted_wrt_append)
    moreover have "skip \<noteq> []" using that by auto
    ultimately show ?thesis using le by auto
  qed
  then have 1: "dropWhile (\<lambda>x. f x < want) (concat skip @ recs @ concat blks) =
      dropWhile (\<lambda>x. f x < want) (recs @ concat blks)"
    by (intro dropWhile_append2) simp
  have 2: "dropWhile (\<lambda>x. f x < want) (concat blks) = concat blks"
  proof (cases blks)
    case (Cons b bs)
    with gt nes show ?thesis by (cases b) auto
  qed simp
  show ?thesis
  proof (cases "\<forall>x \<in> set recs. f x < want")
    case True
    then have "dropWhile (\<lambda>x. f x < want) (recs @ concat blks) = concat blks" "dropWhile (\<lambda>x. f x < want) recs = []"
      using dropWhile_append2 [of recs "\<lambda>x. f x < want" "concat blks"] 2 by (simp_all add: dropWhile_eq_Nil_conv)
    then show ?thesis using 1 by simp
  next
    case False
    then show ?thesis using 1 dropWhile_append1 [of _ recs "\<lambda>x. f x < want" "concat blks"] by auto
  qed
qed

lemma blocks_at_nonempty: "blocks_at E r iv hsz typ off blks \<Longrightarrow> [] \<notin> set blks"
  by (induction blks arbitrary: off) auto

lemma table_iter_seek_linear_rep:
  assumes ti: "ti_in_block E iv hsz typ ti recs blks" and want: "reftable_record_key E want = Ok k"
    and sorted: "sorted_wrt (<) (map (key_of E) (recs @ concat blks))"
    and E: "MAX_RESTARTS E > 0" and ty: "reftable_is_block_type typ"
  shows "\<exists>ti'. table_iter_seek_linear E ti want = Ok ti' \<and> ti_r ti' = ti_r ti \<and>
    ti_rep E iv hsz typ ti' (map (shown (ti_r ti)) (dropWhile (\<lambda>r. key_of E r < k) (recs @ concat blks)))"
proof -
  from table_iter_scan_blocks [OF ti, of k] obtain ti' skip recs' blks' where
    scan: "table_iter_scan E ti k = Ok ti'" "ti_r ti' = ti_r ti" "ti_in_block E iv hsz typ ti' recs' blks'"
    and split: "recs # blks = skip @ recs' # blks'"
    and le: "skip \<noteq> [] \<longrightarrow> key_of E (recs' ! 0) \<le> k" and gt: "\<forall>b bs. blks' = b # bs \<longrightarrow> k < key_of E (b ! 0)"
    by blast
  have ti': "ti_typ ti' = typ" "\<not> ti_is_finished ti'" "br_reads E iv hsz typ recs' (ti_br ti')"
    "block_records E hsz typ recs'" "recs' \<noteq> []"
    "blocks_at E (ti_r ti') iv hsz typ (ti_block_off ti' + br_full_block_size (ti_br ti')) blks'"
    using scan(3) by (simp_all add: ti_in_block_def)
  have all: "recs @ concat blks = concat skip @ recs' @ concat blks'"
    using arg_cong [OF split, of concat] by simp
  have sorted': "sorted_wrt (<) (map (key_of E) recs')"
    using sorted unfolding all by (simp add: sorted_wrt_append)
  let ?j = "length (takeWhile (\<lambda>r. key_of E r < k) recs')"
  from block_iter_seek_key_reads [OF ti'(3,4,5) sorted' E ty, of "ti_bi ti'" k] obtain bi where
    bi: "block_iter_seek_key E (ti_bi ti') (ti_br ti') k = Ok bi" "bi_hash_size bi = hsz" "bi_at E iv recs' ?j bi" by blast
  have dw: "dropWhile (\<lambda>r. key_of E r < k) (recs @ concat blks) = drop ?j recs' @ concat blks'"
    unfolding all using dropWhile_sorted_blocks [OF sorted [unfolded all] ti'(5) le gt blocks_at_nonempty [OF ti'(6)]]
    by (simp add: dropWhile_eq_drop)
  have "table_iter_seek_linear E ti want = Ok (ti'\<lparr>ti_bi := bi\<rparr>)"
    using want scan(1) bi(1) by (simp add: table_iter_seek_linear_def)
  moreover have "ti_rep E iv hsz typ (ti'\<lparr>ti_bi := bi\<rparr>)
      (map (shown (ti_r ti)) (dropWhile (\<lambda>r. key_of E r < k) (recs @ concat blks)))"
    unfolding dw ti_rep_def using ti' bi scan(2)
    by (auto intro!: exI [of _ recs'] exI [of _ ?j] exI [of _ blks'])
  ultimately show ?thesis using scan(2) by auto
qed

lemma table_iter_next_block_reader:
  "table_iter_next_block E ti = Ok (ti', found) \<Longrightarrow> ti_r ti' = ti_r ti"
  by (auto simp: table_iter_next_block_def Let_def res_bind_eq_Ok split: option.splits)

lemma table_iter_next_reader:
  "table_iter_next_loop E ti rec = Ok (ti', r) \<Longrightarrow> ti_r ti' = ti_r ti"
proof (induction E ti rec rule: table_iter_next_loop.induct)
  case (1 E ti rec)
  show ?case
  proof (cases "\<exists>ti''. \<not> ti_is_finished ti \<and> table_iter_next_in_block E ti rec = Ok None \<and> table_iter_next_block E ti = Ok (ti'', True)")
    case True
    then obtain ti'' where t: "\<not> ti_is_finished ti" "table_iter_next_in_block E ti rec = Ok None"
      "table_iter_next_block E ti = Ok (ti'', True)" by blast
    with "1.prems" have "table_iter_next_loop E ti'' rec = Ok (ti', r)"
      by (simp add: table_iter_next_loop.simps [of E ti rec])
    with "1.IH" [OF t(1,2) refl t(3) refl] table_iter_next_block_reader [OF t(3)] show ?thesis by simp
  next
    case False
    with "1.prems" show ?thesis
      by (auto simp: table_iter_next_loop.simps [of E ti rec] table_iter_next_in_block_def res_bind_eq_Ok
          dest!: table_iter_next_block_reader split: if_splits res.splits option.splits prod.splits)
  qed
qed

section \<open>Levels of blocks\<close>

text \<open>
  A level is a list of blocks with their offsets: the blocks of a section, or one level of its
  index. The blocks of \<open>level_at\<close> follow each other, and behind them there is no more block of
  their type.
\<close>

type_synonym level = "(nat \<times> reftable_record list) list"

definition block_at ::
  "reftable_env \<Rightarrow> reftable_reader \<Rightarrow> nat \<Rightarrow> nat \<Rightarrow> byte \<Rightarrow> nat \<Rightarrow> reftable_record list \<Rightarrow> block_reader \<Rightarrow> bool" where
  "block_at E r iv hsz typ off recs br \<longleftrightarrow>
     reader_init_block_reader E r off typ = Ok (Some br) \<and> br_reads E iv hsz typ recs br
     \<and> block_records E hsz typ recs \<and> recs \<noteq> []"

fun level_at :: "reftable_env \<Rightarrow> reftable_reader \<Rightarrow> nat \<Rightarrow> nat \<Rightarrow> byte \<Rightarrow> nat \<Rightarrow> level \<Rightarrow> bool" where
  "level_at E r iv hsz typ off [] \<longleftrightarrow> reader_init_block_reader E r off typ = Ok None"
| "level_at E r iv hsz typ off ((o', recs) # lvl) \<longleftrightarrow> o' = off \<and>
     (\<exists>br. block_at E r iv hsz typ off recs br \<and> level_at E r iv hsz typ (off + br_full_block_size br) lvl)"

definition level_blocks :: "reftable_env \<Rightarrow> reftable_reader \<Rightarrow> nat \<Rightarrow> nat \<Rightarrow> byte \<Rightarrow> level \<Rightarrow> bool" where
  "level_blocks E r iv hsz typ lvl \<longleftrightarrow>
     (\<forall>(off, recs) \<in> set lvl. off < 2 ^ 64 \<and> (\<exists>br. block_at E r iv hsz typ off recs br))"

definition level_records :: "level \<Rightarrow> reftable_record list" where
  "level_records lvl = concat (map snd lvl)"

lemma level_at_blocks_at: "level_at E r iv hsz typ off lvl \<Longrightarrow> blocks_at E r iv hsz typ off (map snd lvl)"
  by (induction lvl arbitrary: off) (auto simp: block_at_def)

lemma level_at_split:
  "level_at E r iv hsz typ off (skip @ (o', recs) # lvl) \<Longrightarrow>
     \<exists>br. block_at E r iv hsz typ o' recs br \<and> blocks_at E r iv hsz typ (o' + br_full_block_size br) (map snd lvl)"
  by (induction skip arbitrary: off) (auto dest: level_at_blocks_at)

lemma level_at_nonempty: "level_at E r iv hsz typ off lvl \<Longrightarrow> (o', recs) \<in> set lvl \<Longrightarrow> recs \<noteq> []"
  by (induction lvl arbitrary: off) (auto simp: block_at_def)

lemma reader_init_any:
  "reader_init_block_reader E r off typ = Ok (Some br) \<Longrightarrow> reader_init_block_reader E r off BLOCK_TYPE_ANY = Ok (Some br)"
  by (auto simp: reader_init_block_reader_def res_bind_eq_Ok Let_def split: if_splits)

text \<open>The index of a level: for each block its last key and its offset.\<close>

definition index_recs :: "reftable_env \<Rightarrow> level \<Rightarrow> reftable_record list" where
  "index_recs E lvl =
     map (\<lambda>(off, recs). Rec_Index \<lparr>idx_last_key = key_of E (last recs), idx_offset = word_of_nat off\<rparr>) lvl"

lemma key_of_index [simp]: "key_of E (Rec_Index i) = idx_last_key i"
  by (simp add: key_of_def reftable_index_record_key_def)

lemma index_recs_sorted:
  assumes "sorted_wrt (<) (map (key_of E) (level_records lvl))" "\<forall>(off, recs) \<in> set lvl. recs \<noteq> []"
  shows "sorted_wrt (<) (map (key_of E) (index_recs E lvl))"
  using assms
proof (induction lvl)
  case (Cons b lvl)
  obtain off recs where b: "b = (off, recs)" by fastforce
  have *: "key_of E (last recs) < key_of E (last recs')" if "(o', recs') \<in> set lvl" for o' recs'
  proof -
    have "last recs' \<in> set (level_records lvl)" "last recs \<in> set recs"
      using that Cons.prems(2) by (force simp: level_records_def b)+
    then show ?thesis using Cons.prems(1) by (auto simp: b level_records_def sorted_wrt_append)
  qed
  have "sorted_wrt (<) (map (key_of E) (index_recs E lvl))"
    using Cons by (simp add: b level_records_def sorted_wrt_append)
  then show ?case using * by (auto simp: index_recs_def b)
qed (simp add: index_recs_def)

lemma dropWhile_index_recs:
  "dropWhile (\<lambda>r. key_of E r < k) (index_recs E lvl) =
     index_recs E (dropWhile (\<lambda>(off, recs). key_of E (last recs) < k) lvl)"
proof -
  have "(\<lambda>r. key_of E r < k) \<circ> (\<lambda>(off, recs). Rec_Index \<lparr>idx_last_key = key_of E (last recs), idx_offset = word_of_nat off\<rparr>) =
      (\<lambda>(off, recs). key_of E (last recs) < k)"
    by (auto simp: fun_eq_iff)
  then show ?thesis by (simp add: index_recs_def dropWhile_map)
qed

text \<open>In a sorted level, the first record that is not below a key is in the first block whose last key is not.\<close>

lemma dropWhile_level:
  fixes f :: "'a \<Rightarrow> 'b::linorder"
  assumes "sorted_wrt (<) (map f (concat bs))" "[] \<notin> set bs"
  shows "dropWhile (\<lambda>x. f x < k) (concat bs) =
    (case dropWhile (\<lambda>b. f (last b) < k) bs of [] \<Rightarrow> [] | b # bs' \<Rightarrow> dropWhile (\<lambda>x. f x < k) b @ concat bs')"
  using assms
proof (induction bs)
  case (Cons b bs)
  have ne: "b \<noteq> []" using Cons.prems by auto
  show ?case
  proof (cases "f (last b) < k")
    case True
    have "f x < k" if "x \<in> set b" for x
    proof (cases "x = last b")
      case False
      then have "x \<in> set (butlast b)" using that ne by (metis append_butlast_last_id in_set_conv_decomp rotate1.simps(2) set_ConsD set_rotate1)
      moreover have "sorted_wrt (<) (map f (butlast b @ [last b]))" using Cons.prems ne by (simp add: sorted_wrt_append)
      ultimately show ?thesis using True by (auto simp: sorted_wrt_append)
    qed (use True in simp)
    then have "dropWhile (\<lambda>x. f x < k) (concat (b # bs)) = dropWhile (\<lambda>x. f x < k) (concat bs)"
      by (simp add: dropWhile_append2)
    then show ?thesis using Cons True by (simp add: sorted_wrt_append)
  next
    case False
    then show ?thesis using ne by (simp add: dropWhile_append1 [of "last b"])
  qed
qed simp

section \<open>The index of a section\<close>

text \<open>
  A level has an index with its top at \<open>ioff\<close>: the records of the level above are its index records,
  and that level is the top, or has an index itself.
\<close>

inductive index_over :: "reftable_env \<Rightarrow> reftable_reader \<Rightarrow> nat \<Rightarrow> nat \<Rightarrow> nat \<Rightarrow> level \<Rightarrow> bool"
  for E r iv hsz ioff where
  index_top: "level_at E r iv hsz BLOCK_TYPE_INDEX ioff tops \<Longrightarrow> tops \<noteq> [] \<Longrightarrow> level_records tops = index_recs E lvl
    \<Longrightarrow> index_over E r iv hsz ioff lvl"
| index_step: "level_blocks E r iv hsz BLOCK_TYPE_INDEX upper \<Longrightarrow> level_records upper = index_recs E lvl
    \<Longrightarrow> index_over E r iv hsz ioff upper \<Longrightarrow> index_over E r iv hsz ioff lvl"

text \<open>One round of the descent, from an index record on.\<close>

definition descend_to ::
  "reftable_env \<Rightarrow> table_iter \<Rightarrow> index_record \<Rightarrow> bytes \<Rightarrow> byte \<Rightarrow> (table_iter \<times> bool) run" where
  "descend_to E ti idx want_key typ =
     run_bind (Some (table_iter_seek_to E ti (unat (idx_offset idx)) BLOCK_TYPE_ANY)) (\<lambda>(ti, found).
       if \<not> found then Some (Ok (ti, False))
       else run_bind (Some (block_iter_seek_key E (ti_bi ti) (ti_br ti) want_key)) (\<lambda>bi.
         let ti = ti\<lparr>ti_bi := bi\<rparr> in
         if ti_typ ti = typ then Some (Ok (ti, True))
         else if ti_typ ti \<noteq> BLOCK_TYPE_INDEX then Some (Err FORMAT_ERROR)
         else table_iter_descend E ti idx want_key typ))"

lemma table_iter_descend_next:
  "table_iter_next E ti (Rec_Index i) = Ok (ti', None) \<Longrightarrow> table_iter_descend E ti i k typ = Some (Ok (ti', False))"
  "table_iter_next E ti (Rec_Index i) = Ok (ti', Some (Rec_Index idx)) \<Longrightarrow>
     table_iter_descend E ti i k typ = descend_to E ti' idx k typ"
  by (simp_all add: table_iter_descend.simps [of E ti i] descend_to_def)

text \<open>Going to a block that an index record names and seeking in it.\<close>

lemma descend_block:
  assumes "block_at E (ti_r ti) iv hsz ty off recs br" "off < 2 ^ 64" "reftable_is_block_type ty"
    and "sorted_wrt (<) (map (key_of E) recs)" "0 < MAX_RESTARTS E"
  shows "\<exists>ti'. ti_r ti' = ti_r ti \<and> ti_typ ti' = ty \<and> \<not> ti_is_finished ti' \<and> ti_br ti' = br \<and> ti_block_off ti' = off
    \<and> bi_at E iv recs (length (takeWhile (\<lambda>r. key_of E r < k) recs)) (ti_bi ti') \<and> bi_hash_size (ti_bi ti') = hsz
    \<and> descend_to E ti \<lparr>idx_last_key = key, idx_offset = word_of_nat off\<rparr> k typ =
        (if ty = typ then Some (Ok (ti', True)) else if ty \<noteq> BLOCK_TYPE_INDEX then Some (Err FORMAT_ERROR)
         else table_iter_descend E ti' \<lparr>idx_last_key = key, idx_offset = word_of_nat off\<rparr> k typ)"
proof -
  from assms(1) have br: "reader_init_block_reader E (ti_r ti) off BLOCK_TYPE_ANY = Ok (Some br)"
    "br_reads E iv hsz ty recs br" "block_records E hsz ty recs" "recs \<noteq> []"
    by (auto simp: block_at_def intro: reader_init_any)
  let ?ti = "ti\<lparr>ti_br := br, ti_typ := ty, ti_block_off := off, ti_bi := block_iter_seek_start br, ti_is_finished := False\<rparr>"
  from block_iter_seek_key_reads [OF br(2-4) assms(4,5,3), of "block_iter_seek_start br" k] obtain bi where
    bi: "block_iter_seek_key E (block_iter_seek_start br) br k = Ok bi" "bi_hash_size bi = hsz"
    "bi_at E iv recs (length (takeWhile (\<lambda>r. key_of E r < k) recs)) bi" by blast
  have "unat (word_of_nat off :: u64) = off" using assms(2) by (simp add: unsigned_of_nat take_bit_nat_eq_self)
  then have "table_iter_seek_to E ti (unat (word_of_nat off :: u64)) BLOCK_TYPE_ANY = Ok (?ti, True)"
    using br(1) block_reader_type_reads [OF br(2)] by (simp add: table_iter_seek_to_def)
  then show ?thesis using bi by (intro exI [of _ "?ti\<lparr>ti_bi := bi\<rparr>"]) (simp add: descend_to_def)
qed


lemma table_iter_next_in:
  assumes "\<not> ti_is_finished ti" "ti_typ ti = BLOCK_TYPE_INDEX" "bi_at E iv recs j (ti_bi ti)" "j < length recs"
    and "block_records E (bi_hash_size (ti_bi ti)) BLOCK_TYPE_INDEX recs"
  shows "\<exists>ti'. table_iter_next E ti (Rec_Index i) = Ok (ti', Some (recs ! j)) \<and> ti_r ti' = ti_r ti"
proof -
  have "reftable_record_type (recs ! j) = BLOCK_TYPE_INDEX" using assms(4,5) by (simp add: block_records_def)
  then obtain idx where idx: "recs ! j = Rec_Index idx" by (cases "recs ! j") (auto simp: block_type_defs)
  from block_iter_next_entry [OF assms(3,4), of "Rec_Index i"] assms(5) obtain bi where
    "block_iter_next E (ti_bi ti) (Rec_Index i) = Ok (Some (bi, recs ! j))" by (auto simp: idx)
  then have "table_iter_next_loop E ti (Rec_Index i) = Ok (ti\<lparr>ti_bi := bi\<rparr>, Some (recs ! j))"
    using assms(1) by (simp add: table_iter_next_loop.simps [of E ti] table_iter_next_in_block_def idx)
  then show ?thesis using assms(2) by (simp add: table_iter_next_def)
qed

lemma shown_index: "reftable_record_type rec = BLOCK_TYPE_INDEX \<Longrightarrow> shown r rec = rec"
  by (cases rec) (simp_all add: shown_def block_type_defs)

text \<open>
  The first part of an indexed seek ends at the index record of the first block of the level whose
  last key is not below the wanted one, or finds that there is none.
\<close>

definition seek_by_index :: "reftable_env \<Rightarrow> table_iter \<Rightarrow> reftable_record \<Rightarrow> (table_iter \<times> bool) run" where
  "seek_by_index E ti want =
     run_bind (Some (table_iter_seek_start E ti (reftable_record_type want) True)) (\<lambda>(ti, _). table_iter_seek_indexed E ti want)"

definition index_visit :: "reftable_env \<Rightarrow> table_iter \<Rightarrow> bytes \<Rightarrow> byte \<Rightarrow> level \<Rightarrow> (table_iter \<times> bool) run" where
  "index_visit E ti k typ lvl =
     (case dropWhile (\<lambda>(off, recs). key_of E (last recs) < k) lvl of
        [] \<Rightarrow> Some (Ok (ti, False))
      | (off, recs) # _ \<Rightarrow> descend_to E ti \<lparr>idx_last_key = key_of E (last recs), idx_offset = word_of_nat off\<rparr> k typ)"

lemma seek_by_index_top:
  assumes top: "level_at E (ti_r ti) iv hsz BLOCK_TYPE_INDEX ioff tops" "tops \<noteq> []" "level_records tops = index_recs E lvl"
    and offs: "reader_offsets_for (ti_r ti) (reftable_record_type want) = Ok offs" "ro_index_offset offs = ioff" "ioff \<noteq> 0"
    and want: "reftable_record_key E want = Ok k" and sorted: "sorted_wrt (<) (map (key_of E) (index_recs E lvl))"
    and E: "0 < MAX_RESTARTS E"
  shows "\<exists>ti'. ti_r ti' = ti_r ti \<and> seek_by_index E ti want = index_visit E ti' k (reftable_record_type want) lvl"
proof -
  obtain o' recs lvl' where tops: "tops = (o', recs) # lvl'" using top(2) by (metis neq_Nil_conv prod.exhaust)
  with top(1) obtain br where br: "block_at E (ti_r ti) iv hsz BLOCK_TYPE_INDEX ioff recs br"
    "blocks_at E (ti_r ti) iv hsz BLOCK_TYPE_INDEX (ioff + br_full_block_size br) (map snd lvl')"
    by (auto dest: level_at_blocks_at)
  let ?ti = "ti\<lparr>ti_br := br, ti_typ := BLOCK_TYPE_INDEX, ti_block_off := ioff, ti_bi := block_iter_seek_start br, ti_is_finished := False\<rparr>"
  have start: "table_iter_seek_start E ti (reftable_record_type want) True = Ok (?ti, True)"
    using offs br(1) by (auto simp: table_iter_seek_start_def table_iter_seek_to_def block_at_def block_reader_type_reads)
  have all: "recs @ concat (map snd lvl') = index_recs E lvl" using top(3) by (simp add: tops level_records_def)
  have inb: "ti_in_block E iv hsz BLOCK_TYPE_INDEX ?ti recs (map snd lvl')"
    using br by (simp add: ti_in_block_def block_at_def)
  let ?want = "Rec_Index \<lparr>idx_last_key = k, idx_offset = 0\<rparr>"
  have "reftable_record_key E ?want = Ok k" by (simp add: reftable_index_record_key_def)
  from table_iter_seek_linear_rep [OF inb this] sorted E all obtain ti2 where
    ti2: "table_iter_seek_linear E ?ti ?want = Ok ti2" "ti_r ti2 = ti_r ti"
    "ti_rep E iv hsz BLOCK_TYPE_INDEX ti2 (map (shown (ti_r ti)) (dropWhile (\<lambda>r. key_of E r < k) (index_recs E lvl)))"
    by (auto simp: reftable_is_block_type_def)
  let ?d = "dropWhile (\<lambda>(off, recs). key_of E (last recs) < k) lvl"
  have "map (shown (ti_r ti)) (index_recs E lvl) = index_recs E lvl" for lvl
    by (auto simp: index_recs_def shown_index)
  with ti2(3) have rep: "ti_rep E iv hsz BLOCK_TYPE_INDEX ti2 (index_recs E ?d)" by (simp add: dropWhile_index_recs)
  let ?i = "\<lparr>idx_last_key = [], idx_offset = 0\<rparr> :: index_record"
  from table_iter_next_loop_rep [OF rep, of "Rec_Index ?i"] obtain ti3 where
    ti3: "table_iter_next_loop E ti2 (Rec_Index ?i) = Ok (ti3, case index_recs E ?d of [] \<Rightarrow> None | r # _ \<Rightarrow> Some r)" by auto
  have nx: "table_iter_next E ti2 (Rec_Index ?i) = Ok (ti3, case index_recs E ?d of [] \<Rightarrow> None | r # _ \<Rightarrow> Some r)"
    using rep ti3 by (simp add: table_iter_next_def ti_rep_def)
  have "table_iter_descend E ti2 ?i k (reftable_record_type want) = index_visit E ti3 k (reftable_record_type want) lvl"
    using nx by (cases ?d) (auto simp: index_visit_def index_recs_def table_iter_descend_next simp del: dropWhile_eq_Nil_conv split: prod.splits)
  then have "seek_by_index E ti want = index_visit E ti3 k (reftable_record_type want) lvl"
    using start ti2(1) want by (simp add: seek_by_index_def table_iter_seek_indexed_def)
  then show ?thesis using table_iter_next_reader [OF ti3] ti2(2) by auto
qed

text \<open>Visiting the level above leads to the index record in the block that it names.\<close>

lemma index_visit_step:
  assumes upper: "level_blocks E (ti_r ti) iv hsz BLOCK_TYPE_INDEX upper" "level_records upper = index_recs E lvl"
    and sorted: "sorted_wrt (<) (map (key_of E) (index_recs E lvl))" and E: "0 < MAX_RESTARTS E"
    and nty: "typ \<noteq> BLOCK_TYPE_INDEX"
  shows "\<exists>ti'. ti_r ti' = ti_r ti \<and> index_visit E ti k typ upper = index_visit E ti' k typ lvl"
proof -
  let ?p = "\<lambda>(off, recs). key_of E (last recs) < k" and ?q = "\<lambda>r. key_of E r < k"
  have ne: "[] \<notin> set (map snd upper)" using upper(1) by (force simp: level_blocks_def block_at_def)
  have dw: "dropWhile (\<lambda>b. key_of E (last b) < k) (map snd upper) = map snd (dropWhile ?p upper)"
    by (simp add: dropWhile_map o_def case_prod_unfold)
  have eq: "index_recs E (dropWhile ?p lvl) =
      (case dropWhile ?p upper of [] \<Rightarrow> [] | (off, recs) # us \<Rightarrow> dropWhile ?q recs @ level_records us)"
    using dropWhile_level [of "key_of E" "map snd upper" k] sorted ne
    unfolding dropWhile_index_recs [symmetric] upper(2) [symmetric] level_records_def dw
    by (cases "dropWhile ?p upper") (auto simp del: dropWhile_eq_Nil_conv)
  show ?thesis
  proof (cases "dropWhile ?p upper")
    case Nil
    then have "dropWhile ?p lvl = []" using eq by (simp add: index_recs_def del: dropWhile_eq_Nil_conv)
    with Nil show ?thesis by (auto simp: index_visit_def simp del: dropWhile_eq_Nil_conv)
  next
    case (Cons b us)
    obtain off recs where b: "b = (off, recs)" by fastforce
    obtain skip where split: "upper = skip @ (off, recs) # us" using Cons b by (metis takeWhile_dropWhile_id)
    then obtain br where br: "off < 2 ^ 64" "block_at E (ti_r ti) iv hsz BLOCK_TYPE_INDEX off recs br"
      using upper(1) by (auto simp: level_blocks_def)
    have "\<not> key_of E (last recs) < k" using Cons b by (auto simp: dropWhile_eq_Cons_conv)
    moreover have "recs \<noteq> []" using br(2) by (simp add: block_at_def)
    ultimately have "takeWhile ?q recs \<noteq> recs" using last_in_set [of recs] by (auto simp: takeWhile_eq_all_conv)
    then have j: "length (takeWhile ?q recs) < length recs"
      by (metis length_takeWhile_le le_neq_implies_less takeWhile_eq_take take_all_iff)
    have srt: "sorted_wrt (<) (map (key_of E) recs)"
      using sorted unfolding upper(2) [symmetric] by (simp add: split level_records_def sorted_wrt_append)
    from descend_block [OF br(2,1) _ srt E, of k "key_of E (last recs)" "typ"] nty obtain ti' where
      ti': "ti_r ti' = ti_r ti" "ti_typ ti' = BLOCK_TYPE_INDEX" "\<not> ti_is_finished ti'"
      "bi_at E iv recs (length (takeWhile ?q recs)) (ti_bi ti')" "bi_hash_size (ti_bi ti') = hsz"
      "index_visit E ti k typ upper =
        table_iter_descend E ti' \<lparr>idx_last_key = key_of E (last recs), idx_offset = word_of_nat off\<rparr> k typ"
      by (auto simp: index_visit_def Cons b reftable_is_block_type_def)
    from table_iter_next_in [OF ti'(3,2,4) j] br(2) ti'(5) obtain ti'' where
      ti'': "table_iter_next E ti' (Rec_Index \<lparr>idx_last_key = key_of E (last recs), idx_offset = word_of_nat off\<rparr>) =
        Ok (ti'', Some (recs ! length (takeWhile ?q recs)))" "ti_r ti'' = ti_r ti'" by (auto simp: block_at_def)
    have "index_recs E (dropWhile ?p lvl) = recs ! length (takeWhile ?q recs) # drop (Suc (length (takeWhile ?q recs))) recs @ level_records us"
      using eq j by (simp add: Cons b dropWhile_eq_drop [of ?q recs] Cons_nth_drop_Suc)
    then obtain off' recs' lvl' where lvl': "dropWhile ?p lvl = (off', recs') # lvl'"
      "recs ! length (takeWhile ?q recs) = Rec_Index \<lparr>idx_last_key = key_of E (last recs'), idx_offset = word_of_nat off'\<rparr>"
      by (auto simp: index_recs_def Cons_eq_map_conv)
    have "index_visit E ti k typ upper = index_visit E ti'' k typ lvl"
      using table_iter_descend_next(2) [OF ti''(1) [unfolded lvl'(2)]] unfolding ti'(6) by (simp add: index_visit_def lvl'(1))
    then show ?thesis using ti'(1) ti''(2) by auto
  qed
qed

lemma seek_by_index_visit:
  assumes "index_over E (ti_r ti) iv hsz ioff lvl"
    and offs: "reader_offsets_for (ti_r ti) (reftable_record_type want) = Ok offs" "ro_index_offset offs = ioff" "ioff \<noteq> 0"
    and want: "reftable_record_key E want = Ok k" and E: "0 < MAX_RESTARTS E" and nty: "reftable_record_type want \<noteq> BLOCK_TYPE_INDEX"
    and sorted: "sorted_wrt (<) (map (key_of E) (level_records lvl))" "\<forall>(off, recs) \<in> set lvl. recs \<noteq> []"
  shows "\<exists>ti'. ti_r ti' = ti_r ti \<and> seek_by_index E ti want = index_visit E ti' k (reftable_record_type want) lvl"
  using assms(1) sorted
proof (induction rule: index_over.induct)
  case (index_top tops lvl)
  show ?case
    by (rule seek_by_index_top [OF index_top(1-3) offs want index_recs_sorted [OF index_top(4,5)] E])
next
  case (index_step upper lvl)
  note srt = index_recs_sorted [OF index_step(5,6)]
  have "\<forall>(off, recs) \<in> set upper. recs \<noteq> []" using index_step(1) by (auto simp: level_blocks_def block_at_def)
  with index_step(4) srt index_step(2) obtain ti1 where
    ti1: "ti_r ti1 = ti_r ti" "seek_by_index E ti want = index_visit E ti1 k (reftable_record_type want) upper" by auto
  from index_visit_step [OF _ index_step(2) srt E nty, of ti1 iv hsz k] index_step(1) ti1 show ?case by auto
qed


section \<open>Seeking in a section\<close>

text \<open>
  A section of a table: its first block is where the footer says, the rest follows, and if the footer
  names an index, it is one of these blocks.
\<close>

definition section_at ::
  "reftable_env \<Rightarrow> reftable_reader \<Rightarrow> nat \<Rightarrow> nat \<Rightarrow> byte \<Rightarrow> reftable_record list \<Rightarrow> bool" where
  "section_at E r iv hsz typ recs \<longleftrightarrow>
     (\<exists>offs lvl. reader_offsets_for r typ = Ok offs \<and> level_at E r iv hsz typ (ro_offset offs) lvl
       \<and> lvl \<noteq> [] \<and> recs = level_records lvl \<and> (\<forall>(off, recs) \<in> set lvl. off < 2 ^ 64)
       \<and> (ro_index_offset offs = 0 \<or> index_over E r iv hsz (ro_index_offset offs) lvl))"

lemma table_iter_seek_start_block:
  assumes "reader_offsets_for (ti_r ti) typ = Ok offs" "blocks_at E (ti_r ti) iv hsz typ (ro_offset offs) (recs # blks)"
  shows "\<exists>ti'. table_iter_seek_start E ti typ False = Ok (ti', True) \<and> ti_r ti' = ti_r ti
    \<and> ti_in_block E iv hsz typ ti' recs blks \<and> ti_bi ti' = block_iter_seek_start (ti_br ti')"
  using assms block_reader_type_reads
  by (fastforce simp: table_iter_seek_start_def table_iter_seek_to_def ti_in_block_def)

lemma index_visit_section:
  assumes lvl: "level_at E (ti_r ti) iv hsz ty off lvl" "\<forall>(off, recs) \<in> set lvl. off < 2 ^ 64"
    and sorted: "sorted_wrt (<) (map (key_of E) (level_records lvl))" and E: "0 < MAX_RESTARTS E" "reftable_is_block_type ty"
  shows "\<exists>ti' found. index_visit E ti k ty lvl = Some (Ok (ti', found)) \<and> ti_r ti' = ti_r ti
    \<and> (if found then ti_rep E iv hsz ty ti' (map (shown (ti_r ti)) (dropWhile (\<lambda>r. key_of E r < k) (level_records lvl)))
       else dropWhile (\<lambda>r. key_of E r < k) (level_records lvl) = [])"
proof -
  let ?p = "\<lambda>(off, recs). key_of E (last recs) < k" and ?q = "\<lambda>r. key_of E r < k"
  have ne: "[] \<notin> set (map snd lvl)" using level_at_nonempty [OF lvl(1)] by force
  have "dropWhile (\<lambda>b. key_of E (last b) < k) (map snd lvl) = map snd (dropWhile ?p lvl)"
    by (simp add: dropWhile_map o_def case_prod_unfold)
  then have eq: "dropWhile ?q (level_records lvl) =
      (case dropWhile ?p lvl of [] \<Rightarrow> [] | (off, recs) # us \<Rightarrow> dropWhile ?q recs @ level_records us)"
    using dropWhile_level [of "key_of E" "map snd lvl" k] sorted ne unfolding level_records_def
    by (cases "dropWhile ?p lvl") (auto simp del: dropWhile_eq_Nil_conv)
  show ?thesis
  proof (cases "dropWhile ?p lvl")
    case Nil
    then show ?thesis using eq by (auto simp: index_visit_def simp del: dropWhile_eq_Nil_conv)
  next
    case (Cons b us)
    obtain o' recs where b: "b = (o', recs)" by fastforce
    obtain skip where split: "lvl = skip @ (o', recs) # us" using Cons b by (metis takeWhile_dropWhile_id)
    from level_at_split [OF lvl(1) [unfolded split]] obtain br where
      br: "block_at E (ti_r ti) iv hsz ty o' recs br" "blocks_at E (ti_r ti) iv hsz ty (o' + br_full_block_size br) (map snd us)"
      by blast
    have "o' < 2 ^ 64" using lvl(2) by (simp add: split)
    moreover have "sorted_wrt (<) (map (key_of E) recs)"
      using sorted by (simp add: split level_records_def sorted_wrt_append)
    ultimately obtain ti' where
      ti': "ti_r ti' = ti_r ti" "ti_typ ti' = ty" "\<not> ti_is_finished ti'" "ti_br ti' = br" "ti_block_off ti' = o'"
      "bi_at E iv recs (length (takeWhile ?q recs)) (ti_bi ti')" "bi_hash_size (ti_bi ti') = hsz"
      "index_visit E ti k ty lvl = Some (Ok (ti', True))"
      using descend_block [OF br(1), of k "key_of E (last recs)" ty] E by (auto simp: index_visit_def Cons b)
    have "dropWhile ?q (level_records lvl) = drop (length (takeWhile ?q recs)) recs @ concat (map snd us)"
      using eq by (simp add: Cons b dropWhile_eq_drop [of ?q recs] level_records_def)
    then have "ti_rep E iv hsz ty ti' (map (shown (ti_r ti)) (dropWhile ?q (level_records lvl)))"
      unfolding ti_rep_def using ti' br(2) br(1) [unfolded block_at_def]
      by (auto intro!: exI [of _ recs] exI [of _ "length (takeWhile ?q recs)"] exI [of _ "map snd us"])
    then show ?thesis using ti'(1,8) by auto
  qed
qed

lemma table_iter_seek_rep:
  assumes sec: "section_at E (ti_r ti) iv hsz (reftable_record_type want) recs"
    and want: "reftable_record_key E want = Ok k" and sorted: "sorted_wrt (<) (map (key_of E) recs)"
    and E: "MAX_RESTARTS E > 0" and nty: "reftable_record_type want \<noteq> BLOCK_TYPE_INDEX"
  shows "\<exists>ti' found. table_iter_seek E ti want = Some (Ok (ti', found)) \<and> ti_r ti' = ti_r ti
    \<and> (if found then ti_rep E iv hsz (reftable_record_type want) ti' (map (shown (ti_r ti)) (dropWhile (\<lambda>r. key_of E r < k) recs))
       else dropWhile (\<lambda>r. key_of E r < k) recs = [])"
proof -
  let ?t = "reftable_record_type want"
  have ty: "reftable_is_block_type ?t" by (cases want) (simp_all add: reftable_is_block_type_def)
  from sec obtain offs lvl where offs: "reader_offsets_for (ti_r ti) ?t = Ok offs"
    and lvl: "level_at E (ti_r ti) iv hsz ?t (ro_offset offs) lvl" "lvl \<noteq> []" "\<forall>(off, recs) \<in> set lvl. off < 2 ^ 64"
    and recs: "recs = level_records lvl"
    and idx: "ro_index_offset offs = 0 \<or> index_over E (ti_r ti) iv hsz (ro_index_offset offs) lvl"
    unfolding section_at_def by blast
  have ne: "\<forall>(off, recs) \<in> set lvl. recs \<noteq> []" using level_at_nonempty [OF lvl(1)] by auto
  show ?thesis
  proof (cases "ro_index_offset offs = 0")
    case True
    obtain b blks where b: "map snd lvl = b # blks" "recs = b @ concat blks" using lvl(2) recs by (cases lvl) (auto simp: level_records_def)
    from table_iter_seek_start_block [OF offs level_at_blocks_at [OF lvl(1), unfolded b(1)]] obtain ti1 where
      ti1: "table_iter_seek_start E ti ?t False = Ok (ti1, True)" "ti_r ti1 = ti_r ti" "ti_in_block E iv hsz ?t ti1 b blks"
      by blast
    from table_iter_seek_linear_rep [OF ti1(3) want _ E ty] sorted b(2) obtain ti2 where
      "table_iter_seek_linear E ti1 want = Ok ti2" "ti_r ti2 = ti_r ti1"
      "ti_rep E iv hsz ?t ti2 (map (shown (ti_r ti1)) (dropWhile (\<lambda>r. key_of E r < k) recs))" by auto
    then show ?thesis
      using offs ti1 True by (intro exI [of _ ti2] exI [of _ True]) (simp add: table_iter_seek_def)
  next
    case False
    with idx have over: "index_over E (ti_r ti) iv hsz (ro_index_offset offs) lvl" by simp
    from seek_by_index_visit [OF over offs refl False want E nty] sorted recs ne obtain ti1 where
      ti1: "ti_r ti1 = ti_r ti" "seek_by_index E ti want = index_visit E ti1 k ?t lvl" by auto
    have "table_iter_seek E ti want = seek_by_index E ti want"
      using offs False by (simp add: table_iter_seek_def seek_by_index_def)
    moreover have "level_at E (ti_r ti1) iv hsz ?t (ro_offset offs) lvl" using lvl(1) ti1(1) by simp
    ultimately show ?thesis
      using index_visit_section [OF _ lvl(3) sorted [unfolded recs] E ty, of ti1 iv hsz "ro_offset offs" k] ti1 unfolding recs by metis
  qed
qed

text \<open>
  The iterators that a reader hands out keep the contract of iterators that can be sought: of a
  section that is there and sorted, with or without an index, or of none.
\<close>

fun reader_iter_rep ::
  "reftable_env \<Rightarrow> nat \<Rightarrow> nat \<Rightarrow> byte \<Rightarrow> reader_iter \<Rightarrow> reftable_record list \<Rightarrow> bool" where
  "reader_iter_rep E iv hsz ty Iter_Empty l \<longleftrightarrow> l = []"
| "reader_iter_rep E iv hsz ty (Iter_Table ti) l \<longleftrightarrow> ti_rep E iv hsz ty ti l"

fun reader_iter_full ::
  "reftable_env \<Rightarrow> nat \<Rightarrow> nat \<Rightarrow> byte \<Rightarrow> reader_iter \<Rightarrow> reftable_record list \<Rightarrow> bool" where
  "reader_iter_full E iv hsz ty Iter_Empty l \<longleftrightarrow> l = []"
| "reader_iter_full E iv hsz ty (Iter_Table ti) l \<longleftrightarrow>
     (\<exists>recs. section_at E (ti_r ti) iv hsz ty recs \<and> sorted_wrt (<) (map (key_of E) recs)
       \<and> MAX_RESTARTS E > 0 \<and> ty \<noteq> BLOCK_TYPE_INDEX \<and> l = map (shown (ti_r ti)) recs)"

lemma dropWhile_shown:
  "dropWhile (\<lambda>r. key_of E r < k) (map (shown rd) recs) = map (shown rd) (dropWhile (\<lambda>r. key_of E r < k) recs)"
  by (simp add: dropWhile_map o_def)

interpretation reader_it: seekable_iter "reader_iter_vtable E" "reader_iter_rep E iv hsz ty" ty E "reader_iter_full E iv hsz ty"
  for E iv hsz ty
proof
  fix it rec
  assume ty: "reftable_record_type rec = ty"
  show "\<exists>it'. op_next (reader_iter_vtable E) it rec = Some (Ok (it', None)) \<and> reader_iter_rep E iv hsz ty it' []"
    if "reader_iter_rep E iv hsz ty it []"
    using that table.next_end [OF _ ty, of E iv hsz] by (cases it) (fastforce simp: reader_iter_vtable_def empty_iterator_next_def)+
  show "\<exists>it'. op_next (reader_iter_vtable E) it rec = Some (Ok (it', Some r)) \<and> reader_iter_rep E iv hsz ty it' rs"
    if "reader_iter_rep E iv hsz ty it (r # rs)" for r rs
    using that table.next_more [OF _ ty, of E iv hsz] by (cases it) (fastforce simp: reader_iter_vtable_def)+
next
  fix it rs r
  assume "reader_iter_rep E iv hsz ty it rs" "r \<in> set rs"
  then show "reftable_record_type r = ty" by (cases it) (auto dest: ti_rep_type)
next
  fix it rs want k
  assume *: "reader_iter_full E iv hsz ty it rs" "reftable_record_type want = ty" "reftable_record_key E want = Ok k"
  show "\<exists>it' found. op_seek (reader_iter_vtable E) it want = Some (Ok (it', found)) \<and> reader_iter_full E iv hsz ty it' rs
      \<and> (if found then reader_iter_rep E iv hsz ty it' (dropWhile (\<lambda>r. key_of E r < k) rs)
         else dropWhile (\<lambda>r. key_of E r < k) rs = [])"
  proof (cases it)
    case Iter_Empty
    with * show ?thesis by (auto simp: reader_iter_vtable_def empty_iterator_seek_def)
  next
    case (Iter_Table ti)
    with * obtain recs where recs: "section_at E (ti_r ti) iv hsz (reftable_record_type want) recs"
      "sorted_wrt (<) (map (key_of E) recs)" "MAX_RESTARTS E > 0" "reftable_record_type want \<noteq> BLOCK_TYPE_INDEX"
      "rs = map (shown (ti_r ti)) recs" by auto
    from table_iter_seek_rep [OF recs(1) *(3) recs(2-4)] obtain ti' found where
      ti': "table_iter_seek E ti want = Some (Ok (ti', found))" "ti_r ti' = ti_r ti"
      "if found then ti_rep E iv hsz ty ti' (map (shown (ti_r ti)) (dropWhile (\<lambda>r. key_of E r < k) recs))
       else dropWhile (\<lambda>r. key_of E r < k) recs = []" using *(2) by auto
    have "op_seek (reader_iter_vtable E) it want = Some (Ok (Iter_Table ti', found))"
      using ti'(1) by (simp add: Iter_Table reader_iter_vtable_def table_iter_vtable_def)
    moreover have "reader_iter_full E iv hsz ty (Iter_Table ti') rs" using recs *(2) ti'(2) by auto
    moreover have "if found then reader_iter_rep E iv hsz ty (Iter_Table ti') (dropWhile (\<lambda>r. key_of E r < k) rs)
        else dropWhile (\<lambda>r. key_of E r < k) rs = []"
      using ti'(3) unfolding recs(5) dropWhile_shown by (cases found) auto
    ultimately show ?thesis by blast
  qed
next
  fix it rs rec it' r
  assume "reader_iter_full E iv hsz ty it rs" "op_next (reader_iter_vtable E) it rec = Some (Ok (it', r))"
  then show "reader_iter_full E iv hsz ty it' rs"
    by (cases it) (auto simp: reader_iter_vtable_def empty_iterator_next_def table_iter_vtable_def table_iter_next_def
        run_bind_eq_Ok dest!: table_iter_next_reader split: if_splits)
qed

text \<open>What a reader shows of one type of records: its section, if the table has one.\<close>

definition reader_shows ::
  "reftable_env \<Rightarrow> nat \<Rightarrow> nat \<Rightarrow> byte \<Rightarrow> reftable_reader \<Rightarrow> reftable_record list \<Rightarrow> bool" where
  "reader_shows E iv hsz ty r l \<longleftrightarrow> rd_refcount r > 0 \<and> MAX_RESTARTS E > 0 \<and>
     (\<exists>offs. reader_offsets_for r ty = Ok offs \<and>
       (if ro_is_present offs
        then \<exists>recs. section_at E r iv hsz ty recs \<and> sorted_wrt (<) (map (key_of E) recs) \<and> l = map (shown r) recs
        else l = []))"

lemma reader_init_block_reader_refcount:
  "reader_init_block_reader E (r\<lparr>rd_refcount := n\<rparr>) off ty = reader_init_block_reader E r off ty"
proof -
  have "reader_get_block (r\<lparr>rd_refcount := n\<rparr>) off sz = reader_get_block r off sz" for off sz
    by (simp add: reader_get_block_def)
  then show ?thesis
    unfolding reader_init_block_reader_def by (cases r) (simp only: reftable_reader.simps)
qed

lemma block_at_refcount [simp]: "block_at E (r\<lparr>rd_refcount := n\<rparr>) iv hsz ty off recs br \<longleftrightarrow> block_at E r iv hsz ty off recs br"
  by (simp add: block_at_def reader_init_block_reader_refcount)

lemma level_at_refcount [simp]: "level_at E (r\<lparr>rd_refcount := n\<rparr>) iv hsz ty off lvl \<longleftrightarrow> level_at E r iv hsz ty off lvl"
  by (induction lvl arbitrary: off) (auto simp: reader_init_block_reader_refcount)

lemma index_over_refcount:
  assumes "index_over E r iv hsz ioff lvl"
  shows "index_over E (r\<lparr>rd_refcount := n\<rparr>) iv hsz ioff lvl"
  using assms
proof (induction rule: index_over.induct)
  case (index_top tops lvl)
  show ?case by (rule index_over.index_top [where tops = tops]) (use index_top in simp_all)
next
  case (index_step upper lvl)
  show ?case by (rule index_over.index_step [where upper = upper]) (use index_step in \<open>simp_all add: level_blocks_def\<close>)
qed

lemma section_at_refcount:
  assumes "section_at E r iv hsz ty recs"
  shows "section_at E (r\<lparr>rd_refcount := n\<rparr>) iv hsz ty recs"
proof -
  have "reader_offsets_for (r\<lparr>rd_refcount := n\<rparr>) ty = reader_offsets_for r ty" by (simp add: reader_offsets_for_def)
  with assms show ?thesis unfolding section_at_def by (auto intro: index_over_refcount)
qed

lemma reader_init_iter_full:
  assumes "reader_shows E iv hsz ty r l"
  shows "\<exists>it. reader_init_iter r ty = Ok it \<and> reader_iter_full E iv hsz ty it l"
proof -
  from assms obtain offs where offs: "reader_offsets_for r ty = Ok offs" "rd_refcount r > 0" "MAX_RESTARTS E > 0"
    and l: "if ro_is_present offs
      then \<exists>recs. section_at E r iv hsz ty recs \<and> sorted_wrt (<) (map (key_of E) recs) \<and> l = map (shown r) recs else l = []"
    unfolding reader_shows_def by blast
  show ?thesis
  proof (cases "ro_is_present offs")
    case True
    with l obtain recs where recs: "section_at E r iv hsz ty recs" "sorted_wrt (<) (map (key_of E) recs)"
      "l = map (shown r) recs" by auto
    have "ty \<noteq> BLOCK_TYPE_INDEX" using offs(1) by (auto simp: reader_offsets_for_def block_type_defs split: if_splits)
    moreover have "shown (r\<lparr>rd_refcount := n\<rparr>) = shown r" for n by (auto simp: shown_def)
    ultimately show ?thesis using offs True recs section_at_refcount [OF recs(1)]
      by (auto simp: reader_init_iter_def table_iter_init_def reftable_reader_incref_def)
  qed (use offs l in \<open>simp add: reader_init_iter_def\<close>)
qed

text \<open>Opening an iterator, seeking and reading to the end.\<close>

lemma reader_list_from:
  assumes "reader_shows E iv hsz ty r l" "reftable_record_type want = ty" "reftable_record_key E want = Ok k"
  shows "\<exists>it. reader_init_iter r ty = Ok it \<and>
    iterator_list_from (reader_iter_vtable E) it want = Some (Ok (dropWhile (\<lambda>r. key_of E r < k) l))"
  using reader_init_iter_full [OF assms(1)] reader_it.list_from_full [OF _ assms(2,3)] by blast

end
