(* ===== verification/Reft_Layout.thy ===== *)
theory Reft_Layout
  imports Reft_Table
begin

text \<open>
  The bytes of a whole table as a sequence of blocks with padding between them, and what a reader
  finds in them: every block at its offset, the blocks of a section one after the other, and the
  levels of the index of a section.
\<close>

section \<open>The image of a file\<close>

text \<open>
  A file is a sequence of chunks: the bytes of padding before a block, the type and the records of
  the block. The first block begins with the header of the table.
\<close>

record chunk =
  ck_pad :: nat
  ck_typ :: byte
  ck_recs :: "reftable_record list"

definition stored_content :: "reftable_env \<Rightarrow> nat \<Rightarrow> byte \<Rightarrow> reftable_record list \<Rightarrow> nat \<Rightarrow> bytes" where
  "stored_content E iv ty recs H =
     (if ty = BLOCK_TYPE_LOG then deflate E (block_content E iv recs H) else block_content E iv recs H)"

definition chunk_bytes :: "reftable_env \<Rightarrow> nat \<Rightarrow> bytes \<Rightarrow> chunk \<Rightarrow> bytes" where
  "chunk_bytes E iv pre c =
     pre @ block_head E iv (ck_typ c) (ck_recs c) (length pre) @ stored_content E iv (ck_typ c) (ck_recs c) (length pre)"

fun file_of :: "reftable_env \<Rightarrow> nat \<Rightarrow> bytes \<Rightarrow> chunk list \<Rightarrow> bytes" where
  "file_of E iv hdr [] = []"
| "file_of E iv hdr (c # cs) = replicate (ck_pad c) 0 @ chunk_bytes E iv hdr c @ file_of E iv [] cs"

definition pre_of :: "bytes \<Rightarrow> chunk list \<Rightarrow> bytes" where
  "pre_of hdr cs = (if cs = [] then hdr else [])"

lemma file_of_append: "file_of E iv hdr (cs @ ds) = file_of E iv hdr cs @ file_of E iv (pre_of hdr cs) ds"
  by (induction cs arbitrary: hdr) (simp_all add: pre_of_def)

lemma chunk_bytes_nonempty [simp]: "chunk_bytes E iv pre c \<noteq> []"
  by (auto simp: chunk_bytes_def block_head_def)

lemma length_chunk_bytes: "length (chunk_bytes E iv pre c) =
    length pre + 4 + length (stored_content E iv (ck_typ c) (ck_recs c) (length pre))"
  by (simp add: chunk_bytes_def)

lemma file_of_eq_Nil [simp]: "file_of E iv hdr cs = [] \<longleftrightarrow> cs = []"
  by (cases cs) auto

definition chunk_off :: "reftable_env \<Rightarrow> nat \<Rightarrow> bytes \<Rightarrow> chunk list \<Rightarrow> chunk \<Rightarrow> nat" where
  "chunk_off E iv hdr cs c = length (file_of E iv hdr cs) + ck_pad c"

text \<open>
  What the writer keeps to: the blocks are not longer than the block size, whether as they are or
  after deflating, and padding fills a block, that is not one of log entries, up to that size.
\<close>

definition chunk_ok :: "reftable_env \<Rightarrow> nat \<Rightarrow> nat \<Rightarrow> nat \<Rightarrow> bytes \<Rightarrow> chunk \<Rightarrow> bool" where
  "chunk_ok E iv hsz tbs pre c \<longleftrightarrow>
     block_records E hsz (ck_typ c) (ck_recs c) \<and> ck_recs c \<noteq> [] \<and> reftable_is_block_type (ck_typ c)
     \<and> block_len E iv (ck_recs c) (length pre) \<le> tbs \<and> length (chunk_bytes E iv pre c) \<le> tbs"

definition pad_ok :: "reftable_env \<Rightarrow> nat \<Rightarrow> nat \<Rightarrow> bytes \<Rightarrow> chunk list \<Rightarrow> nat \<Rightarrow> bool" where
  "pad_ok E iv tbs hdr cs pad \<longleftrightarrow> pad = 0 \<or>
     cs \<noteq> [] \<and> ck_typ (last cs) \<noteq> BLOCK_TYPE_LOG
     \<and> length (chunk_bytes E iv (pre_of hdr (butlast cs)) (last cs)) + pad = tbs"

inductive laid_out :: "reftable_env \<Rightarrow> nat \<Rightarrow> nat \<Rightarrow> nat \<Rightarrow> bytes \<Rightarrow> chunk list \<Rightarrow> bool"
  for E iv hsz tbs hdr where
  laid_out_Nil: "laid_out E iv hsz tbs hdr []"
| laid_out_snoc: "laid_out E iv hsz tbs hdr cs \<Longrightarrow> chunk_ok E iv hsz tbs (pre_of hdr cs) c
    \<Longrightarrow> pad_ok E iv tbs hdr cs (ck_pad c) \<Longrightarrow> laid_out E iv hsz tbs hdr (cs @ [c])"

inductive_cases laid_out_snocE: "laid_out E iv hsz tbs hdr (cs @ [c])"

lemma laid_out_split:
  assumes "laid_out E iv hsz tbs hdr (a @ c # b)"
  shows "chunk_ok E iv hsz tbs (pre_of hdr a) c \<and> pad_ok E iv tbs hdr a (ck_pad c)"
  using assms
proof (induction b rule: rev_induct)
  case Nil
  then show ?case by (auto elim: laid_out_snocE)
next
  case (snoc x b)
  then have "laid_out E iv hsz tbs hdr ((a @ c # b) @ [x])" by simp
  then have "laid_out E iv hsz tbs hdr (a @ c # b)" by (rule laid_out_snocE) simp
  then show ?case by (rule snoc.IH)
qed

text \<open>A reader over the bytes \<open>F\<close> of such a file.\<close>

definition reads_file :: "reftable_env \<Rightarrow> reftable_reader \<Rightarrow> bytes \<Rightarrow> nat \<Rightarrow> nat \<Rightarrow> nat \<Rightarrow> bool" where
  "reads_file E r F tbs hsz hlen \<longleftrightarrow> rd_size r = length F
     \<and> (\<forall>off sz. 0 < sz \<longrightarrow> off + sz \<le> length F \<longrightarrow> bs_read_block (rd_source r) off sz = Ok (take sz (drop off F)))
     \<and> rd_block_size r = tbs \<and> 0 < tbs \<and> tbs < 2 ^ 24 \<and> hash_size E (rd_hash_id r) = Ok hsz
     \<and> header_size (rd_version r) = Ok hlen"

lemma reader_get_block_file:
  assumes "reads_file E r F tbs hsz hlen" "off < length F" "0 < sz"
  shows "reader_get_block r off sz = Ok (take sz (drop off F))"
  using assms by (auto simp: reads_file_def reader_get_block_def block_source_read_block_def)


lemma file_of_split:
  "file_of E iv hdr (a @ c # b) =
     file_of E iv hdr a @ replicate (ck_pad c) 0 @ chunk_bytes E iv (pre_of hdr a) c @ file_of E iv [] b"
  by (simp add: file_of_append)

lemma chunk_off_zero: "pad_ok E iv tbs hdr a (ck_pad c) \<Longrightarrow> chunk_off E iv hdr a c = 0 \<longleftrightarrow> a = []"
  by (auto simp: chunk_off_def pad_ok_def)

text \<open>The bytes that the reader gets at the offset of a chunk.\<close>

lemma chunk_data:
  assumes "laid_out E iv hsz tbs hdr (a @ c # b)"
  shows "take tbs (drop (chunk_off E iv hdr a c) (file_of E iv hdr (a @ c # b))) =
    chunk_bytes E iv (pre_of hdr a) c @ take (tbs - length (chunk_bytes E iv (pre_of hdr a) c)) (file_of E iv [] b)"
  using laid_out_split [OF assms] by (simp add: file_of_split chunk_off_def chunk_ok_def)

lemma extract_block_size_chunk:
  assumes "chunk_ok E iv hsz tbs pre c" "tbs < 2 ^ 24"
    and "(if off = 0 then header_size version else Ok 0) = Ok (length pre)"
  shows "extract_block_size (chunk_bytes E iv pre c @ rest) off version = Ok (ck_typ c, block_len E iv (ck_recs c) (length pre))"
proof -
  have bl: "block_len E iv (ck_recs c) (length pre) < 2 ^ 24" using assms by (simp add: chunk_ok_def)
  have d: "drop (length pre + 1) (chunk_bytes E iv pre c @ rest) = put_be24 (word_of_nat (block_len E iv (ck_recs c) (length pre)))
      @ stored_content E iv (ck_typ c) (ck_recs c) (length pre) @ rest"
    by (simp add: chunk_bytes_def block_head_def)
  have "get_be24 (drop (length pre + 1) (chunk_bytes E iv pre c @ rest)) = Ok (word_of_nat (block_len E iv (ck_recs c) (length pre)))"
    unfolding d by (rule get_put_be24_nat(1) [OF bl])
  moreover have "read_at (length pre) 1 (chunk_bytes E iv pre c @ rest) = Ok [ck_typ c]"
    by (simp add: chunk_bytes_def block_head_def read_at_def)
  ultimately show ?thesis
    using assms(1,3) get_put_be24_nat(2) [OF bl] by (simp add: extract_block_size_def chunk_ok_def)
qed

lemma block_reader_init_chunk:
  assumes ck: "chunk_ok E iv hsz tbs pre c" and tbs: "0 < tbs" "tbs < 2 ^ 24"
    and E: "be16_ok E" "zlib_ok E" "MAX_RESTARTS E < 2 ^ 16"
  shows "\<exists>br. block_reader_init E (chunk_bytes E iv pre c @ suf) (length pre) tbs hsz = Ok br
    \<and> br_reads E iv hsz (ck_typ c) (ck_recs c) br
    \<and> br_full_block_size br =
        (if ck_typ c = BLOCK_TYPE_LOG \<or> length (chunk_bytes E iv pre c) < tbs \<and> suf \<noteq> [] \<and> hd suf \<noteq> 0
         then length (chunk_bytes E iv pre c) else tbs)"
proof -
  let ?H = "length pre" and ?recs = "ck_recs c" and ?t = "ck_typ c"
  have bl: "block_len E iv ?recs ?H < 2 ^ 24" and ty: "reftable_is_block_type ?t" using ck tbs by (simp_all add: chunk_ok_def)
  have rc: "length (restart_indices E iv ?recs) < 2 ^ 16" using E(3) by (simp add: restart_indices_def)
  show ?thesis
  proof (cases "?t = BLOCK_TYPE_LOG")
    case True
    then have "chunk_bytes E iv pre c = pre @ block_head E iv BLOCK_TYPE_LOG ?recs ?H @ deflate E (block_content E iv ?recs ?H)"
      by (simp add: chunk_bytes_def stored_content_def)
    then show ?thesis
      using block_reader_init_log [OF refl E(1,2) bl rc, of suf tbs hsz] image_reader_reads [OF refl bl rc, where suf = "[]"] True
      by (simp add: image_reader_def)
  next
    case False
    then have b: "chunk_bytes E iv pre c = pre @ block_head E iv ?t ?recs ?H @ block_content E iv ?recs ?H"
      by (simp add: chunk_bytes_def stored_content_def)
    then have "length (chunk_bytes E iv pre c) = block_len E iv ?recs ?H" by (simp add: block_len_def)
    then show ?thesis
      using block_reader_init_full [OF False ty refl E(1) bl rc, of suf tbs hsz] image_reader_reads [OF refl bl rc, where suf = suf] False tbs(1)
      by (simp add: image_reader_def b)
  qed
qed

lemma chunk_next_off:
  assumes lay: "laid_out E iv hsz tbs hdr (a @ c # b)" and tbs: "0 < tbs"
  defines "n \<equiv> length (chunk_bytes E iv (pre_of hdr a) c)"
  defines "suf \<equiv> take (tbs - n) (file_of E iv [] b)"
  defines "full \<equiv> if ck_typ c = BLOCK_TYPE_LOG \<or> n < tbs \<and> suf \<noteq> [] \<and> hd suf \<noteq> 0 then n else tbs"
  shows "case b of [] \<Rightarrow> length (file_of E iv hdr (a @ c # b)) \<le> chunk_off E iv hdr a c + full
    | c' # _ \<Rightarrow> chunk_off E iv hdr (a @ [c]) c' = chunk_off E iv hdr a c + full"
proof (cases b)
  case Nil
  have "n \<le> tbs" using laid_out_split [OF lay] by (simp add: chunk_ok_def n_def)
  then show ?thesis by (simp add: Nil full_def suf_def file_of_append chunk_off_def n_def)
next
  case (Cons c' b')
  have ck: "n \<le> tbs" using laid_out_split [OF lay] by (simp add: chunk_ok_def n_def)
  from lay Cons have "laid_out E iv hsz tbs hdr ((a @ [c]) @ c' # b')" by simp
  from laid_out_split [OF this] have c': "chunk_ok E iv hsz tbs [] c'" "pad_ok E iv tbs hdr (a @ [c]) (ck_pad c')"
    by (simp_all add: pre_of_def)
  then have pad: "ck_pad c' = 0 \<or> ck_typ c \<noteq> BLOCK_TYPE_LOG \<and> n + ck_pad c' = tbs" by (auto simp: pad_ok_def n_def)
  have "ck_typ c' \<noteq> 0" using c'(1) by (auto simp: chunk_ok_def reftable_is_block_type_def block_type_defs)
  then have hd: "file_of E iv [] b \<noteq> []" "hd (file_of E iv [] b) = 0 \<longleftrightarrow> ck_pad c' \<noteq> 0"
    by (cases "ck_pad c'"; simp add: Cons chunk_bytes_def block_head_def)+
  have "full = n + ck_pad c'"
  proof (cases "n < tbs")
    case True
    then have "suf \<noteq> []" "hd suf = hd (file_of E iv [] b)" using hd(1) by (simp_all add: suf_def)
    then show ?thesis using hd(2) True pad by (auto simp: full_def)
  qed (use pad ck in \<open>auto simp: full_def\<close>)
  then show ?thesis by (simp add: Cons chunk_off_def file_of_append n_def)
qed

text \<open>Opening the block of a chunk, and where the reader looks for the next one.\<close>

lemma reader_init_chunk:
  assumes lay: "laid_out E iv hsz tbs hdr (a @ c # b)" and r: "reads_file E r (file_of E iv hdr (a @ c # b)) tbs hsz (length hdr)"
    and E: "be16_ok E" "zlib_ok E" "MAX_RESTARTS E < 2 ^ 16"
  defines "off \<equiv> chunk_off E iv hdr a c"
  shows "\<exists>br. (\<forall>ty. reader_init_block_reader E r off ty = Ok (if ty = BLOCK_TYPE_ANY \<or> ty = ck_typ c then Some br else None))
    \<and> br_reads E iv hsz (ck_typ c) (ck_recs c) br
    \<and> (case b of [] \<Rightarrow> length (file_of E iv hdr (a @ c # b)) \<le> off + br_full_block_size br
       | c' # _ \<Rightarrow> chunk_off E iv hdr (a @ [c]) c' = off + br_full_block_size br)"
proof -
  let ?F = "file_of E iv hdr (a @ c # b)" and ?pre = "pre_of hdr a"
  let ?cb = "chunk_bytes E iv ?pre c" and ?suf = "take (tbs - length (chunk_bytes E iv (pre_of hdr a) c)) (file_of E iv [] b)"
  from laid_out_split [OF lay] have ck: "chunk_ok E iv hsz tbs ?pre c" "pad_ok E iv tbs hdr a (ck_pad c)" by simp_all
  have tbs: "0 < tbs" "tbs < 2 ^ 24" "rd_block_size r = tbs" "hash_size E (rd_hash_id r) = Ok hsz"
    "header_size (rd_version r) = Ok (length hdr)" "rd_size r = length ?F" using r by (simp_all add: reads_file_def)
  have off: "off < length ?F" by (simp add: off_def chunk_off_def file_of_append)
  have skip: "(if off = 0 then header_size (rd_version r) else Ok 0) = Ok (length ?pre)"
    using chunk_off_zero [OF ck(2)] tbs(5) by (simp add: off_def pre_of_def)
  have get: "reader_get_block r off tbs = Ok (?cb @ ?suf)"
    using reader_get_block_file [OF r off tbs(1)] chunk_data [OF lay] by (simp add: off_def)
  have bl: "block_len E iv (ck_recs c) (length ?pre) \<le> tbs" using ck(1) by (simp add: chunk_ok_def)
  from block_reader_init_chunk [OF ck(1) tbs(1,2) E, of ?suf] obtain br where
    br: "block_reader_init E (?cb @ ?suf) (length ?pre) tbs hsz = Ok br" "br_reads E iv hsz (ck_typ c) (ck_recs c) br"
    "br_full_block_size br = (if ck_typ c = BLOCK_TYPE_LOG \<or> length ?cb < tbs \<and> ?suf \<noteq> [] \<and> hd ?suf \<noteq> 0 then length ?cb else tbs)"
    by blast
  have init: "reader_init_block_reader E r off ty = Ok (if ty = BLOCK_TYPE_ANY \<or> ty = ck_typ c then Some br else None)" for ty
    using off skip get bl br(1) tbs extract_block_size_chunk [OF ck(1) tbs(2) skip, of ?suf]
    by (auto simp: reader_init_block_reader_def Let_def)
  have nxt: "case b of [] \<Rightarrow> length ?F \<le> off + br_full_block_size br
       | c' # _ \<Rightarrow> chunk_off E iv hdr (a @ [c]) c' = off + br_full_block_size br"
    using chunk_next_off [OF lay tbs(1)] unfolding off_def br(3) .
  show ?thesis
    by (rule exI [of _ br], intro conjI allI) (rule init br(2) nxt)+
qed


section \<open>Sections and their index in a file\<close>

text \<open>The blocks of some chunks behind others, with their offsets.\<close>

fun offs_of :: "reftable_env \<Rightarrow> nat \<Rightarrow> bytes \<Rightarrow> chunk list \<Rightarrow> chunk list \<Rightarrow> level" where
  "offs_of E iv hdr a [] = []"
| "offs_of E iv hdr a (c # cs) = (chunk_off E iv hdr a c, ck_recs c) # offs_of E iv hdr (a @ [c]) cs"

lemma offs_of_append: "offs_of E iv hdr a (l @ m) = offs_of E iv hdr a l @ offs_of E iv hdr (a @ l) m"
  by (induction l arbitrary: a) simp_all

lemma length_offs_of [simp]: "length (offs_of E iv hdr a l) = length l"
  by (induction l arbitrary: a) simp_all

lemma level_records_offs_of [simp]: "level_records (offs_of E iv hdr a l) = concat (map ck_recs l)"
  by (induction l arbitrary: a) (simp_all add: level_records_def)

lemma offs_of_eq_Nil [simp]: "offs_of E iv hdr a l = [] \<longleftrightarrow> l = []"
  by (cases l) simp_all

lemma offs_of_split:
  assumes "(off, recs) \<in> set (offs_of E iv hdr a l)"
  obtains x c y where "l = x @ c # y" "off = chunk_off E iv hdr (a @ x) c" "recs = ck_recs c"
proof -
  from assms have "\<exists>x c y. l = x @ c # y \<and> off = chunk_off E iv hdr (a @ x) c \<and> recs = ck_recs c"
  proof (induction l arbitrary: a)
    case (Cons c l)
    show ?case
    proof (cases "(off, recs) = (chunk_off E iv hdr a c, ck_recs c)")
      case True
      then show ?thesis by (intro exI [of _ "[]"] exI [of _ c] exI [of _ l]) simp
    next
      case False
      with Cons.prems have "(off, recs) \<in> set (offs_of E iv hdr (a @ [c]) l)" by auto
      from Cons.IH [OF this] obtain x d y where "l = x @ d # y" "off = chunk_off E iv hdr ((a @ [c]) @ x) d" "recs = ck_recs d"
        by blast
      then show ?thesis by (intro exI [of _ "c # x"] exI [of _ d] exI [of _ y]) simp
    qed
  qed simp
  with that show thesis by blast
qed

lemma offs_of_below: "(off, recs) \<in> set (offs_of E iv hdr a l) \<Longrightarrow> off < length (file_of E iv hdr (a @ l @ b))"
proof (erule offs_of_split)
  fix x c y assume l: "l = x @ c # y" and off: "off = chunk_off E iv hdr (a @ x) c"
  have "file_of E iv hdr (a @ l @ b) = file_of E iv hdr ((a @ x) @ c # y @ b)" by (simp add: l)
  then show ?thesis unfolding off file_of_split by (simp add: chunk_off_def)
qed

lemma level_at_chunks:
  assumes "laid_out E iv hsz tbs hdr (a @ l @ b)" "reads_file E r (file_of E iv hdr (a @ l @ b)) tbs hsz (length hdr)"
    and E: "be16_ok E" "zlib_ok E" "MAX_RESTARTS E < 2 ^ 16"
    and ty: "\<forall>c \<in> set l. ck_typ c = ty" "b = [] \<or> ck_typ (hd b) \<noteq> ty" "reftable_is_block_type ty"
    and "case l @ b of [] \<Rightarrow> length (file_of E iv hdr (a @ l @ b)) \<le> off | c # _ \<Rightarrow> off = chunk_off E iv hdr a c"
  shows "level_at E r iv hsz ty off (offs_of E iv hdr a l)"
  using assms(1,2) ty(1) assms(9)
proof (induction l arbitrary: a off)
  case Nil
  have any: "ty \<noteq> BLOCK_TYPE_ANY" using ty(3) by (auto simp: reftable_is_block_type_def BLOCK_TYPE_ANY_def block_type_defs)
  show ?case
  proof (cases b)
    case bNil: Nil
    with Nil show ?thesis by (auto simp: reader_init_block_reader_def reads_file_def Let_def)
  next
    case (Cons c b')
    with Nil reader_init_chunk [of E iv hsz tbs hdr a c b' r] E any ty(2) show ?thesis by fastforce
  qed
next
  case (Cons c l)
  from reader_init_chunk [of E iv hsz tbs hdr a c "l @ b" r] Cons.prems E obtain br where
    br: "reader_init_block_reader E r off ty = Ok (Some br)" "br_reads E iv hsz ty (ck_recs c) br"
    "case l @ b of [] \<Rightarrow> length (file_of E iv hdr (a @ c # l @ b)) \<le> off + br_full_block_size br
       | c' # _ \<Rightarrow> chunk_off E iv hdr (a @ [c]) c' = off + br_full_block_size br" by auto
  have "chunk_ok E iv hsz tbs (pre_of hdr a) c" using laid_out_split [of E iv hsz tbs hdr a c "l @ b"] Cons.prems(1) by simp
  then have "block_at E r iv hsz ty off (ck_recs c) br" using br Cons.prems(3) by (simp add: block_at_def chunk_ok_def)
  moreover have "level_at E r iv hsz ty (off + br_full_block_size br) (offs_of E iv hdr (a @ [c]) l)"
    using Cons.prems br(3) by (intro Cons.IH) (auto split: list.splits)
  ultimately show ?case using Cons.prems(4) by auto
qed

lemma level_at_first:
  assumes "laid_out E iv hsz tbs hdr (a @ l @ b)" "reads_file E r (file_of E iv hdr (a @ l @ b)) tbs hsz (length hdr)"
    and "be16_ok E" "zlib_ok E" "MAX_RESTARTS E < 2 ^ 16"
    and "\<forall>c \<in> set l. ck_typ c = ty" "b = [] \<or> ck_typ (hd b) \<noteq> ty" "reftable_is_block_type ty" "l \<noteq> []"
  shows "level_at E r iv hsz ty (chunk_off E iv hdr a (hd l)) (offs_of E iv hdr a l)"
  by (rule level_at_chunks [OF assms(1-8)]) (use assms(9) in \<open>cases l; simp\<close>)

lemma level_blocks_chunks:
  assumes "laid_out E iv hsz tbs hdr (a @ l @ b)" "reads_file E r (file_of E iv hdr (a @ l @ b)) tbs hsz (length hdr)"
    and E: "be16_ok E" "zlib_ok E" "MAX_RESTARTS E < 2 ^ 16"
    and ty: "\<forall>c \<in> set l. ck_typ c = ty" and sz: "length (file_of E iv hdr (a @ l @ b)) \<le> 2 ^ 64"
  shows "level_blocks E r iv hsz ty (offs_of E iv hdr a l)"
proof -
  have "off < 2 ^ 64 \<and> (\<exists>br. block_at E r iv hsz ty off recs br)" if mem: "(off, recs) \<in> set (offs_of E iv hdr a l)" for off recs
  proof -
    from mem obtain x c y where c: "l = x @ c # y" "off = chunk_off E iv hdr (a @ x) c" "recs = ck_recs c" by (rule offs_of_split)
    then have l: "a @ l @ b = (a @ x) @ c # (y @ b)" by simp
    from reader_init_chunk [OF assms(1) [unfolded l] assms(2) [unfolded l] E] c(2) obtain br where
      "reader_init_block_reader E r off (ck_typ c) = Ok (Some br)" "br_reads E iv hsz (ck_typ c) (ck_recs c) br" by auto
    moreover have "ck_typ c = ty" using ty c(1) by simp
    moreover have "chunk_ok E iv hsz tbs (pre_of hdr (a @ x)) c" using laid_out_split [OF assms(1) [unfolded l]] by simp
    ultimately show ?thesis using offs_of_below [OF mem, of b] sz c(3) by (auto simp: block_at_def chunk_ok_def)
  qed
  then show ?thesis by (auto simp: level_blocks_def)
qed

text \<open>The levels of an index, as they lie in the file.\<close>

inductive indexed_in :: "reftable_env \<Rightarrow> nat \<Rightarrow> bytes \<Rightarrow> chunk list \<Rightarrow> nat \<Rightarrow> level \<Rightarrow> bool"
  for E iv hdr cs ioff where
  indexed_top: "cs = a @ u @ b \<Longrightarrow> u \<noteq> [] \<Longrightarrow> \<forall>c \<in> set u. ck_typ c = BLOCK_TYPE_INDEX
    \<Longrightarrow> b = [] \<or> ck_typ (hd b) \<noteq> BLOCK_TYPE_INDEX \<Longrightarrow> concat (map ck_recs u) = index_recs E lvl
    \<Longrightarrow> ioff = chunk_off E iv hdr a (hd u) \<Longrightarrow> indexed_in E iv hdr cs ioff lvl"
| indexed_step: "cs = a @ u @ b \<Longrightarrow> \<forall>c \<in> set u. ck_typ c = BLOCK_TYPE_INDEX
    \<Longrightarrow> concat (map ck_recs u) = index_recs E lvl \<Longrightarrow> indexed_in E iv hdr cs ioff (offs_of E iv hdr a u)
    \<Longrightarrow> indexed_in E iv hdr cs ioff lvl"

lemma indexed_in_over:
  assumes "indexed_in E iv hdr cs ioff lvl" "laid_out E iv hsz tbs hdr cs" "reads_file E r (file_of E iv hdr cs) tbs hsz (length hdr)"
    and E: "be16_ok E" "zlib_ok E" "MAX_RESTARTS E < 2 ^ 16" and sz: "length (file_of E iv hdr cs) \<le> 2 ^ 64"
  shows "index_over E r iv hsz ioff lvl"
  using assms(1)
proof (induction rule: indexed_in.induct)
  case (indexed_top a u b lvl)
  have "level_at E r iv hsz BLOCK_TYPE_INDEX ioff (offs_of E iv hdr a u)"
    using indexed_top assms(2,3) E level_at_first [of E iv hsz tbs hdr a u b r BLOCK_TYPE_INDEX]
    by (simp add: reftable_is_block_type_def)
  then show ?case by (rule index_over.index_top) (use indexed_top in simp_all)
next
  case (indexed_step a u b lvl)
  have "level_blocks E r iv hsz BLOCK_TYPE_INDEX (offs_of E iv hdr a u)"
    using indexed_step(1,2) assms(2,3) E sz by (intro level_blocks_chunks [where b = b]) auto
  then show ?case by (rule index_over.index_step) (use indexed_step in simp_all)
qed

text \<open>A section: blocks of one type, and the levels of its index if it has one.\<close>

lemma section_at_chunks:
  assumes cs: "cs = a @ l @ b" "l \<noteq> []" "\<forall>c \<in> set l. ck_typ c = ty" "b = [] \<or> ck_typ (hd b) \<noteq> ty" "reftable_is_block_type ty"
    and lay: "laid_out E iv hsz tbs hdr cs" "reads_file E r (file_of E iv hdr cs) tbs hsz (length hdr)"
    and E: "be16_ok E" "zlib_ok E" "MAX_RESTARTS E < 2 ^ 16" and sz: "length (file_of E iv hdr cs) \<le> 2 ^ 64"
    and offs: "reader_offsets_for r ty = Ok offs" "ro_offset offs = chunk_off E iv hdr a (hd l)"
    and idx: "ro_index_offset offs = 0 \<or> indexed_in E iv hdr cs (ro_index_offset offs) (offs_of E iv hdr a l)"
  shows "section_at E r iv hsz ty (concat (map ck_recs l))"
proof -
  have "level_at E r iv hsz ty (ro_offset offs) (offs_of E iv hdr a l)"
    using cs lay E offs(2) level_at_first [of E iv hsz tbs hdr a l b r ty] by simp
  moreover have "\<forall>(off, recs) \<in> set (offs_of E iv hdr a l). off < 2 ^ 64"
    using offs_of_below [of _ _ E iv hdr a l b] sz cs(1) by fastforce
  moreover have "ro_index_offset offs = 0 \<or> index_over E r iv hsz (ro_index_offset offs) (offs_of E iv hdr a l)"
    using idx indexed_in_over [OF _ lay E sz] by blast
  ultimately show ?thesis
    using offs(1) cs(2) unfolding section_at_def
    by (intro exI [of _ offs] exI [of _ "offs_of E iv hdr a l"] conjI) simp_all
qed

end
