(* ===== verification/Reft_Writer.thy ===== *)
theory Reft_Writer
  imports Reft_Block Reft_Tree
begin

text \<open>
  Writing a table (\<open>reftable_writer.c\<close>). The functions \<open>write\<close> and \<open>flush\<close> that the caller of
  \<open>reftable_writer_new\<close> passes are a record of operations on the state of the caller. The block
  under construction and \<open>w->block\<close> are one buffer in C: while there is a block writer, it holds the
  buffer. A node of the object index is identified by its hash, and the offsets that it collects are
  a map from hashes. File offsets and counters are natural numbers.
\<close>

unbundle bit_operations_syntax

section \<open>State\<close>

record 's write_ops =
  wf_write :: "'s \<Rightarrow> bytes \<Rightarrow> 's res"
  wf_flush :: "'s \<Rightarrow> 's res"

record reftable_write_options =
  wo_unpadded :: bool
  wo_block_size :: nat
  wo_skip_index_objects :: bool
  wo_restart_interval :: nat
  wo_hash_id :: reftable_hash
  wo_exact_log_message :: bool

record reftable_block_stats =
  st_entries :: nat
  st_restarts :: nat
  st_blocks :: nat
  st_index_blocks :: nat
  st_max_index_level :: nat
  st_offset :: nat
  st_index_offset :: nat

record reftable_stats =
  st_all_blocks :: nat
  st_ref :: reftable_block_stats
  st_obj :: reftable_block_stats
  st_idx :: reftable_block_stats
  st_log :: reftable_block_stats
  st_object_id_len :: nat

record 's reftable_writer =
  wr_sink :: 's
  wr_opts :: reftable_write_options
  wr_next :: nat
  wr_pending_padding :: nat
  wr_min_update_index :: u64
  wr_max_update_index :: u64
  wr_last_key :: bytes
  wr_block :: bytes
  wr_block_writer :: "block_writer option"
  wr_index :: "index_record list"
  wr_obj_index_tree :: "bytes tree_node"
  wr_obj_offsets :: "bytes \<Rightarrow> nat list"
  wr_stats :: reftable_stats

definition writer_memory :: "'s reftable_writer \<Rightarrow> bytes" where
  "writer_memory w = (case wr_block_writer w of Some bw \<Rightarrow> bw_block bw | None \<Rightarrow> wr_block w)"

definition writer_reftable_block_stats :: "'s reftable_writer \<Rightarrow> byte \<Rightarrow> reftable_block_stats res" where
  "writer_reftable_block_stats w typ =
     (if typ = 114 then Ok (st_ref (wr_stats w))
      else if typ = 111 then Ok (st_obj (wr_stats w))
      else if typ = 105 then Ok (st_idx (wr_stats w))
      else if typ = 103 then Ok (st_log (wr_stats w))
      else Crash Abort)"

text \<open>Storing through the pointer that \<open>writer_reftable_block_stats\<close> returns.\<close>

definition put_block_stats :: "byte \<Rightarrow> reftable_block_stats \<Rightarrow> reftable_stats \<Rightarrow> reftable_stats" where
  "put_block_stats typ bstats stats =
     (if typ = 114 then stats\<lparr>st_ref := bstats\<rparr>
      else if typ = 111 then stats\<lparr>st_obj := bstats\<rparr>
      else if typ = 105 then stats\<lparr>st_idx := bstats\<rparr>
      else stats\<lparr>st_log := bstats\<rparr>)"

section \<open>Output\<close>

definition padded_write ::
  "reftable_env \<Rightarrow> 's write_ops \<Rightarrow> 's reftable_writer \<Rightarrow> bytes \<Rightarrow> nat \<Rightarrow> 's reftable_writer res" where
  "padded_write E S w data padding =
     res_bind
       (if wr_pending_padding w > 0 then
          (if \<not> alloc_array E (wr_pending_padding w) then Err GENERAL_ERROR
           else wf_write S (wr_sink w) (replicate (wr_pending_padding w) 0))
        else Ok (wr_sink w)) (\<lambda>sink.
     res_bind (wf_write S sink data) (\<lambda>sink.
       Ok (w\<lparr>wr_sink := sink, wr_pending_padding := padding\<rparr>)))"

definition options_set_defaults :: "reftable_env \<Rightarrow> reftable_write_options \<Rightarrow> reftable_write_options" where
  "options_set_defaults E opts =
     opts\<lparr>wo_restart_interval := (if wo_restart_interval opts = 0 then 16 else wo_restart_interval opts),
          wo_hash_id := (if wo_hash_id opts = HASH_NONE then HASH_SHA1 else wo_hash_id opts),
          wo_block_size := (if wo_block_size opts = 0 then DEFAULT_BLOCK_SIZE E else wo_block_size opts)\<rparr>"

definition writer_version :: "'s reftable_writer \<Rightarrow> nat" where
  "writer_version w =
     (if wo_hash_id (wr_opts w) = HASH_NONE \<or> wo_hash_id (wr_opts w) = HASH_SHA1 then 1 else 2)"

definition REFT_MAGIC :: bytes where
  "REFT_MAGIC = [82, 69, 70, 84]"

text \<open>
  The bytes of the header, whose number is the result in C: a part that is always there, and the
  hash format of the second version, which may be refused.
\<close>

definition writer_header_prefix :: "reftable_env \<Rightarrow> 's reftable_writer \<Rightarrow> bytes" where
  "writer_header_prefix E w =
     REFT_MAGIC @ [word_of_nat (writer_version w)] @ put_be24 (word_of_nat (wo_block_size (wr_opts w)))
     @ put_be64 E (wr_min_update_index w) @ put_be64 E (wr_max_update_index w)"

definition writer_write_header :: "reftable_env \<Rightarrow> 's reftable_writer \<Rightarrow> bytes res" where
  "writer_write_header E w =
     res_bind
       (if writer_version w = 2 then
          (if wo_hash_id (wr_opts w) = HASH_SHA1 then Ok (put_be32 E (FORMAT_ID_SHA1 E))
           else if wo_hash_id (wr_opts w) = HASH_SHA256 then Ok (put_be32 E (FORMAT_ID_SHA256 E))
           else Err GENERAL_ERROR)
        else Ok []) (\<lambda>hash_id. Ok (writer_header_prefix E w @ hash_id))"

definition writer_reinit_block_writer ::
  "reftable_env \<Rightarrow> 's reftable_writer \<Rightarrow> byte \<Rightarrow> 's reftable_writer res" where
  "writer_reinit_block_writer E w typ =
     res_bind (if wr_next w = 0 then header_size (writer_version w) else Ok 0) (\<lambda>block_start.
     res_bind (hash_size E (wo_hash_id (wr_opts w))) (\<lambda>hsz.
     res_bind (block_writer_init typ (writer_memory w) (wo_block_size (wr_opts w)) block_start hsz) (\<lambda>bw.
       Ok (w\<lparr>wr_last_key := [], wr_block := bw_block bw,
             wr_block_writer := Some (bw\<lparr>bw_restart_interval := wo_restart_interval (wr_opts w)\<rparr>)\<rparr>))))"

definition zero_block_stats :: reftable_block_stats where
  "zero_block_stats = \<lparr>st_entries = 0, st_restarts = 0, st_blocks = 0, st_index_blocks = 0,
     st_max_index_level = 0, st_offset = 0, st_index_offset = 0\<rparr>"

definition zero_write_options :: reftable_write_options where
  "zero_write_options = \<lparr>wo_unpadded = False, wo_block_size = 0, wo_skip_index_objects = False,
     wo_restart_interval = 0, wo_hash_id = HASH_NONE, wo_exact_log_message = False\<rparr>"

text \<open>\<open>writer_reinit_block_writer\<close> may fail; \<open>reftable_writer_new\<close> does not look at its result.\<close>

definition reftable_writer_new ::
  "reftable_env \<Rightarrow> 's \<Rightarrow> reftable_write_options option \<Rightarrow> 's reftable_writer res" where
  "reftable_writer_new E sink opts_ptr =
     (let opts = options_set_defaults E (case opts_ptr of Some opts \<Rightarrow> opts | None \<Rightarrow> zero_write_options) in
      if wo_block_size opts \<ge> 2 ^ 24 then Crash Bug
      else if \<not> alloc_array E (wo_block_size opts) then Err OUT_OF_MEMORY_ERROR
      else let w = \<lparr>wr_sink = sink, wr_opts = opts, wr_next = 0, wr_pending_padding = 0,
             wr_min_update_index = 0, wr_max_update_index = 0, wr_last_key = [],
             wr_block = replicate (wo_block_size opts) 0, wr_block_writer = None, wr_index = [],
             wr_obj_index_tree = Leaf, wr_obj_offsets = (\<lambda>_. []),
             wr_stats = \<lparr>st_all_blocks = 0, st_ref = zero_block_stats, st_obj = zero_block_stats,
               st_idx = zero_block_stats, st_log = zero_block_stats, st_object_id_len = 0\<rparr>\<rparr> in
        case writer_reinit_block_writer E w BLOCK_TYPE_REF of
          Ok w \<Rightarrow> Ok w | Err _ \<Rightarrow> Ok w | Crash c \<Rightarrow> Crash c)"

definition reftable_writer_set_limits :: "'s reftable_writer \<Rightarrow> u64 \<Rightarrow> u64 \<Rightarrow> 's reftable_writer" where
  "reftable_writer_set_limits w mn mx = w\<lparr>wr_min_update_index := mn, wr_max_update_index := mx\<rparr>"

section \<open>Flushing a block\<close>

definition writer_clear_index :: "'s reftable_writer \<Rightarrow> 's reftable_writer" where
  "writer_clear_index w = w\<lparr>wr_index := []\<rparr>"

definition add_block_stats :: "block_writer \<Rightarrow> nat \<Rightarrow> reftable_block_stats \<Rightarrow> reftable_block_stats" where
  "add_block_stats bw off bstats =
     (let block_typ_off = (if st_blocks bstats = 0 then off else 0) in
      bstats\<lparr>st_offset := (if block_typ_off > 0 then block_typ_off else st_offset bstats),
             st_entries := st_entries bstats + bw_entries bw,
             st_restarts := st_restarts bstats + length (bw_restarts bw),
             st_blocks := st_blocks bstats + 1\<rparr>)"

text \<open>The header goes to the beginning of the first block; its result is not looked at.\<close>

definition write_first_header :: "reftable_env \<Rightarrow> 's reftable_writer \<Rightarrow> bytes \<Rightarrow> bytes res" where
  "write_first_header E w block =
     (if wr_next w = 0 then
        (case writer_write_header E w of
           Ok hdr \<Rightarrow> write_at 0 hdr block | Err _ \<Rightarrow> write_at 0 (writer_header_prefix E w) block | Crash c \<Rightarrow> Crash c)
      else Ok block)"

definition writer_flush_nonempty_block ::
  "reftable_env \<Rightarrow> 's write_ops \<Rightarrow> 's reftable_writer \<Rightarrow> block_writer \<Rightarrow> 's reftable_writer res" where
  "writer_flush_nonempty_block E S w bw0 =
     res_bind (block_writer_type bw0) (\<lambda>typ.
     res_bind (block_writer_finish E bw0) (\<lambda>(bw, raw_bytes).
     let padding = (if \<not> wo_unpadded (wr_opts w) \<and> typ \<noteq> BLOCK_TYPE_LOG
                    then wo_block_size (wr_opts w) - raw_bytes else 0) in
     res_bind (writer_reftable_block_stats w typ) (\<lambda>bstats.
     let stats = put_block_stats typ (add_block_stats bw (wr_next w) bstats) (wr_stats w);
         stats = stats\<lparr>st_all_blocks := st_all_blocks stats + 1\<rparr> in
     res_bind (write_first_header E w (bw_block bw)) (\<lambda>block.
     res_bind (padded_write E S w (take raw_bytes block) padding) (\<lambda>w.
       Ok (w\<lparr>wr_stats := stats, wr_block := block,
             wr_index := wr_index w @ [\<lparr>idx_last_key = bw_last_key bw, idx_offset = word_of_nat (wr_next w)\<rparr>],
             wr_next := wr_next w + padding + raw_bytes, wr_block_writer := None\<rparr>))))))"

definition writer_flush_block :: "reftable_env \<Rightarrow> 's write_ops \<Rightarrow> 's reftable_writer \<Rightarrow> 's reftable_writer res" where
  "writer_flush_block E S w =
     (case wr_block_writer w of
        None \<Rightarrow> Ok w
      | Some bw \<Rightarrow> if bw_entries bw = 0 then Ok w else writer_flush_nonempty_block E S w bw)"

section \<open>Adding records\<close>

definition obj_index_tree_node_compare :: "bytes \<Rightarrow> bytes \<Rightarrow> int" where
  "obj_index_tree_node_compare a b = reftable_buf_cmp a b"

definition writer_index_hash :: "'s reftable_writer \<Rightarrow> bytes \<Rightarrow> 's reftable_writer" where
  "writer_index_hash w hash =
     (let off = wr_next w;
          (tree, offsets, key) =
            (case tree_search (wr_obj_index_tree w) hash obj_index_tree_node_compare of
               None \<Rightarrow> (fst (tree_insert (wr_obj_index_tree w) hash obj_index_tree_node_compare),
                        (wr_obj_offsets w)(hash := []), hash)
             | Some key \<Rightarrow> (wr_obj_index_tree w, wr_obj_offsets w, key));
          offsets = (if offsets key \<noteq> [] \<and> last (offsets key) = off then offsets
                     else offsets(key := offsets key @ [off])) in
      w\<lparr>wr_obj_index_tree := tree, wr_obj_offsets := offsets\<rparr>)"

definition block_writer_of :: "'s reftable_writer \<Rightarrow> block_writer res" where
  "block_writer_of w = (case wr_block_writer w of None \<Rightarrow> Crash Null_Deref | Some bw \<Rightarrow> Ok bw)"

definition writer_add_record ::
  "reftable_env \<Rightarrow> 's write_ops \<Rightarrow> 's reftable_writer \<Rightarrow> reftable_record \<Rightarrow> 's reftable_writer res" where
  "writer_add_record E S w rec =
     res_bind (reftable_record_key E rec) (\<lambda>key.
     if reftable_buf_cmp (wr_last_key w) key \<ge> 0 then Err API_ERROR
     else let w = w\<lparr>wr_last_key := key\<rparr> in
     res_bind (if wr_block_writer w = None then writer_reinit_block_writer E w (reftable_record_type rec)
               else Ok w) (\<lambda>w.
     res_bind (block_writer_of w) (\<lambda>bw.
     res_bind (block_writer_type bw) (\<lambda>typ.
     if typ \<noteq> reftable_record_type rec then Crash Bug
     else case block_writer_add E bw rec of
       Ok bw \<Rightarrow> Ok (w\<lparr>wr_block_writer := Some bw\<rparr>)
     | Crash c \<Rightarrow> Crash c
     | Err _ \<Rightarrow>
         res_bind (writer_flush_block E S w) (\<lambda>w.
         res_bind (writer_reinit_block_writer E w (reftable_record_type rec)) (\<lambda>w.
         res_bind (block_writer_of w) (\<lambda>bw.
         res_bind (or_error ENTRY_TOO_BIG_ERROR (block_writer_add E bw rec)) (\<lambda>bw.
           Ok (w\<lparr>wr_block_writer := Some bw\<rparr>)))))))))"

text \<open>Indexing one of the hashes of a reference, if it has it.\<close>

definition writer_index_ref_hash ::
  "reftable_env \<Rightarrow> 's reftable_writer \<Rightarrow> bytes option \<Rightarrow> 's reftable_writer res" where
  "writer_index_ref_hash E w v =
     (case v of
        Some h \<Rightarrow>
          if wo_skip_index_objects (wr_opts w) then Ok w
          else res_bind (hash_size E (wo_hash_id (wr_opts w))) (\<lambda>hsz.
            res_bind (read_at 0 hsz h) (\<lambda>hash. Ok (writer_index_hash w hash)))
      | None \<Rightarrow> Ok w)"

definition reftable_writer_add_ref ::
  "reftable_env \<Rightarrow> 's write_ops \<Rightarrow> 's reftable_writer \<Rightarrow> ref_record \<Rightarrow> 's reftable_writer res" where
  "reftable_writer_add_ref E S w ref =
     (if ref_name ref = None \<or> ref_update_index ref < wr_min_update_index w
         \<or> ref_update_index ref > wr_max_update_index w then Err API_ERROR
      else res_bind (writer_add_record E S w
          (Rec_Ref (ref\<lparr>ref_update_index := ref_update_index ref - wr_min_update_index w\<rparr>))) (\<lambda>w.
        res_bind (writer_index_ref_hash E w (reftable_ref_record_val1 ref)) (\<lambda>w.
          writer_index_ref_hash E w (reftable_ref_record_val2 ref))))"

text \<open>
  \<open>qsort\<close> of the C library, for a comparison that may crash: some order in which no element is
  greater than its successor. Insertion sort gives one.
\<close>

fun insert_by :: "('a \<Rightarrow> 'a \<Rightarrow> int res) \<Rightarrow> 'a \<Rightarrow> 'a list \<Rightarrow> 'a list res" where
  "insert_by cmp x [] = Ok [x]"
| "insert_by cmp x (y # ys) =
     res_bind (cmp x y) (\<lambda>c.
       if c \<le> 0 then Ok (x # y # ys) else res_bind (insert_by cmp x ys) (\<lambda>zs. Ok (y # zs)))"

fun qsort_by :: "('a \<Rightarrow> 'a \<Rightarrow> int res) \<Rightarrow> 'a list \<Rightarrow> 'a list res" where
  "qsort_by cmp [] = Ok []"
| "qsort_by cmp (x # xs) = res_bind (qsort_by cmp xs) (insert_by cmp x)"

fun writer_add_ref_list ::
  "reftable_env \<Rightarrow> 's write_ops \<Rightarrow> 's reftable_writer \<Rightarrow> ref_record list \<Rightarrow> 's reftable_writer res" where
  "writer_add_ref_list E S w [] = Ok w"
| "writer_add_ref_list E S w (r # rs) =
     res_bind (reftable_writer_add_ref E S w r) (\<lambda>w. writer_add_ref_list E S w rs)"

definition reftable_writer_add_refs ::
  "reftable_env \<Rightarrow> 's write_ops \<Rightarrow> 's reftable_writer \<Rightarrow> ref_record list \<Rightarrow> 's reftable_writer res" where
  "reftable_writer_add_refs E S w refs =
     res_bind (qsort_by reftable_ref_record_compare_name refs) (writer_add_ref_list E S w)"

section \<open>Finishing a section\<close>

fun writer_add_index_list ::
  "reftable_env \<Rightarrow> 's write_ops \<Rightarrow> 's reftable_writer \<Rightarrow> index_record list \<Rightarrow> 's reftable_writer res" where
  "writer_add_index_list E S w [] = Ok w"
| "writer_add_index_list E S w (i # is) =
     res_bind (writer_add_record E S w (Rec_Index i)) (\<lambda>w. writer_add_index_list E S w is)"

text \<open>One level of the index: its records point to the blocks of the level below.\<close>

definition writer_index_level ::
  "reftable_env \<Rightarrow> 's write_ops \<Rightarrow> 's reftable_writer \<Rightarrow> 's reftable_writer res" where
  "writer_index_level E S w =
     res_bind (writer_reinit_block_writer E w BLOCK_TYPE_INDEX) (\<lambda>w.
     res_bind (writer_add_index_list E S (w\<lparr>wr_index := []\<rparr>) (wr_index w)) (\<lambda>w.
       writer_flush_block E S w))"

text \<open>
  The loop over the levels ends when a level has few enough blocks. It does not end when the blocks
  are so small that the levels do not become shorter.
\<close>

partial_function (option) writer_index_levels ::
  "reftable_env \<Rightarrow> 's write_ops \<Rightarrow> nat \<Rightarrow> 's reftable_writer \<Rightarrow> nat \<Rightarrow> nat \<Rightarrow> ('s reftable_writer \<times> nat \<times> nat) run" where
  "writer_index_levels E S threshold w index_start max_level =
     (if length (wr_index w) > threshold then
        run_bind (Some (writer_index_level E S w)) (\<lambda>w'.
          writer_index_levels E S threshold w' (wr_next w) (max_level + 1))
      else Some (Ok (w, index_start, max_level)))"

declare writer_index_levels.simps [code]

definition writer_finish_section ::
  "reftable_env \<Rightarrow> 's write_ops \<Rightarrow> 's reftable_writer \<Rightarrow> 's reftable_writer run" where
  "writer_finish_section E S w =
     run_bind (Some (block_writer_of w)) (\<lambda>bw.
     run_bind (Some (block_writer_type bw)) (\<lambda>typ.
     let threshold = (if wo_unpadded (wr_opts w) then 1 else 3);
         before_blocks = st_blocks (st_idx (wr_stats w)) in
     run_bind (Some (writer_flush_block E S w)) (\<lambda>w.
     run_bind (writer_index_levels E S threshold w 0 0) (\<lambda>(w, index_start, max_level).
     let w = writer_clear_index w in
     run_bind (Some (writer_reftable_block_stats w typ)) (\<lambda>bstats.
     let bstats = bstats\<lparr>st_index_blocks := st_blocks (st_idx (wr_stats w)) - before_blocks,
                         st_index_offset := index_start, st_max_index_level := max_level\<rparr> in
     Some (Ok (w\<lparr>wr_stats := put_block_stats typ bstats (wr_stats w), wr_last_key := []\<rparr>)))))))"

section \<open>The object index\<close>

definition update_common :: "(bytes option \<times> nat) \<Rightarrow> bytes \<Rightarrow> (bytes option \<times> nat) res" where
  "update_common arg hash =
     (case arg of
        (None, mx) \<Rightarrow> Ok (Some hash, mx)
      | (Some lst, mx) \<Rightarrow> let n = common_prefix_size hash lst in Ok (Some hash, if n > mx then n else mx))"

text \<open>
  \<open>write_object_record\<close> keeps the first error in its argument and skips the remaining objects. An
  object with too many offsets for a fresh block is written without them.
\<close>

definition write_object_record ::
  "reftable_env \<Rightarrow> 's write_ops \<Rightarrow> ('s reftable_writer \<times> error option) \<Rightarrow> bytes \<Rightarrow> ('s reftable_writer \<times> error option) res" where
  "write_object_record E S arg hash =
     (case arg of
        (w, Some e) \<Rightarrow> Ok (w, Some e)
      | (w, None) \<Rightarrow>
          res_bind (read_at 0 (st_object_id_len (wr_stats w)) hash) (\<lambda>pre.
          let rec = \<lparr>obj_hash_prefix = pre, obj_offsets = map word_of_nat (wr_obj_offsets w hash)\<rparr> in
          res_bind (block_writer_of w) (\<lambda>bw.
          case block_writer_add E bw (Rec_Obj rec) of
            Ok bw \<Rightarrow> Ok (w\<lparr>wr_block_writer := Some bw\<rparr>, None)
          | Crash c \<Rightarrow> Crash c
          | Err _ \<Rightarrow>
              (case res_bind (writer_flush_block E S w) (\<lambda>w. writer_reinit_block_writer E w BLOCK_TYPE_OBJ) of
                 Crash c \<Rightarrow> Crash c
               | Err e \<Rightarrow> Ok (w, Some e)
               | Ok w \<Rightarrow>
                   res_bind (block_writer_of w) (\<lambda>bw.
                   case block_writer_add E bw (Rec_Obj rec) of
                     Ok bw \<Rightarrow> Ok (w\<lparr>wr_block_writer := Some bw\<rparr>, None)
                   | Crash c \<Rightarrow> Crash c
                   | Err _ \<Rightarrow>
                       (case block_writer_add E bw (Rec_Obj (rec\<lparr>obj_offsets := []\<rparr>)) of
                          Ok bw \<Rightarrow> Ok (w\<lparr>wr_block_writer := Some bw\<rparr>, None)
                        | Crash c \<Rightarrow> Crash c
                        | Err _ \<Rightarrow> Crash Assert_Failed))))))"

definition writer_dump_object_index ::
  "reftable_env \<Rightarrow> 's write_ops \<Rightarrow> 's reftable_writer \<Rightarrow> 's reftable_writer run" where
  "writer_dump_object_index E S w =
     run_bind (Some (if wr_obj_index_tree w \<noteq> Leaf then infix_walk (wr_obj_index_tree w) update_common (None, 1)
                     else Ok (None, 1))) (\<lambda>(_, mx).
     let w = w\<lparr>wr_stats := (wr_stats w)\<lparr>st_object_id_len := mx + 1\<rparr>\<rparr> in
     run_bind (Some (writer_reinit_block_writer E w BLOCK_TYPE_OBJ)) (\<lambda>w.
     run_bind (Some (if wr_obj_index_tree w \<noteq> Leaf
                     then infix_walk (wr_obj_index_tree w) (write_object_record E S) (w, None)
                     else Ok (w, None))) (\<lambda>(w, err).
       case err of Some e \<Rightarrow> Some (Err e) | None \<Rightarrow> writer_finish_section E S w)))"

definition writer_finish_public_section ::
  "reftable_env \<Rightarrow> 's write_ops \<Rightarrow> 's reftable_writer \<Rightarrow> 's reftable_writer run" where
  "writer_finish_public_section E S w =
     (case wr_block_writer w of
        None \<Rightarrow> Some (Ok w)
      | Some bw \<Rightarrow>
          run_bind (Some (block_writer_type bw)) (\<lambda>typ.
          run_bind (writer_finish_section E S w) (\<lambda>w.
          run_bind (if typ = BLOCK_TYPE_REF \<and> \<not> wo_skip_index_objects (wr_opts w)
                       \<and> st_index_blocks (st_ref (wr_stats w)) > 0
                    then writer_dump_object_index E S w else Some (Ok w)) (\<lambda>w.
            Some (Ok (w\<lparr>wr_obj_index_tree := Leaf, wr_obj_offsets := (\<lambda>_. []),
                        wr_block := writer_memory w, wr_block_writer := None\<rparr>))))))"

section \<open>Log records\<close>

definition reftable_writer_add_log_verbatim ::
  "reftable_env \<Rightarrow> 's write_ops \<Rightarrow> 's reftable_writer \<Rightarrow> log_record \<Rightarrow> 's reftable_writer run" where
  "reftable_writer_add_log_verbatim E S w log =
     run_bind
       (case wr_block_writer w of
          None \<Rightarrow> Some (Ok w)
        | Some bw \<Rightarrow> run_bind (Some (block_writer_type bw)) (\<lambda>typ.
            if typ = BLOCK_TYPE_REF then writer_finish_public_section E S w else Some (Ok w))) (\<lambda>w.
     let w = w\<lparr>wr_next := wr_next w - wr_pending_padding w, wr_pending_padding := 0\<rparr> in
     Some (writer_add_record E S w (Rec_Log log)))"

text \<open>A message loses its trailing newlines, may not have another one, and gets one at its end.\<close>

definition clean_log_message :: "bytes \<Rightarrow> bytes res" where
  "clean_log_message msg =
     (let cleaned = rev (dropWhile (\<lambda>b. b = 10) (rev (c_str msg))) in
      if 10 \<in> set cleaned then Err API_ERROR else Ok (cleaned @ [10]))"

fun log_value_message :: "log_value \<Rightarrow> bytes option" where
  "log_value_message Log_Deletion = None"
| "log_value_message (Log_Update u) = log_message u"
| "log_value_message (Log_Other _ u) = log_message u"

fun with_log_message :: "log_value \<Rightarrow> bytes option \<Rightarrow> log_value" where
  "with_log_message Log_Deletion m = Log_Deletion"
| "with_log_message (Log_Update u) m = Log_Update (u\<lparr>log_message := m\<rparr>)"
| "with_log_message (Log_Other t u) m = Log_Other t (u\<lparr>log_message := m\<rparr>)"

definition reftable_writer_add_log ::
  "reftable_env \<Rightarrow> 's write_ops \<Rightarrow> 's reftable_writer \<Rightarrow> log_record \<Rightarrow> 's reftable_writer run" where
  "reftable_writer_add_log E S w log =
     (if log_value log = Log_Deletion then reftable_writer_add_log_verbatim E S w log
      else if log_update_index log > wr_max_update_index w then Some (Err API_ERROR)
      else if log_name log = None then Some (Err API_ERROR)
      else run_bind
        (case log_value_message (log_value log) of
           Some msg \<Rightarrow>
             if wo_exact_log_message (wr_opts w) then Some (Ok log)
             else run_bind (Some (clean_log_message msg)) (\<lambda>m.
               Some (Ok (log\<lparr>log_value := with_log_message (log_value log) (Some m)\<rparr>)))
         | None \<Rightarrow> Some (Ok log)) (\<lambda>log.
        reftable_writer_add_log_verbatim E S w log))"

fun writer_add_log_list ::
  "reftable_env \<Rightarrow> 's write_ops \<Rightarrow> 's reftable_writer \<Rightarrow> log_record list \<Rightarrow> 's reftable_writer run" where
  "writer_add_log_list E S w [] = Some (Ok w)"
| "writer_add_log_list E S w (l # ls) =
     run_bind (reftable_writer_add_log E S w l) (\<lambda>w. writer_add_log_list E S w ls)"

definition reftable_writer_add_logs ::
  "reftable_env \<Rightarrow> 's write_ops \<Rightarrow> 's reftable_writer \<Rightarrow> log_record list \<Rightarrow> 's reftable_writer run" where
  "reftable_writer_add_logs E S w logs =
     run_bind (Some (qsort_by reftable_log_record_compare_key logs)) (writer_add_log_list E S w)"

section \<open>Closing the table\<close>

definition writer_footer :: "reftable_env \<Rightarrow> 's reftable_writer \<Rightarrow> bytes res" where
  "writer_footer E w =
     (case writer_write_header E w of
        Crash c \<Rightarrow> Crash c
      | Err _ \<Rightarrow> Crash Out_Of_Bounds
      | Ok hdr \<Rightarrow>
          let stats = wr_stats w;
              body = hdr @ put_be64 E (word_of_nat (st_index_offset (st_ref stats)))
                @ put_be64 E (push_bit 5 (word_of_nat (st_offset (st_obj stats))) OR word_of_nat (st_object_id_len stats))
                @ put_be64 E (word_of_nat (st_index_offset (st_obj stats)))
                @ put_be64 E (word_of_nat (st_offset (st_log stats)))
                @ put_be64 E (word_of_nat (st_index_offset (st_log stats))) in
          Ok (body @ put_be32 E (crc32 E body)))"

text \<open>What has been written, and whether the table is empty, which is reported as an error.\<close>

definition writer_close_output ::
  "reftable_env \<Rightarrow> 's write_ops \<Rightarrow> 's reftable_writer \<Rightarrow> ('s \<times> bool) run" where
  "writer_close_output E S w =
     run_bind (writer_finish_public_section E S w) (\<lambda>w.
     let empty_table = (wr_next w = 0);
         w = w\<lparr>wr_pending_padding := 0\<rparr> in
     run_bind (Some
       (if empty_table then
          (case writer_write_header E w of
             Crash c \<Rightarrow> Crash c | Err _ \<Rightarrow> Crash Out_Of_Bounds | Ok hdr \<Rightarrow> padded_write E S w hdr 0)
        else Ok w)) (\<lambda>w.
     run_bind (Some (writer_footer E w)) (\<lambda>footer.
     run_bind (Some (or_error IO_ERROR (wf_flush S (wr_sink w)))) (\<lambda>sink.
     run_bind (Some (padded_write E S (w\<lparr>wr_sink := sink\<rparr>) footer 0)) (\<lambda>w.
       Some (Ok (wr_sink w, empty_table)))))))"

definition reftable_writer_close ::
  "reftable_env \<Rightarrow> 's write_ops \<Rightarrow> 's reftable_writer \<Rightarrow> 's run" where
  "reftable_writer_close E S w =
     run_bind (writer_close_output E S w) (\<lambda>(sink, empty_table).
       if empty_table then Some (Err EMPTY_TABLE_ERROR) else Some (Ok sink))"

definition reftable_writer_stats :: "'s reftable_writer \<Rightarrow> reftable_stats" where
  "reftable_writer_stats w = wr_stats w"

end
