(* ===== verification/Reft_Writer_Inv.thy ===== *)
theory Reft_Writer_Inv
  imports Reft_Layout Reft_Writer
begin

text \<open>
  The invariant of the writer: what has been written so far is the image of a list of chunks, the
  block under construction is the image of some records, the pending index is the index of the
  current level, and the statistics count the chunks. Flushing a block, adding a record and
  writing the levels of an index keep it.
\<close>

section \<open>Finishing a block\<close>

lemma write_restarts_same:
  "write_restarts rs w = Ok w' \<Longrightarrow> bw_last_key w' = bw_last_key w \<and> bw_entries w' = bw_entries w \<and> bw_restarts w' = bw_restarts w"
  by (induction rs arbitrary: w) (fastforce simp: res_bind_eq_Ok)+

lemma block_writer_finish_same:
  assumes "block_writer_finish E w = Ok (w', n)"
  shows "bw_last_key w' = bw_last_key w" "bw_entries w' = bw_entries w" "bw_restarts w' = bw_restarts w"
  using assms by (auto simp: block_writer_finish_def res_bind_eq_Ok Let_def split: if_splits dest!: write_restarts_same)

text \<open>What a finished block has behind its header.\<close>

lemma block_writer_finish_chunk:
  assumes inv: "bw_inv E iv ty recs bw" "recs \<noteq> []" and fin: "block_writer_finish E bw = Ok (bw', n)"
  defines "H \<equiv> bw_header_off bw"
  shows "take n (bw_block bw') = take H (bw_block bw') @ block_head E iv ty recs H @ stored_content E iv ty recs H"
    and "n = H + 4 + length (stored_content E iv ty recs H)" "n \<le> bw_block_size bw" "H \<le> length (bw_block bw')"
    and "length (bw_block bw') = bw_block_size bw" "block_len E iv recs H \<le> bw_block_size bw"
    and "bw_last_key bw' = key_of E (last recs)"
proof -
  have len: "length (bw_block bw) = bw_block_size bw" "H + 4 \<le> bw_block_size bw" using inv(1) by (simp_all add: bw_inv_def H_def)
  have bl: "block_len E iv recs H \<le> bw_block_size bw"
  proof -
    have "block_len E iv recs H = bw_next bw + 2 + 3 * length (bw_restarts bw)"
      using inv(1) by (simp add: block_len_def block_content_def restart_offsets_def bw_inv_def H_def)
    also have "\<dots> \<le> bw_block_size bw" using inv unfolding bw_inv_def by blast
    finally show ?thesis .
  qed
  let ?c = "block_content E iv recs H" and ?h = "block_head E iv ty recs H" and ?pre = "take H (bw_block bw)"
  have raw: "raw_block E iv ty recs bw = ?pre @ ?h @ ?c @ drop (block_len E iv recs H) (bw_block bw)"
    by (simp add: raw_block_def H_def)
  have lenraw: "length (raw_block E iv ty recs bw) = bw_block_size bw" using len bl by (simp add: raw block_len_def)
  have preH: "length ?pre = H" using len by simp
  obtain w' where w': "block_writer_finish E bw =
    (if ty = BLOCK_TYPE_LOG
     then res_bind (write_at (4 + H) (deflate E ?c) (raw_block E iv ty recs bw)) (\<lambda>block.
            Ok (w'\<lparr>bw_block := block, bw_next := length (deflate E ?c) + (4 + H)\<rparr>, length (deflate E ?c) + (4 + H)))
     else Ok (w', block_len E iv recs H))" "bw_block w' = raw_block E iv ty recs bw"
    using block_writer_finish_eq [OF inv] unfolding H_def [symmetric] by blast
  have "\<exists>rest. bw_block bw' = ?pre @ ?h @ stored_content E iv ty recs H @ rest \<and> n = H + 4 + length (stored_content E iv ty recs H)
    \<and> length (bw_block bw') = bw_block_size bw \<and> n \<le> bw_block_size bw"
  proof (cases "ty = BLOCK_TYPE_LOG")
    case True
    with fin w' obtain block where b: "write_at (4 + H) (deflate E ?c) (raw_block E iv ty recs bw) = Ok block"
      "bw_block bw' = block" "n = length (deflate E ?c) + (4 + H)" by (auto simp: res_bind_eq_Ok)
    then have in_block: "4 + H + length (deflate E ?c) \<le> bw_block_size bw"
      and block: "block = take (4 + H) (raw_block E iv ty recs bw) @ deflate E ?c @ drop (4 + H + length (deflate E ?c)) (raw_block E iv ty recs bw)"
      by (auto simp: write_at_def lenraw split: if_splits)
    have "take (4 + H) (raw_block E iv ty recs bw) = ?pre @ ?h" using preH by (simp add: raw)
    with b block in_block preH lenraw show ?thesis by (simp add: stored_content_def True add.commute [of "length (deflate E ?c)"])
  next
    case False
    with fin w' have "bw_block bw' = raw_block E iv ty recs bw" "n = block_len E iv recs H" by auto
    then show ?thesis using False lenraw bl preH by (simp add: raw stored_content_def block_len_def)
  qed
  then obtain rest where *: "bw_block bw' = ?pre @ ?h @ stored_content E iv ty recs H @ rest"
    "n = H + 4 + length (stored_content E iv ty recs H)" "length (bw_block bw') = bw_block_size bw" "n \<le> bw_block_size bw"
    by blast
  then show "take n (bw_block bw') = take H (bw_block bw') @ ?h @ stored_content E iv ty recs H"
    using preH by simp
  show "n = H + 4 + length (stored_content E iv ty recs H)" "n \<le> bw_block_size bw" "length (bw_block bw') = bw_block_size bw"
    using *(2-4) by auto
  show "H \<le> length (bw_block bw')" using *(3) len by simp
  show "block_len E iv recs H \<le> bw_block_size bw" by (rule bl)
  show "bw_last_key bw' = key_of E (last recs)"
    using block_writer_finish_same(1) [OF fin] inv by (simp add: bw_inv_def)
qed


section \<open>The invariant of the writer\<close>

text \<open>Where the first block of a type is; the footer stores 0 when there is none.\<close>

definition first_off :: "reftable_env \<Rightarrow> nat \<Rightarrow> bytes \<Rightarrow> chunk list \<Rightarrow> byte \<Rightarrow> nat" where
  "first_off E iv hdr cs ty =
     (case dropWhile (\<lambda>c. ck_typ c \<noteq> ty) cs of
        [] \<Rightarrow> 0 | c # _ \<Rightarrow> chunk_off E iv hdr (takeWhile (\<lambda>c. ck_typ c \<noteq> ty) cs) c)"

lemma first_off_snoc:
  "first_off E iv hdr (cs @ [c]) ty =
     (if \<exists>d \<in> set cs. ck_typ d = ty then first_off E iv hdr cs ty
      else if ck_typ c = ty then chunk_off E iv hdr cs c else 0)"
proof (cases "\<exists>d \<in> set cs. ck_typ d = ty")
  case True
  then obtain d where "d \<in> set cs" "ck_typ d = ty" by blast
  then have "dropWhile (\<lambda>c. ck_typ c \<noteq> ty) cs \<noteq> []"
    "dropWhile (\<lambda>c. ck_typ c \<noteq> ty) (cs @ [c]) = dropWhile (\<lambda>c. ck_typ c \<noteq> ty) cs @ [c]"
    "takeWhile (\<lambda>c. ck_typ c \<noteq> ty) (cs @ [c]) = takeWhile (\<lambda>c. ck_typ c \<noteq> ty) cs"
    by (auto simp: dropWhile_append1 takeWhile_append1 [of d])
  then show ?thesis
    using True by (auto simp: first_off_def simp del: dropWhile_eq_Nil_conv split: list.splits)
next
  case False
  then have "dropWhile (\<lambda>c. ck_typ c \<noteq> ty) (cs @ [c]) = dropWhile (\<lambda>c. ck_typ c \<noteq> ty) [c]"
    "takeWhile (\<lambda>c. ck_typ c \<noteq> ty) (cs @ [c]) = cs @ takeWhile (\<lambda>c. ck_typ c \<noteq> ty) [c]"
    by (auto simp: dropWhile_append2 takeWhile_append2)
  then show ?thesis using False by (auto simp: first_off_def)
qed

lemma first_off_append:
  "\<forall>c \<in> set b. ck_typ c \<noteq> ty \<Longrightarrow> first_off E iv hdr (a @ b) ty = first_off E iv hdr a ty"
proof (induction b rule: rev_induct)
  case (snoc c b)
  then have ih: "first_off E iv hdr (a @ b) ty = first_off E iv hdr a ty" and c: "ck_typ c \<noteq> ty" by simp_all
  have "first_off E iv hdr a ty = 0" if "\<not> (\<exists>d \<in> set (a @ b). ck_typ d = ty)"
  proof -
    have "dropWhile (\<lambda>c. ck_typ c \<noteq> ty) a = []" using that by simp
    then show ?thesis by (simp add: first_off_def del: dropWhile_eq_Nil_conv)
  qed
  then show ?case using ih c first_off_snoc [of E iv hdr "a @ b" c ty] by auto
qed simp

text \<open>Number and place of the blocks of each type, as the statistics have them.\<close>

definition stats_ok :: "reftable_env \<Rightarrow> nat \<Rightarrow> bytes \<Rightarrow> chunk list \<Rightarrow> 's reftable_writer \<Rightarrow> bool" where
  "stats_ok E iv hdr cs w \<longleftrightarrow>
     (\<forall>ty b. writer_reftable_block_stats w ty = Ok b \<longrightarrow>
        st_blocks b = length (filter (\<lambda>c. ck_typ c = ty) cs) \<and> st_offset b = first_off E iv hdr cs ty)"

text \<open>What the options say, and the header that belongs to them.\<close>

definition w_conf :: "reftable_env \<Rightarrow> nat \<Rightarrow> nat \<Rightarrow> nat \<Rightarrow> bytes \<Rightarrow> 's reftable_writer \<Rightarrow> bool" where
  "w_conf E iv hsz tbs hdr w \<longleftrightarrow>
     wo_restart_interval (wr_opts w) = iv \<and> hash_size E (wo_hash_id (wr_opts w)) = Ok hsz
     \<and> wo_block_size (wr_opts w) = tbs \<and> tbs < 2 ^ 24 \<and> length hdr + 4 \<le> tbs
     \<and> writer_write_header E w = Ok hdr \<and> header_size (writer_version w) = Ok (length hdr)"

definition w_block :: "reftable_env \<Rightarrow> nat \<Rightarrow> nat \<Rightarrow> nat \<Rightarrow> bytes \<Rightarrow> byte \<Rightarrow> reftable_record list \<Rightarrow> 's reftable_writer \<Rightarrow> bool" where
  "w_block E iv hsz tbs pre ty cur w \<longleftrightarrow>
     (case wr_block_writer w of
        None \<Rightarrow> cur = [] \<and> length (wr_block w) = tbs
      | Some bw \<Rightarrow> bw_inv E iv ty cur bw \<and> bw_header_off bw = length pre \<and> bw_hash_size bw = hsz \<and> bw_block_size bw = tbs)"

text \<open>
  The chunks \<open>dn\<close> of earlier sections and levels and the chunks \<open>lvl\<close> of the current level have been
  written, and \<open>wr_index\<close> is the index of the latter; the block under construction has the records
  \<open>cur\<close>. The output so far is \<open>out\<close> of the state of the caller.
\<close>

definition w_inv ::
  "reftable_env \<Rightarrow> ('s \<Rightarrow> bytes) \<Rightarrow> nat \<Rightarrow> nat \<Rightarrow> nat \<Rightarrow> bytes \<Rightarrow> chunk list \<Rightarrow> chunk list \<Rightarrow> reftable_record list \<Rightarrow> byte
   \<Rightarrow> 's reftable_writer \<Rightarrow> bool" where
  "w_inv E out iv hsz tbs hdr dn lvl cur ty w \<longleftrightarrow>
     w_conf E iv hsz tbs hdr w \<and> laid_out E iv hsz tbs hdr (dn @ lvl)
     \<and> pad_ok E iv tbs hdr (dn @ lvl) (wr_pending_padding w)
     \<and> out (wr_sink w) = file_of E iv hdr (dn @ lvl)
     \<and> wr_next w = length (file_of E iv hdr (dn @ lvl)) + wr_pending_padding w
     \<and> (\<forall>c \<in> set lvl. ck_typ c = ty) \<and> reftable_is_block_type ty
     \<and> map Rec_Index (wr_index w) = index_recs E (offs_of E iv hdr dn lvl)
     \<and> w_block E iv hsz tbs (pre_of hdr (dn @ lvl)) ty cur w
     \<and> stats_ok E iv hdr (dn @ lvl) w"

text \<open>The rest of the state, which adding records and flushing blocks does not touch.\<close>

definition idx_stats :: "reftable_block_stats \<Rightarrow> nat \<times> nat \<times> nat" where
  "idx_stats b = (st_index_blocks b, st_index_offset b, st_max_index_level b)"

definition w_frame :: "'s reftable_writer \<Rightarrow>
    (reftable_write_options \<times> u64 \<times> u64) \<times> (bytes tree_node \<times> (bytes \<Rightarrow> nat list)) \<times> nat \<times> (nat \<times> nat \<times> nat) list" where
  "w_frame w = ((wr_opts w, wr_min_update_index w, wr_max_update_index w), (wr_obj_index_tree w, wr_obj_offsets w),
     st_object_id_len (wr_stats w),
     map idx_stats [st_ref (wr_stats w), st_obj (wr_stats w), st_idx (wr_stats w), st_log (wr_stats w)])"

lemma w_conf_frame:
  assumes "w_conf E iv hsz tbs hdr w" "w_frame w' = w_frame w"
  shows "w_conf E iv hsz tbs hdr w'"
proof -
  have same: "wr_opts w' = wr_opts w" "wr_min_update_index w' = wr_min_update_index w" "wr_max_update_index w' = wr_max_update_index w"
    using assms(2) by (simp_all add: w_frame_def)
  have v: "writer_version w' = writer_version w" by (simp add: writer_version_def same)
  then have "writer_write_header E w' = writer_write_header E w"
    by (simp add: writer_write_header_def writer_header_prefix_def same)
  with assms(1) v show ?thesis by (simp add: w_conf_def same)
qed

lemma w_inv_next_zero:
  assumes "w_inv E out iv hsz tbs hdr dn lvl cur ty w"
  shows "wr_next w = 0 \<longleftrightarrow> dn @ lvl = []"
proof -
  have "pad_ok E iv tbs hdr (dn @ lvl) (wr_pending_padding w)" "wr_next w = length (file_of E iv hdr (dn @ lvl)) + wr_pending_padding w"
    using assms by (simp_all add: w_inv_def)
  then show ?thesis by (auto simp: pad_ok_def)
qed

text \<open>Starting a block: in the same level, or in a new one.\<close>

lemma writer_reinit:
  assumes inv: "w_inv E out iv hsz tbs hdr dn lvl cur ty w" and ty': "reftable_is_block_type ty'"
  shows "\<exists>w'. writer_reinit_block_writer E w ty' = Ok w' \<and> w_frame w' = w_frame w \<and> wr_index w' = wr_index w
    \<and> wr_next w' = wr_next w \<and> wr_pending_padding w' = wr_pending_padding w \<and> wr_block_writer w' \<noteq> None
    \<and> (ty' = ty \<longrightarrow> w_inv E out iv hsz tbs hdr dn lvl [] ty w')
    \<and> w_inv E out iv hsz tbs hdr (dn @ lvl) [] [] ty' (w'\<lparr>wr_index := []\<rparr>)"
proof -
  let ?cs = "dn @ lvl"
  let ?H = "length (pre_of hdr ?cs)"
  have conf: "w_conf E iv hsz tbs hdr w" and blk: "w_block E iv hsz tbs (pre_of hdr ?cs) ty cur w"
    using inv by (simp_all add: w_inv_def)
  have mem: "length (writer_memory w) = tbs"
    using blk by (auto simp: writer_memory_def w_block_def bw_inv_def split: option.splits)
  have H: "(if wr_next w = 0 then header_size (writer_version w) else Ok 0) = Ok ?H"
    using conf w_inv_next_zero [OF inv] by (simp add: w_conf_def pre_of_def)
  have sz: "?H + 4 \<le> length (writer_memory w)" "length (writer_memory w) < 2 ^ 24"
    using conf mem by (auto simp: w_conf_def pre_of_def)
  from bw_inv_init [OF sz, of ty' hsz E iv] obtain bw where
    bw: "block_writer_init ty' (writer_memory w) tbs ?H hsz = Ok bw" "bw_inv E iv ty' [] (bw\<lparr>bw_restart_interval := iv\<rparr>)"
    "bw_hash_size bw = hsz" "bw_header_off bw = ?H" "bw_block_size bw = tbs"
    unfolding mem by blast
  define w' where "w' = w\<lparr>wr_last_key := [], wr_block := bw_block bw, wr_block_writer := Some (bw\<lparr>bw_restart_interval := iv\<rparr>)\<rparr>"
  have "writer_reinit_block_writer E w ty' = Ok w'"
    using H conf bw(1) by (simp add: writer_reinit_block_writer_def w_conf_def w'_def)
  moreover have fr: "w_frame w' = w_frame w" "w_frame (w'\<lparr>wr_index := []\<rparr>) = w_frame w" by (simp_all add: w_frame_def w'_def)
  moreover have "w_block E iv hsz tbs (pre_of hdr ?cs) ty' [] w'" "w_block E iv hsz tbs (pre_of hdr ?cs) ty' [] (w'\<lparr>wr_index := []\<rparr>)"
    using bw by (simp_all add: w_block_def w'_def)
  moreover have "stats_ok E iv hdr ?cs w'" "stats_ok E iv hdr ?cs (w'\<lparr>wr_index := []\<rparr>)"
    using inv by (simp_all add: w_inv_def stats_ok_def w'_def writer_reftable_block_stats_def)
  ultimately show ?thesis
    using inv w_conf_frame [OF conf fr(1)] w_conf_frame [OF conf fr(2)] ty'
    by (intro exI [of _ w']) (auto simp: w_inv_def w'_def index_recs_def)
qed


section \<open>Flushing a block\<close>

text \<open>What is relied on of the functions of the caller: when they succeed, they append to the output.\<close>

definition appends :: "'s write_ops \<Rightarrow> ('s \<Rightarrow> bytes) \<Rightarrow> bool" where
  "appends S out \<longleftrightarrow> (\<forall>s d s'. wf_write S s d = Ok s' \<longrightarrow> out s' = out s @ d)
     \<and> (\<forall>s s'. wf_flush S s = Ok s' \<longrightarrow> out s' = out s)"

lemma padded_write_out:
  assumes "appends S out" "padded_write E S w data padding = Ok w'"
  shows "\<exists>sink. w' = w\<lparr>wr_sink := sink, wr_pending_padding := padding\<rparr>
    \<and> out sink = out (wr_sink w) @ replicate (wr_pending_padding w) 0 @ data"
  using assms
  by (auto simp: padded_write_def res_bind_eq_Ok appends_def split: if_splits)

lemma block_writer_type_inv: "bw_inv E iv ty recs bw \<Longrightarrow> block_writer_type bw = Ok ty"
  by (auto simp: block_writer_type_def read_at_def bw_inv_def hd_drop_conv_nth)

text \<open>The statistics after the block of a chunk.\<close>

lemma stats_ok_flush:
  assumes ok: "stats_ok E iv hdr cs w" and get: "writer_reftable_block_stats w ty = Ok b"
    and c: "ck_typ c = ty" "chunk_off E iv hdr cs c = wr_next w"
    and w': "wr_stats w' = (put_block_stats ty (add_block_stats bw (wr_next w) b) (wr_stats w))
        \<lparr>st_all_blocks := n\<rparr>"
  shows "stats_ok E iv hdr (cs @ [c]) w'"
proof -
  have b: "st_blocks b = length (filter (\<lambda>c. ck_typ c = ty) cs)" "st_offset b = first_off E iv hdr cs ty"
    using ok get by (simp_all add: stats_ok_def)
  have none: "first_off E iv hdr cs ty = 0" if "\<not> (\<exists>d \<in> set cs. ck_typ d = ty)"
    using first_off_append [of cs ty E iv hdr "[]"] that by (simp add: first_off_def)
  have new: "st_blocks (add_block_stats bw (wr_next w) b) = length (filter (\<lambda>c. ck_typ c = ty) (cs @ [c]))
      \<and> st_offset (add_block_stats bw (wr_next w) b) = first_off E iv hdr (cs @ [c]) ty"
    using b none c by (auto simp: add_block_stats_def Let_def first_off_snoc filter_empty_conv)
  have old: "first_off E iv hdr (cs @ [c]) t = first_off E iv hdr cs t" if "t \<noteq> ty" for t
    using c(1) that by (intro first_off_append) auto
  have "writer_reftable_block_stats w' t = (if t = ty then Ok (add_block_stats bw (wr_next w) b) else writer_reftable_block_stats w t)" for t
    using get by (auto simp: writer_reftable_block_stats_def put_block_stats_def w' split: if_splits)
  then show ?thesis
    using ok new old c(1) unfolding stats_ok_def by (auto split: if_splits)
qed

lemma flushed_bytes:
  assumes inv: "w_inv E out iv hsz tbs hdr dn lvl cur ty w" "bw_inv E iv ty cur bw" "cur \<noteq> []"
    and bw: "bw_header_off bw = length (pre_of hdr (dn @ lvl))" "bw_block_size bw = tbs"
    and fin: "block_writer_finish E bw = Ok (bw', n)" "write_first_header E w (bw_block bw') = Ok block"
  shows "take n block = chunk_bytes E iv (pre_of hdr (dn @ lvl)) \<lparr>ck_pad = p, ck_typ = ty, ck_recs = cur\<rparr>"
    and "length (chunk_bytes E iv (pre_of hdr (dn @ lvl)) \<lparr>ck_pad = p, ck_typ = ty, ck_recs = cur\<rparr>) = n"
    and "length block = tbs"
proof -
  note f = block_writer_finish_chunk [OF inv(2,3) fin(1), unfolded bw]
  let ?pre = "pre_of hdr (dn @ lvl)"
  have hd: "writer_write_header E w = Ok hdr" using inv(1) by (simp add: w_inv_def w_conf_def)
  have block: "take n block = ?pre @ drop (length ?pre) (take n (bw_block bw')) \<and> length block = tbs"
  proof (cases "dn @ lvl = []")
    case True
    then have "wr_next w = 0" "?pre = hdr" using w_inv_next_zero [OF inv(1)] by (simp_all add: pre_of_def)
    moreover have "length hdr \<le> n" using f(2) calculation(2) by simp
    ultimately show ?thesis
      using fin(2) hd f(3,5) by (auto simp: write_first_header_def write_at_def drop_take split: if_splits)
  next
    case False
    then have "wr_next w \<noteq> 0" "?pre = []" using w_inv_next_zero [OF inv(1)] by (auto simp: pre_of_def)
    with fin(2) f(5) show ?thesis by (simp add: write_first_header_def)
  qed
  have "drop (length ?pre) (take n (bw_block bw')) = block_head E iv ty cur (length ?pre) @ stored_content E iv ty cur (length ?pre)"
    using f(1,4) by simp
  with block show "take n block = chunk_bytes E iv ?pre \<lparr>ck_pad = p, ck_typ = ty, ck_recs = cur\<rparr>" "length block = tbs"
    by (simp_all add: chunk_bytes_def)
  show "length (chunk_bytes E iv ?pre \<lparr>ck_pad = p, ck_typ = ty, ck_recs = cur\<rparr>) = n"
    using f(2) by (simp add: length_chunk_bytes)
qed

lemma pad_ok_snoc:
  "pad_ok E iv tbs hdr (cs @ [c]) pad \<longleftrightarrow> pad = 0 \<or>
     ck_typ c \<noteq> BLOCK_TYPE_LOG \<and> length (chunk_bytes E iv (pre_of hdr cs) c) + pad = tbs"
  by (simp add: pad_ok_def)

lemma writer_flush_inv:
  assumes inv: "w_inv E out iv hsz tbs hdr dn lvl cur ty w" "cur \<noteq> []" and S: "appends S out"
    and flush: "writer_flush_block E S w = Ok w'"
  shows "w_inv E out iv hsz tbs hdr dn (lvl @ [\<lparr>ck_pad = wr_pending_padding w, ck_typ = ty, ck_recs = cur\<rparr>]) [] ty w'
    \<and> wr_block_writer w' = None \<and> w_frame w' = w_frame w"
proof -
  let ?cs = "dn @ lvl" and ?c = "\<lparr>ck_pad = wr_pending_padding w, ck_typ = ty, ck_recs = cur\<rparr>"
  let ?cb = "chunk_bytes E iv (pre_of hdr ?cs) ?c"
  from inv obtain bw where bw: "wr_block_writer w = Some bw" "bw_inv E iv ty cur bw"
    "bw_header_off bw = length (pre_of hdr ?cs)" "bw_hash_size bw = hsz" "bw_block_size bw = tbs"
    by (auto simp: w_inv_def w_block_def split: option.splits)
  have tbs: "wo_block_size (wr_opts w) = tbs" using inv(1) by (simp add: w_inv_def w_conf_def)
  have "bw_entries bw \<noteq> 0" using bw(2) inv(2) by (simp add: bw_inv_def)
  then have ne: "writer_flush_nonempty_block E S w bw = Ok w'" using flush bw(1) by (simp add: writer_flush_block_def)
  obtain bw' n b block w1 pad where fin: "block_writer_finish E bw = Ok (bw', n)" "writer_reftable_block_stats w ty = Ok b"
    "write_first_header E w (bw_block bw') = Ok block" "padded_write E S w (take n block) pad = Ok w1"
    and pad: "pad = (if \<not> wo_unpadded (wr_opts w) \<and> ty \<noteq> BLOCK_TYPE_LOG then wo_block_size (wr_opts w) - n else 0)"
    and w': "w' = w1\<lparr>wr_stats := (put_block_stats ty (add_block_stats bw' (wr_next w) b) (wr_stats w))
          \<lparr>st_all_blocks := st_all_blocks (put_block_stats ty (add_block_stats bw' (wr_next w) b) (wr_stats w)) + 1\<rparr>,
        wr_block := block, wr_index := wr_index w1 @ [\<lparr>idx_last_key = bw_last_key bw', idx_offset = word_of_nat (wr_next w1)\<rparr>],
        wr_next := wr_next w1 + pad + n, wr_block_writer := None\<rparr>"
    using ne by (auto simp: writer_flush_nonempty_block_def res_bind_eq_Ok block_writer_type_inv [OF bw(2)] Let_def)
  note bytes = flushed_bytes(1,2) [OF inv(1) bw(2) inv(2) bw(3,5) fin(1,3), where p = "wr_pending_padding w"]
    flushed_bytes(3) [OF inv(1) bw(2) inv(2) bw(3,5) fin(1,3)]
  note f = block_writer_finish_chunk [OF bw(2) inv(2) fin(1), unfolded bw(3,5)]
  from padded_write_out [OF S fin(4)] obtain sink where w1: "w1 = w\<lparr>wr_sink := sink, wr_pending_padding := pad\<rparr>"
    "out sink = out (wr_sink w) @ replicate (wr_pending_padding w) 0 @ ?cb" by (auto simp: bytes(1))
  have off: "chunk_off E iv hdr ?cs ?c = wr_next w" using inv(1) by (simp add: chunk_off_def w_inv_def)
  have image: "file_of E iv hdr (?cs @ [?c]) = file_of E iv hdr ?cs @ replicate (wr_pending_padding w) 0 @ ?cb"
    using file_of_split [of E iv hdr ?cs ?c "[]"] by simp
  have ck: "chunk_ok E iv hsz tbs (pre_of hdr ?cs) ?c"
    using bw(2,4) inv f(3,6) bytes(2) by (simp add: chunk_ok_def w_inv_def bw_inv_def)
  have lay: "laid_out E iv hsz tbs hdr (?cs @ [?c])"
    using inv(1) ck by (intro laid_out.laid_out_snoc) (simp_all add: w_inv_def)
  have padok: "pad_ok E iv tbs hdr (?cs @ [?c]) pad" using bytes(2) f(3) unfolding pad_ok_snoc by (simp add: pad tbs)
  have fr: "w_frame w' = w_frame w"
    by (simp add: w_frame_def w' w1 put_block_stats_def add_block_stats_def idx_stats_def Let_def)
       (use fin(2) in \<open>auto simp: writer_reftable_block_stats_def split: if_splits\<close>)
  have idx: "map Rec_Index (wr_index w') = index_recs E (offs_of E iv hdr dn (lvl @ [?c]))"
    using inv(1) off f(7) by (simp add: w' w1 w_inv_def offs_of_append index_recs_def)
  have st: "stats_ok E iv hdr (?cs @ [?c]) w'"
    by (rule stats_ok_flush [where w = w and b = b and bw = bw' and n = "st_all_blocks (put_block_stats ty (add_block_stats bw' (wr_next w) b) (wr_stats w)) + 1"])
       (use inv(1) fin(2) off in \<open>simp_all add: w_inv_def w'\<close>)
  have "w_inv E out iv hsz tbs hdr dn (lvl @ [?c]) [] ty w'"
    using inv(1) w_conf_frame [OF _ fr] lay padok idx st image w1(2) bytes
    by (simp add: w_inv_def w' w1(1) w_block_def)
  then show ?thesis using fr by (simp add: w')
qed


section \<open>Adding records\<close>

lemma w_inv_same:
  assumes "w_inv E out iv hsz tbs hdr dn lvl cur ty w" "w_frame w' = w_frame w"
    and "wr_pending_padding w' = wr_pending_padding w" "wr_sink w' = wr_sink w" "wr_next w' = wr_next w"
    and "wr_index w' = wr_index w" "wr_stats w' = wr_stats w" "wr_block w' = wr_block w"
    and "w_block E iv hsz tbs (pre_of hdr (dn @ lvl)) ty cur' w'"
  shows "w_inv E out iv hsz tbs hdr dn lvl cur' ty w'"
proof -
  have "writer_reftable_block_stats w' = writer_reftable_block_stats w" using assms(7) by (simp add: writer_reftable_block_stats_def fun_eq_iff)
  then show ?thesis using assms w_conf_frame [OF _ assms(2)] by (simp add: w_inv_def stats_ok_def)
qed

lemma w_inv_last_key [simp]:
  "w_inv E out iv hsz tbs hdr dn lvl cur ty w \<Longrightarrow> w_inv E out iv hsz tbs hdr dn lvl cur ty (w\<lparr>wr_last_key := k\<rparr>)"
  by (rule w_inv_same [where w = w and cur = cur]) (auto simp: w_frame_def w_inv_def w_block_def split: option.splits)

lemma w_frame_last_key [simp]: "w_frame (w\<lparr>wr_last_key := k\<rparr>) = w_frame w"
  by (simp add: w_frame_def)

lemma w_inv_add:
  assumes inv: "w_inv E out iv hsz tbs hdr dn lvl cur ty w" and bw: "wr_block_writer w = Some bw"
    and rec: "reftable_record_type rec = ty" "record_ok E hsz rec" "key_of E rec \<noteq> []"
  shows "(\<exists>e. block_writer_add E bw rec = Err e) \<or>
    (\<exists>bw'. block_writer_add E bw rec = Ok bw' \<and> w_inv E out iv hsz tbs hdr dn lvl (cur @ [rec]) ty (w\<lparr>wr_block_writer := Some bw'\<rparr>)
      \<and> w_frame (w\<lparr>wr_block_writer := Some bw'\<rparr>) = w_frame w)"
proof -
  have b: "bw_inv E iv ty cur bw" "bw_hash_size bw = hsz" "bw_header_off bw = length (pre_of hdr (dn @ lvl))" "bw_block_size bw = tbs"
    using inv bw by (simp_all add: w_inv_def w_block_def)
  show ?thesis
  proof (cases "bw_fits E iv cur rec bw")
    case True
    let ?bw = "bw_added E iv cur rec bw"
    have "bw_inv E iv ty (cur @ [rec]) ?bw" using bw_added_inv [OF b(1) True] rec b(2) by simp
    then have "w_inv E out iv hsz tbs hdr dn lvl (cur @ [rec]) ty (w\<lparr>wr_block_writer := Some ?bw\<rparr>)"
      using b by (intro w_inv_same [OF inv]) (simp_all add: w_frame_def w_block_def bw_added_same)
    then show ?thesis using block_writer_add_eq [OF b(1)] rec b(2) True by (auto simp: w_frame_def)
  next
    case False
    then show ?thesis using block_writer_add_eq [OF b(1)] rec b(2) by simp
  qed
qed

text \<open>A record goes into the current block, or that block is written and the record starts a new one.\<close>

definition grown ::
  "'s reftable_writer \<Rightarrow> chunk list \<Rightarrow> reftable_record list \<Rightarrow> byte \<Rightarrow> reftable_record
   \<Rightarrow> 's reftable_writer \<Rightarrow> chunk list \<Rightarrow> reftable_record list \<Rightarrow> bool" where
  "grown w lvl cur ty rec w' lvl' cur' \<longleftrightarrow>
     lvl' = lvl \<and> cur' = cur @ [rec] \<and> wr_next w' = wr_next w
     \<or> lvl' = lvl @ [\<lparr>ck_pad = wr_pending_padding w, ck_typ = ty, ck_recs = cur\<rparr>] \<and> cur \<noteq> [] \<and> cur' = [rec]"

lemma grown_records: "grown w lvl cur ty rec w' lvl' cur' \<Longrightarrow>
    concat (map ck_recs lvl') @ cur' = concat (map ck_recs lvl) @ cur @ [rec] \<and> cur' \<noteq> []"
  by (auto simp: grown_def)

lemma flush_reinit:
  assumes inv: "w_inv E out iv hsz tbs hdr dn lvl cur ty w" and bw: "wr_block_writer w = Some bw" and S: "appends S out"
    and w1: "writer_flush_block E S w = Ok w1" and w2: "writer_reinit_block_writer E w1 ty = Ok w2"
  shows "\<exists>lvl1. w_inv E out iv hsz tbs hdr dn lvl1 [] ty w2 \<and> w_frame w2 = w_frame w \<and> wr_block_writer w2 \<noteq> None
    \<and> (\<forall>rec. grown w lvl cur ty rec w2 lvl1 [rec])"
proof -
  have ty: "reftable_is_block_type ty" using inv by (simp add: w_inv_def)
  have "\<exists>lvl1. w_inv E out iv hsz tbs hdr dn lvl1 [] ty w1 \<and> w_frame w1 = w_frame w \<and> (\<forall>rec. grown w lvl cur ty rec w1 lvl1 [rec])"
  proof (cases "cur = []")
    case True
    then have "w1 = w" using w1 bw inv by (auto simp: writer_flush_block_def w_inv_def w_block_def bw_inv_def)
    then show ?thesis using inv True by (auto simp: grown_def)
  next
    case False
    from writer_flush_inv [OF inv False S w1] False show ?thesis by (auto simp: grown_def)
  qed
  then obtain lvl1 where l1: "w_inv E out iv hsz tbs hdr dn lvl1 [] ty w1" "w_frame w1 = w_frame w"
    "\<forall>rec. grown w lvl cur ty rec w1 lvl1 [rec]" by blast
  from writer_reinit [OF l1(1) ty] w2 have "w_inv E out iv hsz tbs hdr dn lvl1 [] ty w2" "w_frame w2 = w_frame w1"
    "wr_next w2 = wr_next w1" "wr_block_writer w2 \<noteq> None" by auto
  then show ?thesis using l1 by (intro exI [of _ lvl1]) (auto simp: grown_def)
qed

lemma add_or_flush:
  assumes inv: "w_inv E out iv hsz tbs hdr dn lvl cur ty w" and bw: "wr_block_writer w = Some bw" and S: "appends S out"
    and rec: "reftable_record_type rec = ty" "record_ok E hsz rec" "key_of E rec \<noteq> []"
    and add: "(case block_writer_add E bw rec of
       Ok bw \<Rightarrow> Ok (w\<lparr>wr_block_writer := Some bw\<rparr>)
     | Crash c \<Rightarrow> Crash c
     | Err _ \<Rightarrow>
         res_bind (writer_flush_block E S w) (\<lambda>w.
         res_bind (writer_reinit_block_writer E w ty) (\<lambda>w.
         res_bind (block_writer_of w) (\<lambda>bw.
         res_bind (or_error ENTRY_TOO_BIG_ERROR (block_writer_add E bw rec)) (\<lambda>bw.
           Ok (w\<lparr>wr_block_writer := Some bw\<rparr>)))))) = Ok w'"
  shows "\<exists>lvl' cur'. w_inv E out iv hsz tbs hdr dn lvl' cur' ty w' \<and> grown w lvl cur ty rec w' lvl' cur' \<and> w_frame w' = w_frame w
    \<and> wr_block_writer w' \<noteq> None"
  using w_inv_add [OF inv bw rec]
proof (elim disjE exE conjE)
  fix bw' assume b: "block_writer_add E bw rec = Ok bw'"
    and i: "w_inv E out iv hsz tbs hdr dn lvl (cur @ [rec]) ty (w\<lparr>wr_block_writer := Some bw'\<rparr>)"
    and f: "w_frame (w\<lparr>wr_block_writer := Some bw'\<rparr>) = w_frame w"
  have "w' = w\<lparr>wr_block_writer := Some bw'\<rparr>" using add b by simp
  then show ?thesis using i f by (intro exI [of _ lvl] exI [of _ "cur @ [rec]"]) (simp add: grown_def)
next
  fix e assume e: "block_writer_add E bw rec = Err e"
  with add obtain w1 w2 bw2 bw3 where w1: "writer_flush_block E S w = Ok w1" and w2: "writer_reinit_block_writer E w1 ty = Ok w2"
    and bw2: "wr_block_writer w2 = Some bw2" "block_writer_add E bw2 rec = Ok bw3" and w': "w' = w2\<lparr>wr_block_writer := Some bw3\<rparr>"
    by (auto simp: res_bind_eq_Ok block_writer_of_def or_error_eq_Ok split: option.splits)
  from flush_reinit [OF inv bw S w1 w2] obtain lvl1 where
    i2: "w_inv E out iv hsz tbs hdr dn lvl1 [] ty w2" "w_frame w2 = w_frame w" "\<And>rec. grown w lvl cur ty rec w2 lvl1 [rec]" by blast
  from w_inv_add [OF i2(1) bw2(1) rec] bw2(2) have
    "w_inv E out iv hsz tbs hdr dn lvl1 [rec] ty w'" "w_frame w' = w_frame w2" by (auto simp: w')
  then show ?thesis using i2(2) i2(3) [of rec] by (intro exI [of _ lvl1] exI [of _ "[rec]"]) (auto simp: w' grown_def)
qed

lemma writer_add_record_inv:
  assumes inv: "w_inv E out iv hsz tbs hdr dn lvl cur ty w" and S: "appends S out"
    and rec: "reftable_record_type rec = ty" "record_ok E hsz rec" "key_of E rec \<noteq> []"
    and add: "writer_add_record E S w rec = Ok w'"
  shows "\<exists>lvl' cur'. w_inv E out iv hsz tbs hdr dn lvl' cur' ty w' \<and> grown w lvl cur ty rec w' lvl' cur' \<and> w_frame w' = w_frame w
    \<and> wr_block_writer w' \<noteq> None"
proof -
  let ?w = "w\<lparr>wr_last_key := key_of E rec\<rparr>"
  have ty: "reftable_is_block_type ty" and wi: "w_inv E out iv hsz tbs hdr dn lvl cur ty ?w" using inv by (simp_all add: w_inv_def [of E out iv hsz tbs hdr dn lvl cur ty w])
  have "\<exists>w1 bw. w_inv E out iv hsz tbs hdr dn lvl cur ty w1 \<and> w_frame w1 = w_frame w \<and> wr_block_writer w1 = Some bw
    \<and> wr_next w1 = wr_next w \<and> wr_pending_padding w1 = wr_pending_padding w
    \<and> (if wr_block_writer w = None then writer_reinit_block_writer E ?w ty else Ok ?w) = Ok w1"
  proof (cases "wr_block_writer w")
    case None
    then have "cur = []" using inv by (simp add: w_inv_def w_block_def)
    with writer_reinit [OF wi ty] None show ?thesis by fastforce
  next
    case (Some bw)
    then show ?thesis using wi by simp
  qed
  then obtain w1 bw where w1: "w_inv E out iv hsz tbs hdr dn lvl cur ty w1" "w_frame w1 = w_frame w" "wr_block_writer w1 = Some bw"
    "(if wr_block_writer w = None then writer_reinit_block_writer E ?w ty else Ok ?w) = Ok w1"
    "wr_next w1 = wr_next w" "wr_pending_padding w1 = wr_pending_padding w" by blast
  have "bw_inv E iv ty cur bw" using w1(1,3) by (simp add: w_inv_def w_block_def)
  then have "block_writer_type bw = Ok ty" by (rule block_writer_type_inv)
  with add [unfolded writer_add_record_def rec(1)] w1(3,4) key_of_eq(1) [OF rec(2)] have "(case block_writer_add E bw rec of
       Ok bw \<Rightarrow> Ok (w1\<lparr>wr_block_writer := Some bw\<rparr>)
     | Crash c \<Rightarrow> Crash c
     | Err _ \<Rightarrow>
         res_bind (writer_flush_block E S w1) (\<lambda>w.
         res_bind (writer_reinit_block_writer E w ty) (\<lambda>w.
         res_bind (block_writer_of w) (\<lambda>bw.
         res_bind (or_error ENTRY_TOO_BIG_ERROR (block_writer_add E bw rec)) (\<lambda>bw.
           Ok (w\<lparr>wr_block_writer := Some bw\<rparr>)))))) = Ok w'"
    by (simp add: block_writer_of_def split: if_splits)
  from add_or_flush [OF w1(1,3) S rec this] w1 show ?thesis by (auto simp: grown_def)
qed


section \<open>The index of a section\<close>

text \<open>The offset at which a level begins: of its first chunk, or where the next one will be.\<close>

definition starts_at :: "reftable_env \<Rightarrow> nat \<Rightarrow> bytes \<Rightarrow> chunk list \<Rightarrow> chunk list \<Rightarrow> 's reftable_writer \<Rightarrow> nat \<Rightarrow> bool" where
  "starts_at E iv hdr dn lvl w off \<longleftrightarrow> (if lvl = [] then wr_next w = off else chunk_off E iv hdr dn (hd lvl) = off)"

lemma starts_at_flush:
  assumes "w_inv E out iv hsz tbs hdr dn lvl cur ty w" "starts_at E iv hdr dn lvl w off" "ck_pad c = wr_pending_padding w"
  shows "starts_at E iv hdr dn (lvl @ [c]) w' off"
  using assms by (cases lvl) (auto simp: starts_at_def w_inv_def chunk_off_def)

lemma starts_at_grown:
  assumes "w_inv E out iv hsz tbs hdr dn lvl cur ty w" "starts_at E iv hdr dn lvl w off" "grown w lvl cur ty rec w' lvl' cur'"
  shows "starts_at E iv hdr dn lvl' w' off"
  using assms(3) starts_at_flush [OF assms(1,2)] assms(2) by (auto simp: grown_def starts_at_def)

lemma writer_add_index_list_inv:
  assumes "w_inv E out iv hsz tbs hdr dn lvl cur BLOCK_TYPE_INDEX w" "starts_at E iv hdr dn lvl w off" and S: "appends S out"
    and "\<forall>i \<in> set is. index_ok i \<and> idx_last_key i \<noteq> []" "writer_add_index_list E S w is = Ok w'"
  shows "\<exists>lvl' cur'. w_inv E out iv hsz tbs hdr dn lvl' cur' BLOCK_TYPE_INDEX w' \<and> starts_at E iv hdr dn lvl' w' off
    \<and> concat (map ck_recs lvl') @ cur' = concat (map ck_recs lvl) @ cur @ map Rec_Index is \<and> w_frame w' = w_frame w
    \<and> (cur \<noteq> [] \<or> is \<noteq> [] \<longrightarrow> cur' \<noteq> [])"
  using assms(1,2,4,5)
proof (induction "is" arbitrary: w lvl cur)
  case (Cons i "is")
  from Cons.prems(4) obtain w1 where w1: "writer_add_record E S w (Rec_Index i) = Ok w1" "writer_add_index_list E S w1 is = Ok w'"
    by (auto simp: res_bind_eq_Ok)
  from writer_add_record_inv [OF Cons.prems(1) S _ _ _ w1(1)] Cons.prems(3) obtain lvl1 cur1 where
    l1: "w_inv E out iv hsz tbs hdr dn lvl1 cur1 BLOCK_TYPE_INDEX w1" "grown w lvl cur BLOCK_TYPE_INDEX (Rec_Index i) w1 lvl1 cur1"
    "w_frame w1 = w_frame w" by auto
  note g = grown_records [OF l1(2)]
  have st: "starts_at E iv hdr dn lvl1 w1 off" by (rule starts_at_grown [OF Cons.prems(1,2) l1(2)])
  from Cons.IH [OF l1(1) st _ w1(2)] Cons.prems(3) obtain lvl' cur' where
    "w_inv E out iv hsz tbs hdr dn lvl' cur' BLOCK_TYPE_INDEX w'" "starts_at E iv hdr dn lvl' w' off"
    "concat (map ck_recs lvl') @ cur' = concat (map ck_recs lvl1) @ cur1 @ map Rec_Index is" "w_frame w' = w_frame w1"
    "cur1 \<noteq> [] \<or> is \<noteq> [] \<longrightarrow> cur' \<noteq> []" by auto
  then show ?case using g l1(3) by (intro exI [of _ lvl'] exI [of _ cur']) simp
qed auto


lemma laid_out_index_ok:
  assumes "laid_out E iv hsz tbs hdr (dn @ lvl)" "map Rec_Index is = index_recs E (offs_of E iv hdr dn lvl)"
  shows "\<forall>i \<in> set is. index_ok i \<and> idx_last_key i \<noteq> []"
proof
  fix i assume "i \<in> set is"
  then have "Rec_Index i \<in> set (index_recs E (offs_of E iv hdr dn lvl))" unfolding assms(2) [symmetric] by simp
  then obtain off recs where i: "(off, recs) \<in> set (offs_of E iv hdr dn lvl)" "idx_last_key i = key_of E (last recs)"
    by (auto simp: index_recs_def)
  from i(1) obtain x c y where c: "lvl = x @ c # y" "recs = ck_recs c" by (rule offs_of_split)
  then have "chunk_ok E iv hsz tbs (pre_of hdr (dn @ x)) c" using laid_out_split [of E iv hsz tbs hdr "dn @ x" c y] assms(1) by simp
  then have "record_ok E hsz (last recs)" "key_of E (last recs) \<noteq> []" using c(2) by (auto simp: chunk_ok_def block_records_def)
  then show "index_ok i \<and> idx_last_key i \<noteq> []" using key_of_eq(2) i(2) by (auto simp: index_ok_def)
qed

lemma writer_index_level_inv:
  assumes inv: "w_inv E out iv hsz tbs hdr dn lvl cur ty w" "lvl \<noteq> []" and S: "appends S out"
    and level: "writer_index_level E S w = Ok w'"
  shows "\<exists>u. w_inv E out iv hsz tbs hdr (dn @ lvl) u [] BLOCK_TYPE_INDEX w' \<and> u \<noteq> []
    \<and> concat (map ck_recs u) = index_recs E (offs_of E iv hdr dn lvl) \<and> w_frame w' = w_frame w
    \<and> chunk_off E iv hdr (dn @ lvl) (hd u) = wr_next w"
proof -
  from writer_reinit [OF inv(1), of BLOCK_TYPE_INDEX] obtain w1 where
    w1: "writer_reinit_block_writer E w BLOCK_TYPE_INDEX = Ok w1" "w_frame w1 = w_frame w" "wr_index w1 = wr_index w"
    "wr_next w1 = wr_next w" "w_inv E out iv hsz tbs hdr (dn @ lvl) [] [] BLOCK_TYPE_INDEX (w1\<lparr>wr_index := []\<rparr>)"
    by (auto simp: reftable_is_block_type_def)
  from level w1 obtain w2 where w2: "writer_add_index_list E S (w1\<lparr>wr_index := []\<rparr>) (wr_index w) = Ok w2" "writer_flush_block E S w2 = Ok w'"
    by (auto simp: writer_index_level_def res_bind_eq_Ok)
  have idx: "map Rec_Index (wr_index w) = index_recs E (offs_of E iv hdr dn lvl)" "laid_out E iv hsz tbs hdr (dn @ lvl)"
    using inv(1) by (simp_all add: w_inv_def)
  have ne: "wr_index w \<noteq> []" using arg_cong [OF idx(1), of length] inv(2) by (auto simp: index_recs_def)
  have "starts_at E iv hdr (dn @ lvl) [] (w1\<lparr>wr_index := []\<rparr>) (wr_next w)" using w1(4) by (simp add: starts_at_def)
  from writer_add_index_list_inv [OF w1(5) this S laid_out_index_ok [OF idx(2,1)] w2(1)] ne obtain lvl' cur' where
    l: "w_inv E out iv hsz tbs hdr (dn @ lvl) lvl' cur' BLOCK_TYPE_INDEX w2" "starts_at E iv hdr (dn @ lvl) lvl' w2 (wr_next w)"
    "concat (map ck_recs lvl') @ cur' = map Rec_Index (wr_index w)" "w_frame w2 = w_frame (w1\<lparr>wr_index := []\<rparr>)" "cur' \<noteq> []" by auto
  let ?c = "\<lparr>ck_pad = wr_pending_padding w2, ck_typ = BLOCK_TYPE_INDEX, ck_recs = cur'\<rparr>"
  from writer_flush_inv [OF l(1,5) S w2(2)] have
    f: "w_inv E out iv hsz tbs hdr (dn @ lvl) (lvl' @ [?c]) [] BLOCK_TYPE_INDEX w'" "w_frame w' = w_frame w2" by simp_all
  have "starts_at E iv hdr (dn @ lvl) (lvl' @ [?c]) w' (wr_next w)" by (rule starts_at_flush [OF l(1,2)]) simp
  moreover have "w_frame w' = w_frame w" using f(2) l(4) w1(2) by (simp add: w_frame_def)
  ultimately show ?thesis using f(1) l(3) idx(1) by (intro exI [of _ "lvl' @ [?c]"]) (simp add: starts_at_def)
qed

text \<open>
  The levels \<open>ups\<close> of the index behind a section, with the top at \<open>ioff\<close>, whatever other blocks follow.
\<close>

definition sect_index :: "reftable_env \<Rightarrow> nat \<Rightarrow> bytes \<Rightarrow> chunk list \<Rightarrow> chunk list \<Rightarrow> chunk list \<Rightarrow> nat \<Rightarrow> bool" where
  "sect_index E iv hdr dn lvl ups ioff \<longleftrightarrow> (\<forall>c \<in> set ups. ck_typ c = BLOCK_TYPE_INDEX)
     \<and> (\<forall>post. post = [] \<or> ck_typ (hd post) \<noteq> BLOCK_TYPE_INDEX \<longrightarrow>
          indexed_in E iv hdr (dn @ lvl @ ups @ post) ioff (offs_of E iv hdr dn lvl))"

definition levels_post ::
  "reftable_env \<Rightarrow> ('s \<Rightarrow> bytes) \<Rightarrow> nat \<Rightarrow> nat \<Rightarrow> nat \<Rightarrow> bytes \<Rightarrow> chunk list \<Rightarrow> chunk list
   \<Rightarrow> 's reftable_writer \<Rightarrow> nat \<Rightarrow> 's reftable_writer \<Rightarrow> nat \<Rightarrow> bool" where
  "levels_post E out iv hsz tbs hdr dn lvl w istart w' ioff \<longleftrightarrow> w' = w \<and> ioff = istart \<or>
    (\<exists>ups. ups \<noteq> [] \<and> w_inv E out iv hsz tbs hdr (dn @ lvl @ ups) [] [] BLOCK_TYPE_INDEX (w'\<lparr>wr_index := []\<rparr>)
      \<and> w_frame w' = w_frame w \<and> sect_index E iv hdr dn lvl ups ioff)"

lemma w_inv_level_done:
  assumes "w_inv E out iv hsz tbs hdr dn lvl cur ty w"
  shows "w_inv E out iv hsz tbs hdr (dn @ lvl) [] cur ty (w\<lparr>wr_index := []\<rparr>)"
proof -
  have "w_frame (w\<lparr>wr_index := []\<rparr>) = w_frame w" by (simp add: w_frame_def)
  from w_conf_frame [OF _ this] assms show ?thesis
    by (auto simp: w_inv_def index_recs_def stats_ok_def writer_reftable_block_stats_def w_block_def split: option.splits)
qed

lemma levels_post_step:
  assumes inv: "w_inv E out iv hsz tbs hdr (dn @ lvl) u [] BLOCK_TYPE_INDEX w1" "u \<noteq> []"
    and u: "concat (map ck_recs u) = index_recs E (offs_of E iv hdr dn lvl)" "w_frame w1 = w_frame w"
      "chunk_off E iv hdr (dn @ lvl) (hd u) = wr_next w"
    and post: "levels_post E out iv hsz tbs hdr (dn @ lvl) u w1 (wr_next w) w' ioff"
  shows "levels_post E out iv hsz tbs hdr dn lvl w istart w' ioff"
proof -
  have ty: "\<forall>c \<in> set u. ck_typ c = BLOCK_TYPE_INDEX" using inv(1) by (simp add: w_inv_def)
  from post show ?thesis unfolding levels_post_def [of E out iv hsz tbs hdr "dn @ lvl"]
  proof (elim disjE exE conjE)
    assume w': "w' = w1" "ioff = wr_next w"
    have "indexed_in E iv hdr (dn @ lvl @ u @ post) ioff (offs_of E iv hdr dn lvl)"
      if "post = [] \<or> ck_typ (hd post) \<noteq> BLOCK_TYPE_INDEX" for post
      by (rule indexed_in.indexed_top [of _ "dn @ lvl" u post]) (use inv(2) ty that u w'(2) in simp_all)
    then have "sect_index E iv hdr dn lvl u ioff" using ty by (simp add: sect_index_def)
    then show ?thesis using inv(2) u(2) w_inv_level_done [OF inv(1)] w'(1)
      unfolding levels_post_def by (intro disjI2 exI [of _ u]) simp
  next
    fix ups assume ups: "ups \<noteq> []" "w_frame w' = w_frame w1" "sect_index E iv hdr (dn @ lvl) u ups ioff"
      and w': "w_inv E out iv hsz tbs hdr ((dn @ lvl) @ u @ ups) [] [] BLOCK_TYPE_INDEX (w'\<lparr>wr_index := []\<rparr>)"
    have "indexed_in E iv hdr (dn @ lvl @ (u @ ups) @ post) ioff (offs_of E iv hdr dn lvl)"
      if p: "post = [] \<or> ck_typ (hd post) \<noteq> BLOCK_TYPE_INDEX" for post
    proof -
      have "indexed_in E iv hdr ((dn @ lvl) @ u @ ups @ post) ioff (offs_of E iv hdr (dn @ lvl) u)"
        using ups(3) p unfolding sect_index_def by blast
      then have up: "indexed_in E iv hdr (dn @ lvl @ (u @ ups) @ post) ioff (offs_of E iv hdr (dn @ lvl) u)" by simp
      show ?thesis by (rule indexed_in.indexed_step [OF _ ty u(1) up]) simp
    qed
    then have "sect_index E iv hdr dn lvl (u @ ups) ioff" using ty ups(3) by (auto simp: sect_index_def)
    then show ?thesis using ups w' u(2) unfolding levels_post_def by (intro disjI2 exI [of _ "u @ ups"]) simp
  qed
qed

lemma writer_index_levels_inv:
  assumes S: "appends S out" and res: "writer_index_levels E S thr w istart ml = Some (Ok (w', ioff, ml'))"
    and inv: "w_inv E out iv hsz tbs hdr dn lvl [] ty w"
  shows "levels_post E out iv hsz tbs hdr dn lvl w istart w' ioff"
proof -
  have *: "\<forall>dn lvl ty. res = Ok (w', ioff, ml') \<longrightarrow> appends S out \<longrightarrow> w_inv E out iv hsz tbs hdr dn lvl [] ty w \<longrightarrow>
      levels_post E out iv hsz tbs hdr dn lvl w istart w' ioff"
    if "writer_index_levels E S thr w istart ml = Some res" for E S thr w istart ml res
  proof (induction rule: writer_index_levels.raw_induct [OF _ that], goal_cases)
    case (1 f E S thr w istart ml res)
    show ?case
    proof (intro allI impI)
      fix dn lvl ty
      assume res: "res = Ok (w', ioff, ml')" and S: "appends S out" and inv: "w_inv E out iv hsz tbs hdr dn lvl [] ty w"
      show "levels_post E out iv hsz tbs hdr dn lvl w istart w' ioff"
      proof (cases "length (wr_index w) > thr")
        case False
        then show ?thesis using 1(2) res by (simp add: levels_post_def)
      next
        case True
        from 1(2) True res obtain w1 where w1: "writer_index_level E S w = Ok w1"
          "f E S thr w1 (wr_next w) (ml + 1) = Some (Ok (w', ioff, ml'))"
          by (cases "writer_index_level E S w") simp_all
        have "map Rec_Index (wr_index w) = index_recs E (offs_of E iv hdr dn lvl)" using inv by (simp add: w_inv_def)
        from arg_cong [OF this, of length] True have "lvl \<noteq> []" by (auto simp: index_recs_def)
        from writer_index_level_inv [OF inv this S w1(1)] obtain u where
          u: "w_inv E out iv hsz tbs hdr (dn @ lvl) u [] BLOCK_TYPE_INDEX w1" "u \<noteq> []"
          "concat (map ck_recs u) = index_recs E (offs_of E iv hdr dn lvl)" "w_frame w1 = w_frame w"
          "chunk_off E iv hdr (dn @ lvl) (hd u) = wr_next w" by blast
        have "levels_post E out iv hsz tbs hdr (dn @ lvl) u w1 (wr_next w) w' ioff"
          using 1(1) [OF w1(2)] S u(1) by blast
        with levels_post_step [OF u] show ?thesis by blast
      qed
    qed
  qed
  show ?thesis using * [OF res] S inv by blast
qed

end
