(* ===== verification/Reft_Writer_Section.thy ===== *)
theory Reft_Writer_Section
  imports Reft_Writer_Inv
begin

text \<open>
  Finishing a section: the last block, the levels of the index, the object index behind the
  references, and the state in which the next section may begin.
\<close>

section \<open>Finishing a section\<close>

definition w_env :: "'s reftable_writer \<Rightarrow>
    (reftable_write_options \<times> u64 \<times> u64) \<times> (bytes tree_node \<times> (bytes \<Rightarrow> nat list)) \<times> nat" where
  "w_env w = ((wr_opts w, wr_min_update_index w, wr_max_update_index w), (wr_obj_index_tree w, wr_obj_offsets w),
     st_object_id_len (wr_stats w))"

definition index_off :: "'s reftable_writer \<Rightarrow> byte \<Rightarrow> nat" where
  "index_off w ty = (case writer_reftable_block_stats w ty of Ok b \<Rightarrow> st_index_offset b | _ \<Rightarrow> 0)"

lemma w_frame_env:
  assumes "w_frame w' = w_frame w"
  shows "w_env w' = w_env w" "index_off w' ty = index_off w ty"
  using assms by (simp_all add: w_frame_def w_env_def index_off_def writer_reftable_block_stats_def idx_stats_def)

lemma w_conf_opts:
  assumes "w_conf E iv hsz tbs hdr w" "wr_opts w' = wr_opts w" "wr_min_update_index w' = wr_min_update_index w"
    "wr_max_update_index w' = wr_max_update_index w"
  shows "w_conf E iv hsz tbs hdr w'"
proof -
  have v: "writer_version w' = writer_version w" by (simp add: writer_version_def assms(2))
  then have "writer_write_header E w' = writer_write_header E w"
    by (simp add: writer_write_header_def writer_header_prefix_def assms(2-4))
  with assms(1,2) v show ?thesis by (simp add: w_conf_def)
qed

text \<open>Storing the place of the index in the statistics.\<close>

lemma put_index_stats:
  assumes inv: "w_inv E out iv hsz tbs hdr dn lvl cur ty' w" and b: "writer_reftable_block_stats w ty = Ok b"
    and w': "w' = w\<lparr>wr_stats := put_block_stats ty (b\<lparr>st_index_blocks := n, st_index_offset := ioff, st_max_index_level := m\<rparr>) (wr_stats w),
        wr_last_key := []\<rparr>"
  shows "w_inv E out iv hsz tbs hdr dn lvl cur ty' w' \<and> w_env w' = w_env w \<and> index_off w' ty = ioff
    \<and> (\<forall>t. t \<noteq> ty \<longrightarrow> index_off w' t = index_off w t)"
proof -
  have get: "writer_reftable_block_stats w' t =
      (if t = ty then Ok (b\<lparr>st_index_blocks := n, st_index_offset := ioff, st_max_index_level := m\<rparr>)
       else writer_reftable_block_stats w t)" for t
    using b by (auto simp: writer_reftable_block_stats_def put_block_stats_def w' split: if_splits)
  have "w_conf E iv hsz tbs hdr w'" by (rule w_conf_opts [of _ _ _ _ _ w]) (use inv in \<open>simp_all add: w_inv_def w'\<close>)
  moreover have "stats_ok E iv hdr (dn @ lvl) w'"
    using inv b by (auto simp: w_inv_def stats_ok_def get)
  moreover have "w_block E iv hsz tbs (pre_of hdr (dn @ lvl)) ty' cur w'"
    using inv by (auto simp: w_inv_def w_block_def w' split: option.splits)
  ultimately have "w_inv E out iv hsz tbs hdr dn lvl cur ty' w'" using inv by (simp add: w_inv_def w')
  moreover have "w_env w' = w_env w" by (simp add: w_env_def w' put_block_stats_def)
  ultimately show ?thesis by (auto simp: index_off_def get)
qed

definition closed_level :: "chunk list \<Rightarrow> reftable_record list \<Rightarrow> byte \<Rightarrow> nat \<Rightarrow> chunk list" where
  "closed_level lvl cur ty p = (if cur = [] then lvl else lvl @ [\<lparr>ck_pad = p, ck_typ = ty, ck_recs = cur\<rparr>])"

lemma closed_level_records [simp]: "concat (map ck_recs (closed_level lvl cur ty p)) = concat (map ck_recs lvl) @ cur"
  by (simp add: closed_level_def)

lemma closed_level_types: "\<forall>c \<in> set lvl. ck_typ c = ty \<Longrightarrow> \<forall>c \<in> set (closed_level lvl cur ty p). ck_typ c = ty"
  by (simp add: closed_level_def)

lemma writer_finish_section_inv:
  assumes inv: "w_inv E out iv hsz tbs hdr dn lvl cur ty w" and S: "appends S out"
    and fin: "writer_finish_section E S w = Some (Ok w')"
  defines "l \<equiv> closed_level lvl cur ty (wr_pending_padding w)"
  shows "\<exists>ups ty'. w_inv E out iv hsz tbs hdr (dn @ l @ ups) [] [] ty' w' \<and> w_env w' = w_env w
    \<and> (\<forall>t. t \<noteq> ty \<longrightarrow> index_off w' t = index_off w t)
    \<and> (if ups = [] then index_off w' ty = 0 else sect_index E iv hdr dn l ups (index_off w' ty))"
proof -
  from fin obtain bw where bw: "wr_block_writer w = Some bw"
    by (auto simp: writer_finish_section_def block_writer_of_def split: option.splits)
  have bi: "bw_inv E iv ty cur bw" using inv bw by (simp add: w_inv_def w_block_def)
  from fin obtain w1 w2 ioff ml b where w1: "writer_flush_block E S w = Ok w1"
    and w2: "writer_index_levels E S (if wo_unpadded (wr_opts w) then 1 else 3) w1 0 0 = Some (Ok (w2, ioff, ml))"
    and b: "writer_reftable_block_stats (writer_clear_index w2) ty = Ok b"
    and w': "w' = (writer_clear_index w2)\<lparr>wr_stats := put_block_stats ty
        (b\<lparr>st_index_blocks := st_blocks (st_idx (wr_stats (writer_clear_index w2))) - st_blocks (st_idx (wr_stats w)),
           st_index_offset := ioff, st_max_index_level := ml\<rparr>) (wr_stats (writer_clear_index w2)), wr_last_key := []\<rparr>"
    by (auto simp: writer_finish_section_def bw block_writer_of_def block_writer_type_inv [OF bi] run_bind_eq_Ok Let_def)
  have l1: "w_inv E out iv hsz tbs hdr dn l [] ty w1 \<and> w_frame w1 = w_frame w"
  proof (cases "cur = []")
    case True
    then have "w1 = w" using w1 bw bi by (simp add: writer_flush_block_def bw_inv_def)
    then show ?thesis using inv True by (simp add: l_def closed_level_def)
  next
    case False
    with writer_flush_inv [OF inv False S w1] show ?thesis by (simp add: l_def closed_level_def)
  qed
  have "\<exists>ups ty'. w_inv E out iv hsz tbs hdr (dn @ l @ ups) [] [] ty' (writer_clear_index w2) \<and> w_frame (writer_clear_index w2) = w_frame w
    \<and> (if ups = [] then ioff = 0 else sect_index E iv hdr dn l ups ioff)"
    using writer_index_levels_inv [OF S w2 conjunct1 [OF l1]] unfolding levels_post_def
  proof (elim disjE exE conjE)
    assume "w2 = w1" "ioff = 0"
    then show ?thesis using w_inv_level_done [OF conjunct1 [OF l1]] l1
      by (intro exI [of _ "[]"] exI [of _ ty]) (simp add: writer_clear_index_def w_frame_def)
  next
    fix ups assume "ups \<noteq> []" "w_inv E out iv hsz tbs hdr (dn @ l @ ups) [] [] BLOCK_TYPE_INDEX (w2\<lparr>wr_index := []\<rparr>)"
      "w_frame w2 = w_frame w1" "sect_index E iv hdr dn l ups ioff"
    then show ?thesis using l1 by (intro exI [of _ ups] exI [of _ BLOCK_TYPE_INDEX]) (simp add: writer_clear_index_def w_frame_def)
  qed
  then obtain ups ty' where u: "w_inv E out iv hsz tbs hdr (dn @ l @ ups) [] [] ty' (writer_clear_index w2)"
    "w_frame (writer_clear_index w2) = w_frame w" "if ups = [] then ioff = 0 else sect_index E iv hdr dn l ups ioff" by blast
  from put_index_stats [OF u(1) b w'] w_frame_env [OF u(2)] u(3) show ?thesis
    by (intro exI [of _ ups] exI [of _ ty']) (simp split: if_splits)
qed


section \<open>The object index\<close>

text \<open>The record of an object: the prefix of its hash, and its offsets, or none if they are too many.\<close>

definition obj_entry :: "nat \<Rightarrow> (bytes \<Rightarrow> nat list) \<Rightarrow> bytes \<Rightarrow> reftable_record \<Rightarrow> bool" where
  "obj_entry n offsets h rec \<longleftrightarrow> n \<le> length h \<and>
     (\<exists>offs. rec = Rec_Obj \<lparr>obj_hash_prefix = take n h, obj_offsets = offs\<rparr> \<and> (offs = map word_of_nat (offsets h) \<or> offs = []))"

lemma key_of_obj [simp]: "key_of E (Rec_Obj r) = obj_hash_prefix r"
  by (simp add: key_of_def reftable_obj_record_key_def)

lemma write_object_record_inv:
  assumes inv: "w_inv E out iv hsz tbs hdr dn lvl cur BLOCK_TYPE_OBJ w" "wr_block_writer w \<noteq> None" and S: "appends S out"
    and E: "alloc_ok E" and n: "n = st_object_id_len (wr_stats w)" "0 < n" "n < 2 ^ 61" and offs: "length (wr_obj_offsets w hash) < 2 ^ 64"
    and wr: "write_object_record E S (w, None) hash = Ok (w', None)"
  shows "\<exists>lvl' cur' rec. w_inv E out iv hsz tbs hdr dn lvl' cur' BLOCK_TYPE_OBJ w' \<and> grown w lvl cur BLOCK_TYPE_OBJ rec w' lvl' cur'
    \<and> w_frame w' = w_frame w \<and> wr_block_writer w' \<noteq> None \<and> obj_entry n (wr_obj_offsets w) hash rec"
proof -
  from inv(2) obtain bw where bw: "wr_block_writer w = Some bw" by auto
  let ?rec = "\<lambda>os. Rec_Obj \<lparr>obj_hash_prefix = take n hash, obj_offsets = os\<rparr>" and ?o = "map word_of_nat (wr_obj_offsets w hash)"
  have len: "n \<le> length hash" using wr n(1) by (auto simp: write_object_record_def res_bind_eq_Ok read_at_def split: if_splits)
  have ok: "reftable_record_type (?rec os) = BLOCK_TYPE_OBJ" "record_ok E hsz (?rec os)" "key_of E (?rec os) \<noteq> []"
    if "os \<in> {?o, []}" for os
    using that E n(2,3) len offs by (auto simp: obj_ok_def)
  have ent: "obj_entry n (wr_obj_offsets w) hash (?rec os)" if "os \<in> {?o, []}" for os
    using that len by (auto simp: obj_entry_def)
  have added: "\<exists>lvl' cur' rec. w_inv E out iv hsz tbs hdr dn lvl' cur' BLOCK_TYPE_OBJ (w2\<lparr>wr_block_writer := Some bw3\<rparr>)
      \<and> grown w lvl cur BLOCK_TYPE_OBJ rec (w2\<lparr>wr_block_writer := Some bw3\<rparr>) lvl' cur'
      \<and> w_frame (w2\<lparr>wr_block_writer := Some bw3\<rparr>) = w_frame w \<and> obj_entry n (wr_obj_offsets w) hash rec"
    if i2: "w_inv E out iv hsz tbs hdr dn lvl1 cur1 BLOCK_TYPE_OBJ w2" "w_frame w2 = w_frame w"
      "\<forall>rec. grown w lvl cur BLOCK_TYPE_OBJ rec w2 lvl1 (cur1 @ [rec])" "wr_block_writer w2 = Some bw2"
      and add: "block_writer_add E bw2 (?rec os) = Ok bw3" and os: "os \<in> {?o, []}" for lvl1 cur1 w2 bw2 bw3 os
  proof -
    from w_inv_add [OF i2(1,4) ok [OF os]] add have
      "w_inv E out iv hsz tbs hdr dn lvl1 (cur1 @ [?rec os]) BLOCK_TYPE_OBJ (w2\<lparr>wr_block_writer := Some bw3\<rparr>)"
      "w_frame (w2\<lparr>wr_block_writer := Some bw3\<rparr>) = w_frame w2" by auto
    then show ?thesis using i2(2) i2(3) [rule_format, of "?rec os"] ent [OF os]
      by (intro exI [of _ lvl1] exI [of _ "cur1 @ [?rec os]"] exI [of _ "?rec os"]) (auto simp: grown_def)
  qed
  show ?thesis
  proof (cases "block_writer_add E bw (?rec ?o)")
    case (Ok bw')
    with wr bw len n(1) have w': "w' = w\<lparr>wr_block_writer := Some bw'\<rparr>"
      by (simp add: write_object_record_def read_at_def block_writer_of_def)
    from added [OF inv(1) refl _ bw Ok] w' show ?thesis by (auto simp: grown_def)
  next
    case (Err e)
    let ?fr = "res_bind (writer_flush_block E S w) (\<lambda>w. writer_reinit_block_writer E w BLOCK_TYPE_OBJ)"
    let ?add = "\<lambda>w2. res_bind (block_writer_of w2) (\<lambda>bw2. case block_writer_add E bw2 (?rec ?o) of
        Ok bw \<Rightarrow> Ok (w2\<lparr>wr_block_writer := Some bw\<rparr>, None)
      | Crash c \<Rightarrow> Crash c
      | Err _ \<Rightarrow> (case block_writer_add E bw2 (?rec []) of
          Ok bw \<Rightarrow> Ok (w2\<lparr>wr_block_writer := Some bw\<rparr>, None) | Crash c \<Rightarrow> Crash c | Err _ \<Rightarrow> Crash Assert_Failed))"
    have eq: "(case ?fr of Crash c \<Rightarrow> Crash c | Err e \<Rightarrow> Ok (w, Some e) | Ok w2 \<Rightarrow> ?add w2) = Ok (w', None)"
      using wr bw len Err unfolding n(1) by (simp add: write_object_record_def read_at_def block_writer_of_def [of w] Let_def cong: res.case_cong)
    then obtain w2 where w2: "?fr = Ok w2" by (cases ?fr) simp_all
    then obtain w1 where w1: "writer_flush_block E S w = Ok w1" "writer_reinit_block_writer E w1 BLOCK_TYPE_OBJ = Ok w2"
      by (auto simp: res_bind_eq_Ok)
    from eq w2 have eq2: "?add w2 = Ok (w', None :: error option)" by simp
    then obtain bw2 where bw2: "wr_block_writer w2 = Some bw2" by (cases "wr_block_writer w2") (simp_all add: block_writer_of_def)
    with eq2 have "\<exists>os bw3. block_writer_add E bw2 (?rec os) = Ok bw3 \<and> os \<in> {?o, []} \<and> w' = w2\<lparr>wr_block_writer := Some bw3\<rparr>"
      by (cases "block_writer_add E bw2 (?rec ?o)"; cases "block_writer_add E bw2 (?rec [])") (auto simp: block_writer_of_def)
    then obtain os bw3 where bw3: "block_writer_add E bw2 (?rec os) = Ok bw3" "os \<in> {?o, []}" and w': "w' = w2\<lparr>wr_block_writer := Some bw3\<rparr>"
      by blast
    from flush_reinit [OF inv(1) bw S w1] obtain lvl1 where "w_inv E out iv hsz tbs hdr dn lvl1 [] BLOCK_TYPE_OBJ w2"
      "w_frame w2 = w_frame w" "\<forall>rec. grown w lvl cur BLOCK_TYPE_OBJ rec w2 lvl1 ([] @ [rec])" by auto
    from added [OF this bw2 bw3] w' show ?thesis by auto
  next
    case (Crash c)
    with wr bw len n(1) show ?thesis by (simp add: write_object_record_def read_at_def block_writer_of_def)
  qed
qed


lemma write_object_record_failed: "res_fold (write_object_record E S) ks (w, Some e) = Ok (w, Some e)"
  by (induction ks) (simp_all add: write_object_record_def)

lemma write_object_records_inv:
  assumes "w_inv E out iv hsz tbs hdr dn lvl cur BLOCK_TYPE_OBJ w" "wr_block_writer w \<noteq> None" and S: "appends S out"
    and E: "alloc_ok E" and n: "n = st_object_id_len (wr_stats w)" "0 < n" "n < 2 ^ 61"
    and offs: "\<forall>h \<in> set ks. length (wr_obj_offsets w h) < 2 ^ 64"
    and fold: "res_fold (write_object_record E S) ks (w, None) = Ok (w', None)"
  shows "\<exists>lvl' cur' recs. w_inv E out iv hsz tbs hdr dn lvl' cur' BLOCK_TYPE_OBJ w' \<and> wr_block_writer w' \<noteq> None
    \<and> concat (map ck_recs lvl') @ cur' = concat (map ck_recs lvl) @ cur @ recs \<and> w_frame w' = w_frame w
    \<and> list_all2 (obj_entry n (wr_obj_offsets w)) ks recs"
  using assms(1,2) n(1) offs fold
proof (induction ks arbitrary: w lvl cur)
  case (Cons h ks)
  from Cons.prems(5) obtain w1 err where step: "write_object_record E S (w, None) h = Ok (w1, err)"
    and rest: "res_fold (write_object_record E S) ks (w1, err) = Ok (w', None)" by (auto simp: res_bind_eq_Ok)
  from rest have err: "err = None" by (cases err) (simp_all add: write_object_record_failed)
  from write_object_record_inv [OF Cons.prems(1,2) S E Cons.prems(3) n(2,3) _ step [unfolded err]] Cons.prems(4)
  obtain lvl1 cur1 rec where l1: "w_inv E out iv hsz tbs hdr dn lvl1 cur1 BLOCK_TYPE_OBJ w1"
    "grown w lvl cur BLOCK_TYPE_OBJ rec w1 lvl1 cur1" "w_frame w1 = w_frame w" "wr_block_writer w1 \<noteq> None"
    "obj_entry n (wr_obj_offsets w) h rec" by auto
  have same: "wr_obj_offsets w1 = wr_obj_offsets w" "st_object_id_len (wr_stats w1) = st_object_id_len (wr_stats w)"
    using l1(3) by (simp_all add: w_frame_def)
  from Cons.IH [OF l1(1,4)] Cons.prems(3,4) rest err same obtain lvl' cur' recs where
    "w_inv E out iv hsz tbs hdr dn lvl' cur' BLOCK_TYPE_OBJ w'" "wr_block_writer w' \<noteq> None"
    "concat (map ck_recs lvl') @ cur' = concat (map ck_recs lvl1) @ cur1 @ recs" "w_frame w' = w_frame w1"
    "list_all2 (obj_entry n (wr_obj_offsets w)) ks recs" by auto
  then show ?case using grown_records [OF l1(2)] l1(3,5)
    by (intro exI [of _ lvl'] exI [of _ cur'] exI [of _ "rec # recs"]) simp
qed auto

text \<open>The length of the prefixes: longer than what two neighbours have in common.\<close>

lemma update_common_fold:
  "res_fold update_common (k # ks) (None, mx) = Ok (Some (last (k # ks)), fold max (map2 common_prefix_size ks (k # ks)) mx)"
proof -
  have "res_fold update_common ks (Some k, mx) = Ok (Some (last (k # ks)), fold max (map2 common_prefix_size ks (k # ks)) mx)" for k mx
  proof (induction ks arbitrary: k mx)
    case (Cons h ks)
    have "(if mx < common_prefix_size h k then common_prefix_size h k else mx) = max (common_prefix_size h k) mx" by auto
    then show ?case using Cons.IH [of h] by (simp add: update_common_def Let_def)
  qed simp
  then show ?thesis by (simp add: update_common_def)
qed

lemma common_prefix_size_less:
  assumes "a \<noteq> b" "length a = length b"
  shows "common_prefix_size a b < length a"
proof (rule ccontr)
  assume "\<not> ?thesis"
  then have "common_prefix_size a b = length a" using common_prefix_size_bounds(1) [of a b] by simp
  with take_common_prefix_size [of a b] assms show False by simp
qed

lemma fold_max: "fold max xs (m :: nat) = Max (insert m (set xs))"
proof (induction xs arbitrary: m)
  case (Cons x xs)
  have "fold max (x # xs) m = Max (insert (max x m) (set xs))" using Cons by simp
  also have "\<dots> = Max (insert m (set (x # xs)))" by (cases xs) (auto simp: max.assoc max.commute max.left_commute)
  finally show ?case .
qed simp

lemma object_id_len:
  assumes ks: "sorted_wrt (<) (ks :: bytes list)" "\<forall>k \<in> set ks. length k = hsz" "2 \<le> hsz"
    and mx: "res_fold update_common ks (None, 1) = Ok (l, mx)"
  shows "1 \<le> mx" "mx < hsz" "\<forall>i. Suc i < length ks \<longrightarrow> common_prefix_size (ks ! Suc i) (ks ! i) \<le> mx"
    "mx = 1 \<or> (\<exists>i. Suc i < length ks \<and> mx = common_prefix_size (ks ! Suc i) (ks ! i))"
proof -
  have "1 \<le> mx \<and> mx < hsz \<and> (\<forall>i. Suc i < length ks \<longrightarrow> common_prefix_size (ks ! Suc i) (ks ! i) \<le> mx)
    \<and> (mx = 1 \<or> (\<exists>i. Suc i < length ks \<and> mx = common_prefix_size (ks ! Suc i) (ks ! i)))"
  proof (cases ks)
    case (Cons k ks')
    let ?xs = "map2 common_prefix_size ks' ks"
    have m: "mx = Max (insert 1 (set ?xs))"
      using mx update_common_fold [of k ks' 1] by (simp add: Cons fold_max)
    have xs: "?xs ! i = common_prefix_size (ks ! Suc i) (ks ! i)" if "Suc i < length ks" for i
      using that by (simp add: Cons)
    have len: "length ?xs = length ks - 1" by (simp add: Cons)
    have mem: "\<exists>i. Suc i < length ks \<and> x = common_prefix_size (ks ! Suc i) (ks ! i)" if "x \<in> set ?xs" for x
    proof -
      from that obtain i where i: "i < length ?xs" "x = ?xs ! i" by (metis in_set_conv_nth)
      have "Suc i < length ks" using i(1) unfolding len by linarith
      with xs [OF this] i(2) show ?thesis by auto
    qed
    have "x < hsz" if "x \<in> set ?xs" for x
    proof -
      from mem [OF that] obtain i where i: "Suc i < length ks" "x = common_prefix_size (ks ! Suc i) (ks ! i)" by blast
      have "ks ! i < ks ! Suc i" using ks(1) i(1) by (auto simp: sorted_wrt_iff_nth_less)
      then show ?thesis using common_prefix_size_less [of "ks ! Suc i" "ks ! i"] ks(2) i by auto
    qed
    then have "mx < hsz" using ks(3) by (simp add: m)
    moreover have "common_prefix_size (ks ! Suc i) (ks ! i) \<le> mx" if "Suc i < length ks" for i
    proof -
      have "?xs ! i \<in> set ?xs" using that len by (intro nth_mem) simp
      then show ?thesis unfolding m using xs [OF that] by (intro Max_ge) auto
    qed
    moreover have "mx \<in> insert 1 (set ?xs)" unfolding m by (rule Max_in) simp_all
    moreover have "1 \<le> mx" unfolding m by simp
    ultimately show ?thesis using mem [of mx] by blast
  qed (use mx ks(3) in simp)
  then show "1 \<le> mx" "mx < hsz" "\<forall>i. Suc i < length ks \<longrightarrow> common_prefix_size (ks ! Suc i) (ks ! i) \<le> mx"
    "mx = 1 \<or> (\<exists>i. Suc i < length ks \<and> mx = common_prefix_size (ks ! Suc i) (ks ! i))" by blast+
qed


definition id_len_ok :: "bytes list \<Rightarrow> nat \<Rightarrow> bool" where
  "id_len_ok ks n \<longleftrightarrow> 1 < n \<and> (\<forall>i. Suc i < length ks \<longrightarrow> common_prefix_size (ks ! Suc i) (ks ! i) < n)
     \<and> (n = 2 \<or> (\<exists>i. Suc i < length ks \<and> n = Suc (common_prefix_size (ks ! Suc i) (ks ! i))))"

lemma w_inv_id_len:
  assumes inv: "w_inv E out iv hsz tbs hdr dn lvl cur ty w" and w': "w' = w\<lparr>wr_stats := (wr_stats w)\<lparr>st_object_id_len := n\<rparr>\<rparr>"
  shows "w_inv E out iv hsz tbs hdr dn lvl cur ty w'" "index_off w' t = index_off w t"
proof -
  have get: "writer_reftable_block_stats w' = writer_reftable_block_stats w" by (simp add: writer_reftable_block_stats_def fun_eq_iff w')
  have "w_conf E iv hsz tbs hdr w'" by (rule w_conf_opts [of _ _ _ _ _ w]) (use inv in \<open>simp_all add: w_inv_def w'\<close>)
  then show "w_inv E out iv hsz tbs hdr dn lvl cur ty w'"
    using inv by (auto simp: w_inv_def stats_ok_def get) (auto simp: w' w_block_def split: option.splits)
  show "index_off w' t = index_off w t" by (simp add: index_off_def get)
qed

definition walk_keys :: "bytes tree_node \<Rightarrow> ('a \<Rightarrow> bytes \<Rightarrow> 'a res) \<Rightarrow> 'a \<Rightarrow> 'a res" where
  "walk_keys t f a = (if t \<noteq> Leaf then infix_walk t f a else Ok a)"

lemma walk_keys_fold: "walk_keys t f a = res_fold f (infix_keys t) a"
  by (cases "t = Leaf") (simp_all add: walk_keys_def infix_walk_fold)

lemma writer_dump_object_index_inv:
  assumes inv: "w_inv E out iv hsz tbs hdr dn [] [] ty w" and S: "appends S out" and E: "alloc_ok E"
    and keys: "sorted_wrt (<) ks" "\<forall>k \<in> set ks. length k = hsz \<and> length (wr_obj_offsets w k) < 2 ^ 64" "2 \<le> hsz" "hsz < 2 ^ 61"
    and ks: "ks = infix_keys (wr_obj_index_tree w)"
    and dump: "writer_dump_object_index E S w = Some (Ok w')"
  shows "\<exists>l ups ty' recs n. w_inv E out iv hsz tbs hdr (dn @ l @ ups) [] [] ty' w' \<and> (\<forall>c \<in> set l. ck_typ c = BLOCK_TYPE_OBJ)
    \<and> concat (map ck_recs l) = recs \<and> list_all2 (obj_entry n (wr_obj_offsets w)) ks recs
    \<and> fst (w_env w') = fst (w_env w) \<and> n = st_object_id_len (wr_stats w') \<and> n \<le> hsz \<and> id_len_ok ks n
    \<and> (\<forall>t. t \<noteq> BLOCK_TYPE_OBJ \<longrightarrow> index_off w' t = index_off w t)
    \<and> (if ups = [] then index_off w' BLOCK_TYPE_OBJ = 0 else sect_index E iv hdr dn l ups (index_off w' BLOCK_TYPE_OBJ))"
proof -
  let ?t = "wr_obj_index_tree w"
  from dump [unfolded writer_dump_object_index_def walk_keys_def [symmetric]] obtain lst mx w1 w2 where mx: "walk_keys ?t update_common (None, 1) = Ok (lst, mx)"
    and w1: "writer_reinit_block_writer E (w\<lparr>wr_stats := (wr_stats w)\<lparr>st_object_id_len := mx + 1\<rparr>\<rparr>) BLOCK_TYPE_OBJ = Ok w1"
    and w2: "walk_keys (wr_obj_index_tree w1) (write_object_record E S) (w1, None) = Ok (w2, None)"
    and w': "writer_finish_section E S w2 = Some (Ok w')"
    by (auto simp: run_bind_eq_Ok Let_def split: option.splits)
  define w0 where "w0 = w\<lparr>wr_stats := (wr_stats w)\<lparr>st_object_id_len := mx + 1\<rparr>\<rparr>"
  note i0 = w_inv_id_len [OF inv w0_def]
  have "res_fold update_common ks (None, 1) = Ok (lst, mx)"
    using mx by (simp add: walk_keys_fold ks)
  note mx' = object_id_len [OF keys(1) _ keys(3) this]
  have mx2: "1 \<le> mx" "mx < hsz" "id_len_ok ks (mx + 1)"
    using mx' keys(2) by (auto simp: less_Suc_eq_le id_len_ok_def)
  from writer_reinit [OF i0(1), of BLOCK_TYPE_OBJ] w1 [folded w0_def] have i1: "w_inv E out iv hsz tbs hdr dn [] [] BLOCK_TYPE_OBJ (w1\<lparr>wr_index := []\<rparr>)"
    and f1: "w_frame w1 = w_frame w0" "wr_index w1 = wr_index w0" "wr_block_writer w1 \<noteq> None"
    by (auto simp: reftable_is_block_type_def)
  have "wr_index w0 = []" using i0(1) by (simp add: w_inv_def index_recs_def)
  then have i1: "w_inv E out iv hsz tbs hdr dn [] [] BLOCK_TYPE_OBJ w1" using i1 f1(2) by (cases w1) simp
  have same: "wr_obj_index_tree w1 = ?t" "wr_obj_offsets w1 = wr_obj_offsets w" "st_object_id_len (wr_stats w1) = mx + 1"
    using f1(1) by (simp_all add: w_frame_def w0_def)
  from write_object_records_inv [OF i1 f1(3) S E, of "mx + 1" ks w2] w2 same keys mx2 obtain l cur recs where
    l: "w_inv E out iv hsz tbs hdr dn l cur BLOCK_TYPE_OBJ w2" "wr_block_writer w2 \<noteq> None" "concat (map ck_recs l) @ cur = recs"
    "w_frame w2 = w_frame w1" "list_all2 (obj_entry (mx + 1) (wr_obj_offsets w)) ks recs"
    by (auto simp: walk_keys_fold ks)
  let ?l = "closed_level l cur BLOCK_TYPE_OBJ (wr_pending_padding w2)"
  from writer_finish_section_inv [OF l(1) S w'] obtain ups ty' where
    u: "w_inv E out iv hsz tbs hdr (dn @ ?l @ ups) [] [] ty' w'" "w_env w' = w_env w2"
    "\<forall>t. t \<noteq> BLOCK_TYPE_OBJ \<longrightarrow> index_off w' t = index_off w2 t"
    "if ups = [] then index_off w' BLOCK_TYPE_OBJ = 0 else sect_index E iv hdr dn ?l ups (index_off w' BLOCK_TYPE_OBJ)" by blast
  have ty: "\<forall>c \<in> set ?l. ck_typ c = BLOCK_TYPE_OBJ" using l(1) by (intro closed_level_types) (simp add: w_inv_def)
  have env: "w_env w' = w_env w0" using u(2) w_frame_env(1) [OF l(4)] w_frame_env(1) [OF f1(1)] by simp
  have n: "st_object_id_len (wr_stats w') = mx + 1" using env by (simp add: w_env_def w0_def)
  have fe: "fst (w_env w') = fst (w_env w)" using env by (simp add: w_env_def w0_def)
  have off: "index_off w' t = index_off w t" if "t \<noteq> BLOCK_TYPE_OBJ" for t
    using u(3) that w_frame_env(2) [OF l(4)] w_frame_env(2) [OF f1(1)] i0(2) by simp
  show ?thesis
    by (rule exI [of _ ?l], rule exI [of _ ups], rule exI [of _ ty'], rule exI [of _ recs], rule exI [of _ "mx + 1"])
       (use u(1,4) ty l(3,5) fe n mx2 off in simp)
qed


section \<open>Public sections\<close>

lemma indexed_in_nonempty:
  assumes "indexed_in E iv hdr cs ioff lvl" "laid_out E iv hsz tbs hdr cs"
  shows "lvl \<noteq> []"
  using assms(1)
proof (induction rule: indexed_in.induct)
  have ne: "concat (map ck_recs u) \<noteq> []" if "cs = a @ u @ b" "u \<noteq> []" for a u b
  proof -
    from that obtain c u' where u: "u = c # u'" by (cases u) auto
    have "chunk_ok E iv hsz tbs (pre_of hdr a) c" using laid_out_split [of E iv hsz tbs hdr a c "u' @ b"] assms(2) that(1) u by simp
    then show ?thesis by (simp add: u chunk_ok_def)
  qed
  {
    case (indexed_top a u b lvl)
    with ne [of a u b] show ?case by (auto simp: index_recs_def)
  next
    case (indexed_step a u b lvl)
    with ne [of a u b] show ?case by (auto simp: index_recs_def)
  }
qed

lemma sect_index_level:
  assumes "sect_index E iv hdr dn l ups ioff" "laid_out E iv hsz tbs hdr (dn @ l @ ups)"
  shows "l \<noteq> []"
proof -
  have "indexed_in E iv hdr (dn @ l @ ups @ []) ioff (offs_of E iv hdr dn l)"
    using assms(1) unfolding sect_index_def by blast
  from indexed_in_nonempty [OF this] assms(2) show ?thesis by simp
qed

text \<open>The object index behind a section of references, if there is one.\<close>

definition obj_part ::
  "reftable_env \<Rightarrow> nat \<Rightarrow> bytes \<Rightarrow> chunk list \<Rightarrow> chunk list \<Rightarrow> (bytes \<Rightarrow> nat list) \<Rightarrow> bytes list \<Rightarrow> nat \<Rightarrow> nat \<Rightarrow> bool" where
  "obj_part E iv hdr dn ob offsets ks n ioff \<longleftrightarrow>
     (\<exists>l ups. ob = l @ ups \<and> (\<forall>c \<in> set l. ck_typ c = BLOCK_TYPE_OBJ)
       \<and> list_all2 (obj_entry n offsets) ks (concat (map ck_recs l)) \<and> id_len_ok ks n
       \<and> (if ups = [] then ioff = 0 else l \<noteq> [] \<and> sect_index E iv hdr dn l ups ioff))"

lemma obj_part_types:
  assumes "obj_part E iv hdr dn ob offsets ks n ioff"
  shows "\<forall>c \<in> set ob. ck_typ c = BLOCK_TYPE_OBJ \<or> ck_typ c = BLOCK_TYPE_INDEX" "ob = [] \<or> ck_typ (hd ob) = BLOCK_TYPE_OBJ"
proof -
  from assms obtain l ups where o: "ob = l @ ups" "\<forall>c \<in> set l. ck_typ c = BLOCK_TYPE_OBJ" "ups = [] \<or> l \<noteq> [] \<and> sect_index E iv hdr dn l ups ioff"
    unfolding obj_part_def by (metis (full_types))
  then show "\<forall>c \<in> set ob. ck_typ c = BLOCK_TYPE_OBJ \<or> ck_typ c = BLOCK_TYPE_INDEX" by (auto simp: sect_index_def)
  show "ob = [] \<or> ck_typ (hd ob) = BLOCK_TYPE_OBJ" using o by (cases l) auto
qed

lemma writer_clear_inv:
  assumes inv: "w_inv E out iv hsz tbs hdr dn [] [] ty w" and t: "reftable_is_block_type t"
    and w': "w' = w\<lparr>wr_obj_index_tree := Leaf, wr_obj_offsets := (\<lambda>_. []), wr_block := writer_memory w, wr_block_writer := None\<rparr>"
  shows "w_inv E out iv hsz tbs hdr dn [] [] t w'"
proof -
  have "w_conf E iv hsz tbs hdr w'" by (rule w_conf_opts [of _ _ _ _ _ w]) (use inv in \<open>simp_all add: w_inv_def w'\<close>)
  moreover have "stats_ok E iv hdr dn w'" using inv by (simp add: w_inv_def stats_ok_def writer_reftable_block_stats_def w')
  moreover have "length (writer_memory w) = tbs"
    using inv by (auto simp: w_inv_def w_block_def writer_memory_def bw_inv_def split: option.splits)
  ultimately show ?thesis using inv t by (simp add: w_inv_def w' w_block_def index_recs_def)
qed

lemma writer_finish_public_section_inv:
  assumes inv: "w_inv E out iv hsz tbs hdr dn lvl cur ty w" and bw: "wr_block_writer w \<noteq> None" and S: "appends S out" and E: "alloc_ok E"
    and keys: "sorted_wrt (<) ks" "\<forall>k \<in> set ks. length k = hsz \<and> length (wr_obj_offsets w k) < 2 ^ 64" "2 \<le> hsz" "hsz < 2 ^ 61"
    and ks: "ks = infix_keys (wr_obj_index_tree w)"
    and fin: "writer_finish_public_section E S w = Some (Ok w')"
  defines "l \<equiv> closed_level lvl cur ty (wr_pending_padding w)"
  shows "\<exists>ups ob. (\<forall>t. reftable_is_block_type t \<longrightarrow> w_inv E out iv hsz tbs hdr (dn @ l @ ups @ ob) [] [] t w') \<and> wr_block_writer w' = None
    \<and> fst (w_env w') = fst (w_env w) \<and> wr_obj_index_tree w' = Leaf \<and> (\<forall>t. t \<noteq> ty \<and> t \<noteq> BLOCK_TYPE_OBJ \<longrightarrow> index_off w' t = index_off w t)
    \<and> (if ups = [] then ty \<noteq> BLOCK_TYPE_OBJ \<longrightarrow> index_off w' ty = 0 else l \<noteq> [] \<and> (ty \<noteq> BLOCK_TYPE_OBJ \<longrightarrow> sect_index E iv hdr dn l ups (index_off w' ty)))
    \<and> (\<forall>c \<in> set ups. ck_typ c = BLOCK_TYPE_INDEX)
    \<and> (ob = [] \<and> st_object_id_len (wr_stats w') = st_object_id_len (wr_stats w) \<and> (ty \<noteq> BLOCK_TYPE_OBJ \<longrightarrow> index_off w' BLOCK_TYPE_OBJ = index_off w BLOCK_TYPE_OBJ)
       \<or> ty = BLOCK_TYPE_REF \<and> obj_part E iv hdr (dn @ l @ ups) ob (wr_obj_offsets w) ks (st_object_id_len (wr_stats w')) (index_off w' BLOCK_TYPE_OBJ)
         \<and> st_object_id_len (wr_stats w') \<le> hsz \<and> \<not> wo_skip_index_objects (wr_opts w))"
proof -
  from bw obtain b where b: "wr_block_writer w = Some b" by auto
  have bt: "block_writer_type b = Ok ty" using inv b by (auto simp: w_inv_def w_block_def intro: block_writer_type_inv)
  obtain w1 w2 where w1: "writer_finish_section E S w = Some (Ok w1)"
    and w2: "(if ty = BLOCK_TYPE_REF \<and> \<not> wo_skip_index_objects (wr_opts w1) \<and> st_index_blocks (st_ref (wr_stats w1)) > 0
       then writer_dump_object_index E S w1 else Some (Ok w1)) = Some (Ok w2)"
    and w': "w' = w2\<lparr>wr_obj_index_tree := Leaf, wr_obj_offsets := (\<lambda>_. []), wr_block := writer_memory w2, wr_block_writer := None\<rparr>"
    using fin b bt by (auto simp: writer_finish_public_section_def run_bind_eq_Ok)
  from writer_finish_section_inv [OF inv S w1, folded l_def] obtain ups ty1 where
    u: "w_inv E out iv hsz tbs hdr (dn @ l @ ups) [] [] ty1 w1" "w_env w1 = w_env w" "\<forall>t. t \<noteq> ty \<longrightarrow> index_off w1 t = index_off w t"
    "if ups = [] then index_off w1 ty = 0 else sect_index E iv hdr dn l ups (index_off w1 ty)" by blast
  have lay: "laid_out E iv hsz tbs hdr (dn @ l @ ups)" using u(1) by (simp add: w_inv_def)
  have lne: "l \<noteq> []" if "ups \<noteq> []" using u(4) that sect_index_level [OF _ lay] by simp
  have ut: "\<forall>c \<in> set ups. ck_typ c = BLOCK_TYPE_INDEX" using u(4) by (cases "ups = []") (simp_all add: sect_index_def)
  have same: "wr_obj_offsets w1 = wr_obj_offsets w" "wr_obj_index_tree w1 = wr_obj_index_tree w" "st_object_id_len (wr_stats w1) = st_object_id_len (wr_stats w)"
    "wr_opts w1 = wr_opts w"
    using u(2) by (simp_all add: w_env_def)
  have io: "index_off w' t = index_off w2 t" for t by (simp add: w' index_off_def writer_reftable_block_stats_def)
  have ids: "st_object_id_len (wr_stats w') = st_object_id_len (wr_stats w2)" "fst (w_env w') = fst (w_env w2)" by (simp_all add: w' w_env_def)
  show ?thesis
  proof (cases "ty = BLOCK_TYPE_REF \<and> \<not> wo_skip_index_objects (wr_opts w1) \<and> st_index_blocks (st_ref (wr_stats w1)) > 0")
    case False
    then have "w2 = w1" using w2 by (auto split: if_splits)
    have ci: "w_inv E out iv hsz tbs hdr (dn @ l @ ups @ []) [] [] t w'" if "reftable_is_block_type t" for t
      using writer_clear_inv [OF u(1) that] w' \<open>w2 = w1\<close> by simp
    show ?thesis
      by (rule exI [of _ ups], rule exI [of _ "[]"]) (use ci u(2-4) lne ut same io ids \<open>w2 = w1\<close> in \<open>auto simp: w'\<close>)
  next
    case True
    then have dump: "writer_dump_object_index E S w1 = Some (Ok w2)" and ty: "ty = BLOCK_TYPE_REF" using w2 by simp_all
    have k1: "\<forall>k \<in> set ks. length k = hsz \<and> length (wr_obj_offsets w1 k) < 2 ^ 64" "ks = infix_keys (wr_obj_index_tree w1)"
      using keys(2) ks same by simp_all
    from writer_dump_object_index_inv [OF u(1) S E keys(1) k1(1) keys(3,4) k1(2) dump] obtain l2 ups2 ty2 n where
      o: "w_inv E out iv hsz tbs hdr ((dn @ l @ ups) @ l2 @ ups2) [] [] ty2 w2" "\<forall>c \<in> set l2. ck_typ c = BLOCK_TYPE_OBJ"
      "list_all2 (obj_entry n (wr_obj_offsets w1)) ks (concat (map ck_recs l2))" "fst (w_env w2) = fst (w_env w1)"
      "n = st_object_id_len (wr_stats w2)" "n \<le> hsz" "id_len_ok ks n"
      "\<forall>t. t \<noteq> BLOCK_TYPE_OBJ \<longrightarrow> index_off w2 t = index_off w1 t"
      "if ups2 = [] then index_off w2 BLOCK_TYPE_OBJ = 0 else sect_index E iv hdr (dn @ l @ ups) l2 ups2 (index_off w2 BLOCK_TYPE_OBJ)"
      by blast
    have lay2: "laid_out E iv hsz tbs hdr ((dn @ l @ ups) @ l2 @ ups2)" using o(1) by (simp add: w_inv_def)
    have l2ne: "l2 \<noteq> []" if "ups2 \<noteq> []" using o(9) that sect_index_level [OF _ lay2] by simp
    have part: "obj_part E iv hdr (dn @ l @ ups) (l2 @ ups2) (wr_obj_offsets w) ks (st_object_id_len (wr_stats w')) (index_off w' BLOCK_TYPE_OBJ)"
      unfolding obj_part_def by (rule exI [of _ l2], rule exI [of _ ups2]) (use o l2ne same io ids in simp)
    have ci: "w_inv E out iv hsz tbs hdr (dn @ l @ ups @ l2 @ ups2) [] [] t w'" if "reftable_is_block_type t" for t
      using writer_clear_inv [OF o(1) that w'] by simp
    show ?thesis
      by (rule exI [of _ ups], rule exI [of _ "l2 @ ups2"]) (use ci part o u(2-4) lne ut same io ids ty True in \<open>auto simp: w'\<close>)
  qed
qed

end
