(* ===== verification/Reft_Writer_Refs.thy ===== *)
theory Reft_Writer_Refs
  imports Reft_Writer_Section
begin

text \<open>
  The references of a table: a new writer, adding references with the objects they point to, and
  what has been written when their section is finished.
\<close>

section \<open>Adding references\<close>

text \<open>The objects that a record refers to, and the offsets of the blocks with references to an object.\<close>

fun rec_hashes :: "reftable_record \<Rightarrow> bytes set" where
  "rec_hashes (Rec_Ref r) = set_option (reftable_ref_record_val1 r) \<union> set_option (reftable_ref_record_val2 r)"
| "rec_hashes _ = {}"

definition hash_blocks :: "level \<Rightarrow> (nat \<times> bytes set) list" where
  "hash_blocks bl = map (\<lambda>(off, recs). (off, \<Union> (rec_hashes ` set recs))) bl"

definition offs_for :: "bytes \<Rightarrow> (nat \<times> bytes set) list \<Rightarrow> nat list" where
  "offs_for h bl = map fst (filter (\<lambda>(off, H). h \<in> H) bl)"

definition o_state :: "'s reftable_writer \<Rightarrow> (nat \<times> bytes set) list \<Rightarrow> bool" where
  "o_state w bl \<longleftrightarrow> sorted_wrt (<) (infix_keys (wr_obj_index_tree w))
     \<and> set (infix_keys (wr_obj_index_tree w)) = \<Union> (snd ` set bl)
     \<and> (\<forall>h \<in> \<Union> (snd ` set bl). wr_obj_offsets w h = offs_for h bl)"

lemma obj_compare: "obj_index_tree_node_compare = reftable_buf_cmp"
  by (simp add: fun_eq_iff obj_index_tree_node_compare_def)

lemma search_tree_sorted: "buf_tree.search_tree t \<longleftrightarrow> sorted_wrt (<) (infix_keys t)"
  by (simp add: buf_tree.search_tree_def)

lemma tree_search_keys:
  assumes "sorted_wrt (<) (infix_keys t)"
  shows "tree_search t h reftable_buf_cmp = (if h \<in> set (infix_keys t) then Some h else None)"
proof -
  have "find (\<lambda>x. id x = id h) xs = (if h \<in> set xs then Some h else None)" for xs :: "bytes list"
    by (induction xs) auto
  then show ?thesis using buf_tree.search_finds [of t h] assms by (simp add: search_tree_sorted)
qed

lemma offs_for_snoc: "offs_for h (bl @ [(off, H)]) = offs_for h bl @ (if h \<in> H then [off] else [])"
  by (simp add: offs_for_def)

lemma writer_index_hash_state:
  assumes st: "o_state w (bl @ [(wr_next w, H)])" and less: "\<forall>(off, H) \<in> set bl. off < wr_next w"
  shows "o_state (writer_index_hash w h) (bl @ [(wr_next w, insert h H)])"
proof -
  let ?t = "wr_obj_index_tree w" and ?bl = "bl @ [(wr_next w, H)]" and ?bl' = "bl @ [(wr_next w, insert h H)]"
  have srt: "sorted_wrt (<) (infix_keys ?t)" and keys: "set (infix_keys ?t) = \<Union> (snd ` set ?bl)"
    and offs: "\<And>x. x \<in> \<Union> (snd ` set ?bl) \<Longrightarrow> wr_obj_offsets w x = offs_for x ?bl" using st by (simp_all add: o_state_def)
  have U: "\<Union> (snd ` set ?bl') = insert h (\<Union> (snd ` set ?bl))" by auto
  have other: "offs_for x ?bl' = offs_for x ?bl" if "x \<noteq> h" for x using that by (simp add: offs_for_snoc)
  have old: "last (offs_for h bl) \<noteq> wr_next w" if "offs_for h bl \<noteq> []"
    using last_in_set [OF that] less by (auto simp: offs_for_def)
  show ?thesis
  proof (cases "h \<in> set (infix_keys ?t)")
    case True
    then have s: "tree_search ?t h obj_index_tree_node_compare = Some h" by (simp add: obj_compare tree_search_keys [OF srt])
    have h: "wr_obj_offsets w h = offs_for h bl @ (if h \<in> H then [wr_next w] else [])"
      using True keys offs [of h] by (simp add: offs_for_snoc)
    have "wr_obj_offsets (writer_index_hash w h) x = offs_for x ?bl'" if "x \<in> \<Union> (snd ` set ?bl')" for x
    proof (cases "x = h")
      case True
      then show ?thesis using old h by (auto simp: writer_index_hash_def s Let_def offs_for_snoc)
    next
      case False
      then have "x \<in> \<Union> (snd ` set ?bl)" using that unfolding U by blast
      from offs [OF this] other [OF False] False show ?thesis by (simp add: writer_index_hash_def s Let_def)
    qed
    moreover have "wr_obj_index_tree (writer_index_hash w h) = ?t" by (simp add: writer_index_hash_def s Let_def)
    ultimately show ?thesis using srt keys True U unfolding o_state_def by auto
  next
    case False
    then have s: "tree_search ?t h obj_index_tree_node_compare = None" by (simp add: obj_compare tree_search_keys [OF srt])
    have hn: "h \<notin> \<Union> (snd ` set ?bl)" using False keys by simp
    then have none: "offs_for h bl = []" by (auto simp: offs_for_def filter_empty_conv)
    let ?t' = "fst (tree_insert ?t h reftable_buf_cmp)"
    have t': "wr_obj_index_tree (writer_index_hash w h) = ?t'"
      unfolding writer_index_hash_def s by (simp add: Let_def obj_compare)
    have "set (infix_keys ?t') = insert h (set (infix_keys ?t))" "sorted_wrt (<) (infix_keys ?t')"
      using buf_tree.insert_set [of ?t h] buf_tree.insert_search_tree [of ?t h] srt False by (simp_all add: search_tree_sorted)
    moreover have "wr_obj_offsets (writer_index_hash w h) x = offs_for x ?bl'" if "x \<in> \<Union> (snd ` set ?bl')" for x
    proof (cases "x = h")
      case True
      then show ?thesis using none by (simp add: writer_index_hash_def s Let_def offs_for_snoc)
    next
      case False
      then have "x \<in> \<Union> (snd ` set ?bl)" using that unfolding U by blast
      from offs [OF this] other [OF False] False show ?thesis by (simp add: writer_index_hash_def s Let_def)
    qed
    ultimately show ?thesis using keys U unfolding o_state_def t' by auto
  qed
qed

lemma w_inv_index_hash:
  assumes "w_inv E out iv hsz tbs hdr dn lvl cur ty w"
  shows "w_inv E out iv hsz tbs hdr dn lvl cur ty (writer_index_hash w h)" "wr_next (writer_index_hash w h) = wr_next w"
    "fst (w_env (writer_index_hash w h)) = fst (w_env w)" "index_off (writer_index_hash w h) ty' = index_off w ty'"
    "wr_block_writer (writer_index_hash w h) = wr_block_writer w" "wr_stats (writer_index_hash w h) = wr_stats w"
proof -
  have "writer_index_hash w h = w\<lparr>wr_obj_index_tree := wr_obj_index_tree (writer_index_hash w h), wr_obj_offsets := wr_obj_offsets (writer_index_hash w h)\<rparr>"
    by (cases "tree_search (wr_obj_index_tree w) h obj_index_tree_node_compare") (simp_all add: writer_index_hash_def Let_def)
  then obtain t f where w': "writer_index_hash w h = w\<lparr>wr_obj_index_tree := t, wr_obj_offsets := f\<rparr>" by blast
  have "w_conf E iv hsz tbs hdr (writer_index_hash w h)"
    by (rule w_conf_opts [of _ _ _ _ _ w]) (use assms in \<open>simp_all add: w_inv_def w'\<close>)
  then show "w_inv E out iv hsz tbs hdr dn lvl cur ty (writer_index_hash w h)"
    using assms by (auto simp: w_inv_def w' w_block_def stats_ok_def writer_reftable_block_stats_def split: option.splits)
  show "wr_next (writer_index_hash w h) = wr_next w" "fst (w_env (writer_index_hash w h)) = fst (w_env w)"
    "index_off (writer_index_hash w h) ty' = index_off w ty'" "wr_block_writer (writer_index_hash w h) = wr_block_writer w"
    "wr_stats (writer_index_hash w h) = wr_stats w"
    by (simp_all add: w' w_env_def index_off_def writer_reftable_block_stats_def)
qed


text \<open>What the object index says when it is written at all.\<close>

definition o_inv :: "'s reftable_writer \<Rightarrow> (nat \<times> bytes set) list \<Rightarrow> bool" where
  "o_inv w bl \<longleftrightarrow> (if wo_skip_index_objects (wr_opts w) then wr_obj_index_tree w = Leaf else o_state w bl)"

lemma o_inv_frame:
  assumes "o_inv w bl" "w_frame w' = w_frame w"
  shows "o_inv w' bl"
proof -
  have "wr_opts w' = wr_opts w" "wr_obj_index_tree w' = wr_obj_index_tree w" "wr_obj_offsets w' = wr_obj_offsets w"
    using assms(2) by (simp_all add: w_frame_def)
  then show ?thesis using assms(1) unfolding o_inv_def o_state_def by simp
qed

lemma o_inv_new_block: "o_inv w bl \<Longrightarrow> o_inv w (bl @ [(n, {})])"
  unfolding o_inv_def o_state_def by (simp add: offs_for_snoc)

lemma writer_index_ref_hash_inv:
  assumes inv: "w_inv E out iv hsz tbs hdr dn lvl cur ty w" and o: "o_inv w (bl @ [(wr_next w, H)])"
    and less: "\<forall>(off, H) \<in> set bl. off < wr_next w" and v: "\<forall>h \<in> set_option v. length h = hsz"
    and w': "writer_index_ref_hash E w v = Ok w'"
  shows "w_inv E out iv hsz tbs hdr dn lvl cur ty w' \<and> o_inv w' (bl @ [(wr_next w', H \<union> set_option v)])
    \<and> wr_next w' = wr_next w \<and> fst (w_env w') = fst (w_env w) \<and> wr_stats w' = wr_stats w \<and> wr_block_writer w' = wr_block_writer w"
proof (cases v)
  case None
  then show ?thesis using inv o w' by (simp add: writer_index_ref_hash_def)
next
  case (Some h)
  show ?thesis
  proof (cases "wo_skip_index_objects (wr_opts w)")
    case True
    then show ?thesis using inv o w' Some by (simp add: writer_index_ref_hash_def o_inv_def)
  next
    case False
    have "hash_size E (wo_hash_id (wr_opts w)) = Ok hsz" using inv by (simp add: w_inv_def w_conf_def)
    then have w': "w' = writer_index_hash w h" using w' Some False v by (simp add: writer_index_ref_hash_def read_at_def)
    note i = w_inv_index_hash [OF inv, of h]
    have "wr_opts (writer_index_hash w h) = wr_opts w" using i(3) by (simp add: w_env_def)
    then have "o_inv w' (bl @ [(wr_next w, insert h H)])"
      using writer_index_hash_state [OF _ less] o False by (simp add: o_inv_def w')
    then show ?thesis using i Some by (simp add: w')
  qed
qed

definition stored_ref :: "u64 \<Rightarrow> ref_record \<Rightarrow> reftable_record" where
  "stored_ref mn r = Rec_Ref (r\<lparr>ref_update_index := ref_update_index r - mn\<rparr>)"

text \<open>The state after some references: they are in the blocks, and the object index knows where.\<close>

definition no_index :: "'s reftable_writer \<Rightarrow> bool" where
  "no_index w \<longleftrightarrow> (\<forall>ty. index_off w ty = 0) \<and> st_object_id_len (wr_stats w) = 0"

lemma no_index_stats: "no_index w \<Longrightarrow> wr_stats w' = wr_stats w \<Longrightarrow> no_index w'"
  unfolding no_index_def index_off_def writer_reftable_block_stats_def by (simp only: simp_thms)

definition ref_state ::
  "reftable_env \<Rightarrow> ('s \<Rightarrow> bytes) \<Rightarrow> nat \<Rightarrow> nat \<Rightarrow> nat \<Rightarrow> bytes \<Rightarrow> ref_record list \<Rightarrow> 's reftable_writer \<Rightarrow> bool" where
  "ref_state E out iv hsz tbs hdr refs w \<longleftrightarrow>
     (\<exists>lvl cur. w_inv E out iv hsz tbs hdr [] lvl cur BLOCK_TYPE_REF w \<and> wr_block_writer w \<noteq> None
       \<and> concat (map ck_recs lvl) @ cur = map (stored_ref (wr_min_update_index w)) refs
       \<and> o_inv w (hash_blocks (offs_of E iv hdr [] lvl @ [(wr_next w, cur)])) \<and> no_index w)"

lemma writer_add_record_key:
  assumes "writer_add_record E S w rec = Ok w'"
  shows "key_of E rec \<noteq> []"
  using assms by (auto simp: writer_add_record_def res_bind_eq_Ok key_of_def reftable_buf_cmp_def memcmp_def split: if_splits)

lemma grown_o_inv:
  assumes inv: "w_inv E out iv hsz tbs hdr [] lvl cur BLOCK_TYPE_REF w" and g: "grown w lvl cur BLOCK_TYPE_REF rec w' lvl' cur'"
    and o: "o_inv w (hash_blocks (offs_of E iv hdr [] lvl @ [(wr_next w, cur)]))" and fr: "w_frame w' = w_frame w"
  shows "\<exists>H. o_inv w' (hash_blocks (offs_of E iv hdr [] lvl') @ [(wr_next w', H)]) \<and> \<Union> (rec_hashes ` set cur') = H \<union> rec_hashes rec"
  using g unfolding grown_def
proof (elim disjE conjE)
  assume "lvl' = lvl" "cur' = cur @ [rec]" "wr_next w' = wr_next w"
  then show ?thesis using o_inv_frame [OF o fr]
    by (intro exI [of _ "\<Union> (rec_hashes ` set cur)"]) (auto simp: hash_blocks_def)
next
  let ?c = "\<lparr>ck_pad = wr_pending_padding w, ck_typ = BLOCK_TYPE_REF, ck_recs = cur\<rparr>"
  assume l: "lvl' = lvl @ [?c]" "cur' = [rec]"
  have "chunk_off E iv hdr lvl ?c = wr_next w" using inv by (simp add: chunk_off_def w_inv_def)
  then have "hash_blocks (offs_of E iv hdr [] lvl') = hash_blocks (offs_of E iv hdr [] lvl @ [(wr_next w, cur)])"
    by (simp add: l offs_of_append)
  then show ?thesis using o_inv_new_block [OF o_inv_frame [OF o fr]] l(2) by (intro exI [of _ "{}"]) simp
qed

lemma add_ref_state:
  assumes st: "ref_state E out iv hsz tbs hdr refs w" and S: "appends S out" and ok: "ref_ok E hsz r"
    and add: "reftable_writer_add_ref E S w r = Ok w'"
  shows "ref_state E out iv hsz tbs hdr (refs @ [r]) w' \<and> fst (w_env w') = fst (w_env w)"
proof -
  let ?r = "stored_ref (wr_min_update_index w) r"
  from st obtain lvl cur where w: "w_inv E out iv hsz tbs hdr [] lvl cur BLOCK_TYPE_REF w" "wr_block_writer w \<noteq> None"
    "concat (map ck_recs lvl) @ cur = map (stored_ref (wr_min_update_index w)) refs"
    "o_inv w (hash_blocks (offs_of E iv hdr [] lvl @ [(wr_next w, cur)]))" "no_index w" unfolding ref_state_def by blast
  from add obtain w1 w2 where w1: "writer_add_record E S w ?r = Ok w1" and w2: "writer_index_ref_hash E w1 (reftable_ref_record_val1 r) = Ok w2"
    and w': "writer_index_ref_hash E w2 (reftable_ref_record_val2 r) = Ok w'"
    by (auto simp: reftable_writer_add_ref_def res_bind_eq_Ok stored_ref_def split: if_splits)
  have "record_ok E hsz ?r" "reftable_record_type ?r = BLOCK_TYPE_REF" using ok by (simp_all add: stored_ref_def ref_ok_def)
  from writer_add_record_inv [OF w(1) S this(2,1) writer_add_record_key [OF w1] w1] obtain lvl' cur' where
    l: "w_inv E out iv hsz tbs hdr [] lvl' cur' BLOCK_TYPE_REF w1" "grown w lvl cur BLOCK_TYPE_REF ?r w1 lvl' cur'"
    "w_frame w1 = w_frame w" "wr_block_writer w1 \<noteq> None" by blast
  from grown_o_inv [OF w(1) l(2) w(4) l(3)] obtain H where
    H: "o_inv w1 (hash_blocks (offs_of E iv hdr [] lvl') @ [(wr_next w1, H)])" "\<Union> (rec_hashes ` set cur') = H \<union> rec_hashes ?r" by blast
  have less: "\<forall>(off, H) \<in> set (hash_blocks (offs_of E iv hdr [] lvl')). off < wr_next w1"
    using offs_of_below [of _ _ E iv hdr "[]" lvl' "[]"] l(1) by (fastforce simp: hash_blocks_def w_inv_def)
  have v: "\<forall>h \<in> set_option (reftable_ref_record_val1 r). length h = hsz" "\<forall>h \<in> set_option (reftable_ref_record_val2 r). length h = hsz"
    using ok by (cases "ref_value r"; simp add: ref_ok_def)+
  have rh: "rec_hashes ?r = set_option (reftable_ref_record_val1 r) \<union> set_option (reftable_ref_record_val2 r)"
    by (cases "ref_value r") (simp_all add: stored_ref_def)
  from writer_index_ref_hash_inv [OF l(1) H(1) less v(1) w2] have
    i2: "w_inv E out iv hsz tbs hdr [] lvl' cur' BLOCK_TYPE_REF w2" "wr_next w2 = wr_next w1" "fst (w_env w2) = fst (w_env w1)"
    "wr_stats w2 = wr_stats w1" "wr_block_writer w2 = wr_block_writer w1"
    "o_inv w2 (hash_blocks (offs_of E iv hdr [] lvl') @ [(wr_next w2, H \<union> set_option (reftable_ref_record_val1 r))])" by blast+
  from writer_index_ref_hash_inv [OF i2(1,6) _ v(2) w'] less i2(2) have
    i3: "w_inv E out iv hsz tbs hdr [] lvl' cur' BLOCK_TYPE_REF w'" "wr_next w' = wr_next w1" "fst (w_env w') = fst (w_env w1)"
    "wr_stats w' = wr_stats w1" "wr_block_writer w' = wr_block_writer w1"
    "o_inv w' (hash_blocks (offs_of E iv hdr [] lvl') @ [(wr_next w', \<Union> (rec_hashes ` set cur'))])"
    using i2 by (auto simp: H(2) rh Un_assoc simp del: reftable_ref_record_val1.simps reftable_ref_record_val2.simps)
  have env: "fst (w_env w') = fst (w_env w)" using i3(3) w_frame_env(1) [OF l(3)] by simp
  have "no_index w1" using w(5) w_frame_env [OF l(3)] by (simp add: no_index_def w_env_def)
  then have "no_index w'" using i3(4) by (rule no_index_stats)
  moreover have "concat (map ck_recs lvl') @ cur' = map (stored_ref (wr_min_update_index w')) (refs @ [r])"
    using grown_records [OF l(2)] w(3) env by (simp add: w_env_def)
  ultimately show ?thesis unfolding ref_state_def using i3 l(4) env
    by (intro conjI exI [of _ lvl'] exI [of _ cur']) (simp_all add: hash_blocks_def)
qed

lemma add_ref_list_state:
  assumes "ref_state E out iv hsz tbs hdr refs w" and S: "appends S out" and "\<forall>r \<in> set rs. ref_ok E hsz r"
    and "writer_add_ref_list E S w rs = Ok w'"
  shows "ref_state E out iv hsz tbs hdr (refs @ rs) w' \<and> fst (w_env w') = fst (w_env w)"
  using assms(1,3,4)
proof (induction rs arbitrary: refs w)
  case (Cons r rs)
  from Cons.prems(3) obtain w1 where w1: "reftable_writer_add_ref E S w r = Ok w1" "writer_add_ref_list E S w1 rs = Ok w'"
    by (auto simp: res_bind_eq_Ok)
  from add_ref_state [OF Cons.prems(1) S _ w1(1)] Cons.prems(2) have
    "ref_state E out iv hsz tbs hdr (refs @ [r]) w1" "fst (w_env w1) = fst (w_env w)" by simp_all
  with Cons.IH [OF this(1) _ w1(2)] Cons.prems(2) show ?case by simp
qed simp


section \<open>A new writer\<close>

lemma length_writer_header_prefix: "be64_ok E \<Longrightarrow> length (writer_header_prefix E w) = 24"
  by (simp add: writer_header_prefix_def REFT_MAGIC_def be64_simps)

lemma writer_header_size:
  assumes "writer_write_header E w = Ok hdr" "be64_ok E" "be32_ok E"
  shows "header_size (writer_version w) = Ok (length hdr)"
  using assms by (auto simp: writer_write_header_def res_bind_eq_Ok header_size_def length_writer_header_prefix be32_ok_def writer_version_def
      split: if_splits)

lemma writer_new_state:
  assumes E: "be64_ok E" "be32_ok E" and new: "reftable_writer_new E sink opts_ptr = Ok w0" and out: "out sink = []"
    and o: "opts = options_set_defaults E (case opts_ptr of Some opts \<Rightarrow> opts | None \<Rightarrow> zero_write_options)"
    and w: "w = reftable_writer_set_limits w0 mn mx"
    and hdr: "writer_write_header E w = Ok hdr" "length hdr + 4 \<le> wo_block_size opts" and hsz: "hash_size E (wo_hash_id opts) = Ok hsz"
  shows "ref_state E out (wo_restart_interval opts) hsz (wo_block_size opts) hdr [] w \<and> fst (w_env w) = (opts, mn, mx)"
proof -
  let ?v = "\<lparr>wr_sink = sink, wr_opts = opts, wr_next = 0, wr_pending_padding = 0,
             wr_min_update_index = 0, wr_max_update_index = 0, wr_last_key = [],
             wr_block = replicate (wo_block_size opts) 0, wr_block_writer = None, wr_index = [],
             wr_obj_index_tree = Leaf, wr_obj_offsets = (\<lambda>_. []),
             wr_stats = \<lparr>st_all_blocks = 0, st_ref = zero_block_stats, st_obj = zero_block_stats,
               st_idx = zero_block_stats, st_log = zero_block_stats, st_object_id_len = 0\<rparr>\<rparr>"
  have sz: "wo_block_size opts < 2 ^ 24" and w0: "(case writer_reinit_block_writer E ?v BLOCK_TYPE_REF of Ok w \<Rightarrow> Ok w | Err _ \<Rightarrow> Ok ?v | Crash c \<Rightarrow> Crash c) = Ok w0"
    using new by (simp_all add: reftable_writer_new_def o [symmetric] Let_def split: if_splits)
  have ver: "writer_version w = writer_version ?v"
  proof -
    have "wr_opts w0 = opts" using w0 by (auto simp: writer_reinit_block_writer_def res_bind_eq_Ok split: res.splits)
    then show ?thesis by (simp add: writer_version_def w reftable_writer_set_limits_def)
  qed
  have hs: "header_size (writer_version ?v) = Ok (length hdr)" using writer_header_size [OF hdr(1) E] ver by simp
  from bw_inv_init [of "length hdr" "replicate (wo_block_size opts) 0" BLOCK_TYPE_REF hsz E "wo_restart_interval opts"] sz hdr(2) obtain bw where
    bw: "block_writer_init BLOCK_TYPE_REF (replicate (wo_block_size opts) 0) (wo_block_size opts) (length hdr) hsz = Ok bw"
    "bw_inv E (wo_restart_interval opts) BLOCK_TYPE_REF [] (bw\<lparr>bw_restart_interval := wo_restart_interval opts\<rparr>)"
    "bw_hash_size bw = hsz" "bw_header_off bw = length hdr" "bw_block_size bw = wo_block_size opts" by auto
  have w: "w = ?v\<lparr>wr_last_key := [], wr_block := bw_block bw, wr_min_update_index := mn, wr_max_update_index := mx,
      wr_block_writer := Some (bw\<lparr>bw_restart_interval := wo_restart_interval opts\<rparr>)\<rparr>"
    using w0 hs hsz bw(1) by (auto simp: writer_reinit_block_writer_def writer_memory_def w reftable_writer_set_limits_def)
  have zero: "writer_reftable_block_stats w ty = Ok b \<Longrightarrow> b = zero_block_stats" for ty b
    by (auto simp: writer_reftable_block_stats_def w split: if_splits)
  have stats: "stats_ok E (wo_restart_interval opts) hdr [] w"
    unfolding stats_ok_def by (auto dest: zero simp: zero_block_stats_def first_off_def)
  have conf: "w_conf E (wo_restart_interval opts) hsz (wo_block_size opts) hdr w"
    using sz hdr hsz hs unfolding w_conf_def ver by (simp add: w)
  have "w_block E (wo_restart_interval opts) hsz (wo_block_size opts) hdr BLOCK_TYPE_REF [] w" using bw by (simp add: w_block_def w)
  then have inv: "w_inv E out (wo_restart_interval opts) hsz (wo_block_size opts) hdr [] [] [] BLOCK_TYPE_REF w"
    using out stats conf unfolding w_inv_def
    by (simp add: laid_out.laid_out_Nil pad_ok_def index_recs_def reftable_is_block_type_def pre_of_def) (simp add: w)
  have "index_off w ty = 0" for ty using zero [of ty] by (auto simp: index_off_def zero_block_stats_def split: res.splits)
  moreover have "o_inv w (hash_blocks [(0, [])])" by (simp add: o_inv_def o_state_def hash_blocks_def w)
  ultimately have "ref_state E out (wo_restart_interval opts) hsz (wo_block_size opts) hdr [] w"
    unfolding ref_state_def no_index_def using inv by (intro exI [of _ "[]"]) (simp add: w)
  then show ?thesis by (simp add: w w_env_def)
qed


section \<open>The end of the references\<close>

text \<open>The chunks of the references, their index and the object index, as the statistics describe them.\<close>

definition ref_part :: "reftable_env \<Rightarrow> nat \<Rightarrow> nat \<Rightarrow> bytes \<Rightarrow> reftable_record list \<Rightarrow> chunk list \<Rightarrow> 's reftable_writer \<Rightarrow> bool" where
  "ref_part E iv hsz hdr rs dn w \<longleftrightarrow> (\<exists>l ups ob ks. dn = l @ ups @ ob \<and> (\<forall>c \<in> set l. ck_typ c = BLOCK_TYPE_REF)
     \<and> concat (map ck_recs l) = rs \<and> (\<forall>c \<in> set ups. ck_typ c = BLOCK_TYPE_INDEX)
     \<and> (if ups = [] then index_off w BLOCK_TYPE_REF = 0 else l \<noteq> [] \<and> sect_index E iv hdr [] l ups (index_off w BLOCK_TYPE_REF))
     \<and> (ob = [] \<and> st_object_id_len (wr_stats w) = 0 \<and> index_off w BLOCK_TYPE_OBJ = 0
        \<or> sorted_wrt (<) ks \<and> set ks = \<Union> (rec_hashes ` set rs)
          \<and> obj_part E iv hdr (l @ ups) ob (\<lambda>h. offs_for h (hash_blocks (offs_of E iv hdr [] l))) ks
              (st_object_id_len (wr_stats w)) (index_off w BLOCK_TYPE_OBJ)))"

lemma obj_part_cong:
  assumes "obj_part E iv hdr dn ob f ks n ioff" "\<And>h. h \<in> set ks \<Longrightarrow> f h = g h"
  shows "obj_part E iv hdr dn ob g ks n ioff"
proof -
  have "obj_entry n f h rec \<longleftrightarrow> obj_entry n g h rec" if "h \<in> set ks" for h rec
    using assms(2) [OF that] by (simp add: obj_entry_def)
  then have "list_all2 (obj_entry n f) ks rs \<longleftrightarrow> list_all2 (obj_entry n g) ks rs" for rs
    by (intro list.rel_cong) auto
  then show ?thesis using assms(1) by (simp add: obj_part_def)
qed

lemma hash_blocks_closed:
  assumes "w_inv E out iv hsz tbs hdr [] lvl cur ty w"
  shows "offs_for h (hash_blocks (offs_of E iv hdr [] (closed_level lvl cur ty (wr_pending_padding w)))) =
      offs_for h (hash_blocks (offs_of E iv hdr [] lvl @ [(wr_next w, cur)]))"
    and "\<Union> (snd ` set (hash_blocks (offs_of E iv hdr [] lvl @ [(wr_next w, cur)]))) = \<Union> (rec_hashes ` set (concat (map ck_recs lvl) @ cur))"
proof -
  have off: "chunk_off E iv hdr lvl \<lparr>ck_pad = wr_pending_padding w, ck_typ = ty, ck_recs = cur\<rparr> = wr_next w"
    using assms by (simp add: chunk_off_def w_inv_def)
  then show "offs_for h (hash_blocks (offs_of E iv hdr [] (closed_level lvl cur ty (wr_pending_padding w)))) =
      offs_for h (hash_blocks (offs_of E iv hdr [] lvl @ [(wr_next w, cur)]))"
    by (simp add: closed_level_def offs_of_append hash_blocks_def offs_for_def)
  have "\<Union> (snd ` set (hash_blocks bl)) = \<Union> (rec_hashes ` set (level_records bl))" for bl
    by (induction bl) (auto simp: hash_blocks_def level_records_def)
  from this [of "offs_of E iv hdr [] lvl @ [(wr_next w, cur)]"]
  show "\<Union> (snd ` set (hash_blocks (offs_of E iv hdr [] lvl @ [(wr_next w, cur)]))) = \<Union> (rec_hashes ` set (concat (map ck_recs lvl) @ cur))"
    using level_records_offs_of [of E iv hdr "[]" lvl] unfolding level_records_def map_append concat_append by (simp only: list.map concat.simps snd_conv append_Nil2)
qed

text \<open>The state between the sections.\<close>

definition refs_done ::
  "reftable_env \<Rightarrow> ('s \<Rightarrow> bytes) \<Rightarrow> nat \<Rightarrow> nat \<Rightarrow> nat \<Rightarrow> bytes \<Rightarrow> reftable_record list \<Rightarrow> chunk list \<Rightarrow> 's reftable_writer \<Rightarrow> bool" where
  "refs_done E out iv hsz tbs hdr rs dn w \<longleftrightarrow> (\<forall>t. reftable_is_block_type t \<longrightarrow> w_inv E out iv hsz tbs hdr dn [] [] t w)
     \<and> wr_block_writer w = None \<and> wr_obj_index_tree w = Leaf \<and> index_off w BLOCK_TYPE_LOG = 0 \<and> ref_part E iv hsz hdr rs dn w"

lemma laid_out_count:
  assumes "laid_out E iv hsz tbs hdr cs"
  shows "length cs \<le> length (concat (map ck_recs cs))"
  using assms
proof (induction rule: laid_out.induct)
  case (laid_out_snoc cs c)
  then have "Suc 0 \<le> length (ck_recs c)" by (cases "ck_recs c") (simp_all add: chunk_ok_def)
  from add_mono [OF laid_out_snoc.IH this] show ?case by simp
qed simp

lemma ref_hash_length:
  assumes "block_records E hsz ty recs" "h \<in> \<Union> (rec_hashes ` set recs)"
  shows "length h = hsz"
proof -
  from assms(2) obtain rec where rec: "rec \<in> set recs" "h \<in> rec_hashes rec" by blast
  then have "record_ok E hsz rec" using assms(1) by (simp add: block_records_def)
  with rec(2) show ?thesis by (cases rec) (auto simp: ref_ok_def split: ref_value.splits)
qed

lemma w_inv_records:
  assumes "w_inv E out iv hsz tbs hdr dn lvl cur ty w"
  shows "block_records E hsz ty (concat (map ck_recs lvl) @ cur)"
proof -
  have "block_records E hsz ty cur" using assms by (auto simp: w_inv_def w_block_def bw_inv_def block_records_def split: option.splits)
  moreover have "block_records E hsz ty (ck_recs c)" if "c \<in> set lvl" for c
  proof -
    from that obtain a b where l: "lvl = a @ c # b" by (meson split_list)
    have "laid_out E iv hsz tbs hdr ((dn @ a) @ c # b)" "ck_typ c = ty" using assms that by (simp_all add: w_inv_def l)
    with laid_out_split show ?thesis by (fastforce simp: chunk_ok_def)
  qed
  ultimately show ?thesis by (auto simp: block_records_def)
qed

end
