(* ===== verification/Reft_Writer_Logs.thy ===== *)
theory Reft_Writer_Logs
  imports Reft_Writer_Refs
begin

text \<open>
  The rest of a table: finishing the references, adding log entries behind them, the order in which
  \<open>reftable_writer_add_refs\<close> and \<open>reftable_writer_add_logs\<close> add what they are given, and what has
  been written when the last section is finished.
\<close>

section \<open>Finishing the references\<close>

lemma finish_refs:
  assumes st: "ref_state E out iv hsz tbs hdr refs w" and S: "appends S out" and E: "alloc_ok E" and hsz: "2 \<le> hsz" "hsz < 2 ^ 61"
    and n: "length refs < 2 ^ 64" and fin: "writer_finish_public_section E S w = Some (Ok w')"
  shows "\<exists>dn. refs_done E out iv hsz tbs hdr (map (stored_ref (wr_min_update_index w)) refs) dn w' \<and> fst (w_env w') = fst (w_env w)"
proof -
  let ?rs = "map (stored_ref (wr_min_update_index w)) refs" and ?ks = "infix_keys (wr_obj_index_tree w)"
  from st obtain lvl cur where w: "w_inv E out iv hsz tbs hdr [] lvl cur BLOCK_TYPE_REF w" "wr_block_writer w \<noteq> None"
    "concat (map ck_recs lvl) @ cur = ?rs" "o_inv w (hash_blocks (offs_of E iv hdr [] lvl @ [(wr_next w, cur)]))" "no_index w"
    unfolding ref_state_def by blast
  let ?l = "closed_level lvl cur BLOCK_TYPE_REF (wr_pending_padding w)"
  let ?offs = "\<lambda>h. offs_for h (hash_blocks (offs_of E iv hdr [] ?l))" and ?skip = "wo_skip_index_objects (wr_opts w)"
  note hb = hash_blocks_closed [OF w(1), unfolded w(3)]
  have few: "length (?offs h) < 2 ^ 64" for h
  proof -
    have "laid_out E iv hsz tbs hdr lvl" using w(1) by (simp add: w_inv_def)
    note c = laid_out_count [OF this]
    have "length (?offs h) \<le> length ?l"
      unfolding offs_for_def hash_blocks_def length_map by (rule order_trans [OF length_filter_le]) simp
    also have "length ?l \<le> length (concat (map ck_recs lvl) @ cur)" using c by (cases cur) (simp_all add: closed_level_def del: length_concat)
    also have "\<dots> < 2 ^ 64" using n unfolding w(3) by simp
    finally show ?thesis .
  qed
  have o: "sorted_wrt (<) ?ks" "?skip \<or> set ?ks = \<Union> (rec_hashes ` set ?rs)" "?skip \<longrightarrow> ?ks = []"
    "\<And>h. h \<in> set ?ks \<Longrightarrow> wr_obj_offsets w h = ?offs h"
    using w(4) unfolding o_inv_def o_state_def hb by (auto split: if_splits)
  have ks: "\<forall>k \<in> set ?ks. length k = hsz \<and> length (wr_obj_offsets w k) < 2 ^ 64"
    using o ref_hash_length [OF w_inv_records [OF w(1), unfolded w(3)]] few by auto
  have ne: "BLOCK_TYPE_REF \<noteq> BLOCK_TYPE_OBJ" "BLOCK_TYPE_LOG \<noteq> BLOCK_TYPE_REF" "BLOCK_TYPE_LOG \<noteq> BLOCK_TYPE_OBJ" by (simp_all add: block_type_defs)
  from writer_finish_public_section_inv [OF w(1,2) S E o(1) ks hsz refl fin, simplified ne simp_thms append_Nil] ne obtain ups ob where
    u: "\<And>t. reftable_is_block_type t \<Longrightarrow> w_inv E out iv hsz tbs hdr (?l @ ups @ ob) [] [] t w'" "wr_block_writer w' = None"
    "fst (w_env w') = fst (w_env w)" "wr_obj_index_tree w' = Leaf"
    "index_off w' BLOCK_TYPE_LOG = index_off w BLOCK_TYPE_LOG"
    "if ups = [] then index_off w' BLOCK_TYPE_REF = 0 else ?l \<noteq> [] \<and> sect_index E iv hdr [] ?l ups (index_off w' BLOCK_TYPE_REF)"
    "\<forall>c \<in> set ups. ck_typ c = BLOCK_TYPE_INDEX"
    "ob = [] \<and> st_object_id_len (wr_stats w') = st_object_id_len (wr_stats w) \<and> index_off w' BLOCK_TYPE_OBJ = index_off w BLOCK_TYPE_OBJ
     \<or> obj_part E iv hdr (?l @ ups) ob (wr_obj_offsets w) ?ks (st_object_id_len (wr_stats w')) (index_off w' BLOCK_TYPE_OBJ) \<and> \<not> ?skip"
    by blast
  have "\<forall>c \<in> set ?l. ck_typ c = BLOCK_TYPE_REF" using w(1) by (intro closed_level_types) (simp add: w_inv_def)
  moreover have "ob = [] \<and> st_object_id_len (wr_stats w') = 0 \<and> index_off w' BLOCK_TYPE_OBJ = 0
     \<or> sorted_wrt (<) ?ks \<and> set ?ks = \<Union> (rec_hashes ` set ?rs)
        \<and> obj_part E iv hdr (?l @ ups) ob ?offs ?ks (st_object_id_len (wr_stats w')) (index_off w' BLOCK_TYPE_OBJ)"
    using u(8)
  proof (elim disjE conjE)
    assume "obj_part E iv hdr (?l @ ups) ob (wr_obj_offsets w) ?ks (st_object_id_len (wr_stats w')) (index_off w' BLOCK_TYPE_OBJ)" "\<not> ?skip"
    from obj_part_cong [where g = ?offs, OF this(1) o(4)] this(2) o(1,2) show ?thesis by blast
  qed (use w(5) in \<open>simp add: no_index_def\<close>)
  ultimately have "ref_part E iv hsz hdr ?rs (?l @ ups @ ob) w'"
    unfolding ref_part_def using u(6,7) w(3)
    by (intro exI [of _ ?l] exI [of _ ups] exI [of _ ob] exI [of _ ?ks] conjI) simp_all
  moreover have "index_off w' BLOCK_TYPE_LOG = 0" using u(5) w(5) by (simp add: no_index_def)
  ultimately show ?thesis using u(1-4) unfolding refs_done_def by blast
qed

section \<open>Adding log entries\<close>

lemma w_inv_no_padding:
  assumes "w_inv E out iv hsz tbs hdr dn lvl cur ty w" and w': "w' = w\<lparr>wr_next := wr_next w - wr_pending_padding w, wr_pending_padding := 0\<rparr>"
  shows "w_inv E out iv hsz tbs hdr dn lvl cur ty w'" "w_frame w' = w_frame w"
proof -
  show fr: "w_frame w' = w_frame w" by (simp add: w' w_frame_def)
  have "stats_ok E iv hdr (dn @ lvl) w'" "w_block E iv hsz tbs (pre_of hdr (dn @ lvl)) ty cur w'"
    using assms(1) by (simp_all add: w_inv_def stats_ok_def w_block_def w' writer_reftable_block_stats_def split: option.splits)
  then show "w_inv E out iv hsz tbs hdr dn lvl cur ty w'"
    using assms(1) w_conf_frame [OF _ fr] by (simp add: w_inv_def w' pad_ok_def)
qed

lemma ref_part_same:
  assumes "ref_part E iv hsz hdr rs dn w" "st_object_id_len (wr_stats w') = st_object_id_len (wr_stats w)"
    "index_off w' BLOCK_TYPE_REF = index_off w BLOCK_TYPE_REF" "index_off w' BLOCK_TYPE_OBJ = index_off w BLOCK_TYPE_OBJ"
  shows "ref_part E iv hsz hdr rs dn w'"
  using assms(1) unfolding ref_part_def assms(2-4) .

lemma ref_part_frame: "ref_part E iv hsz hdr rs dn w \<Longrightarrow> w_frame w' = w_frame w \<Longrightarrow> ref_part E iv hsz hdr rs dn w'"
  by (erule ref_part_same) (simp_all add: w_frame_env w_frame_def [of w] w_frame_def [of w'])

definition log_state ::
  "reftable_env \<Rightarrow> ('s \<Rightarrow> bytes) \<Rightarrow> nat \<Rightarrow> nat \<Rightarrow> nat \<Rightarrow> bytes \<Rightarrow> reftable_record list \<Rightarrow> log_record list \<Rightarrow> 's reftable_writer \<Rightarrow> bool" where
  "log_state E out iv hsz tbs hdr rs logs w \<longleftrightarrow>
     (\<exists>dn lvl cur. w_inv E out iv hsz tbs hdr dn lvl cur BLOCK_TYPE_LOG w \<and> wr_block_writer w \<noteq> None
       \<and> wr_obj_index_tree w = Leaf \<and> concat (map ck_recs lvl) @ cur = map Rec_Log logs
       \<and> index_off w BLOCK_TYPE_LOG = 0 \<and> ref_part E iv hsz hdr rs dn w)"

lemma add_log_record_state:
  assumes inv: "w_inv E out iv hsz tbs hdr dn lvl cur BLOCK_TYPE_LOG w" and l: "wr_obj_index_tree w = Leaf"
      "concat (map ck_recs lvl) @ cur = map Rec_Log logs" "index_off w BLOCK_TYPE_LOG = 0" "ref_part E iv hsz hdr rs dn w"
    and S: "appends S out" and ok: "log_ok E hsz log"
    and add: "writer_add_record E S (w\<lparr>wr_next := wr_next w - wr_pending_padding w, wr_pending_padding := 0\<rparr>) (Rec_Log log) = Ok w'"
  shows "log_state E out iv hsz tbs hdr rs (logs @ [log]) w' \<and> fst (w_env w') = fst (w_env w)"
proof -
  let ?w = "w\<lparr>wr_next := wr_next w - wr_pending_padding w, wr_pending_padding := 0\<rparr>"
  note np = w_inv_no_padding [OF inv refl]
  have "reftable_record_type (Rec_Log log) = BLOCK_TYPE_LOG" "record_ok E hsz (Rec_Log log)" using ok by simp_all
  from writer_add_record_inv [OF np(1) S this writer_add_record_key [OF add] add] obtain lvl' cur' where
    l': "w_inv E out iv hsz tbs hdr dn lvl' cur' BLOCK_TYPE_LOG w'" "grown ?w lvl cur BLOCK_TYPE_LOG (Rec_Log log) w' lvl' cur'"
    "w_frame w' = w_frame ?w" "wr_block_writer w' \<noteq> None" by blast
  have fr: "w_frame w' = w_frame w" using l'(3) np(2) by simp
  have "wr_obj_index_tree w' = Leaf" "fst (w_env w') = fst (w_env w)" using fr l(1) by (simp_all add: w_frame_def w_env_def)
  then show ?thesis unfolding log_state_def
    using l'(1,4) grown_records [OF l'(2)] l(2-4) w_frame_env(2) [OF fr] ref_part_frame [OF l(4) fr]
    by (intro conjI exI [of _ dn] exI [of _ lvl'] exI [of _ cur']) simp_all
qed

text \<open>The state of the writer while references or log entries are added.\<close>

definition tab_state ::
  "reftable_env \<Rightarrow> ('s \<Rightarrow> bytes) \<Rightarrow> nat \<Rightarrow> nat \<Rightarrow> nat \<Rightarrow> bytes \<Rightarrow> ref_record list \<Rightarrow> log_record list \<Rightarrow> 's reftable_writer \<Rightarrow> bool" where
  "tab_state E out iv hsz tbs hdr refs logs w \<longleftrightarrow>
     (if logs = [] then ref_state E out iv hsz tbs hdr refs w
      else log_state E out iv hsz tbs hdr (map (stored_ref (wr_min_update_index w)) refs) logs w)"

lemma add_log_verbatim_state:
  assumes st: "tab_state E out iv hsz tbs hdr refs logs w" and S: "appends S out" and E: "alloc_ok E" and hsz: "2 \<le> hsz" "hsz < 2 ^ 61"
    and n: "length refs < 2 ^ 64" and ok: "log_ok E hsz log" and add: "reftable_writer_add_log_verbatim E S w log = Some (Ok w')"
  shows "tab_state E out iv hsz tbs hdr refs (logs @ [log]) w' \<and> fst (w_env w') = fst (w_env w)"
proof (cases "logs = []")
  case True
  with st have rs: "ref_state E out iv hsz tbs hdr refs w" by (simp add: tab_state_def)
  then obtain bw cur where bw: "wr_block_writer w = Some bw" "bw_inv E iv BLOCK_TYPE_REF cur bw"
    by (auto simp: ref_state_def w_inv_def w_block_def)
  from add bw block_writer_type_inv [OF bw(2)] obtain w1 where w1: "writer_finish_public_section E S w = Some (Ok w1)"
    and w': "writer_add_record E S (w1\<lparr>wr_next := wr_next w1 - wr_pending_padding w1, wr_pending_padding := 0\<rparr>) (Rec_Log log) = Ok w'"
    by (auto simp: reftable_writer_add_log_verbatim_def run_bind_eq_Ok Let_def)
  from finish_refs [OF rs S E hsz n w1] obtain dn where
    d: "refs_done E out iv hsz tbs hdr (map (stored_ref (wr_min_update_index w)) refs) dn w1" "fst (w_env w1) = fst (w_env w)" by blast
  then have "w_inv E out iv hsz tbs hdr dn [] [] BLOCK_TYPE_LOG w1" by (simp add: refs_done_def reftable_is_block_type_def)
  from add_log_record_state [OF this _ _ _ _ S ok w', of "[]"] d True show ?thesis
    by (auto simp: tab_state_def refs_done_def w_env_def)
next
  case False
  with st obtain dn lvl cur where l: "w_inv E out iv hsz tbs hdr dn lvl cur BLOCK_TYPE_LOG w" "wr_block_writer w \<noteq> None" "wr_obj_index_tree w = Leaf"
    "concat (map ck_recs lvl) @ cur = map Rec_Log logs" "index_off w BLOCK_TYPE_LOG = 0"
    "ref_part E iv hsz hdr (map (stored_ref (wr_min_update_index w)) refs) dn w" by (auto simp: tab_state_def log_state_def)
  then obtain bw where bw: "wr_block_writer w = Some bw" "bw_inv E iv BLOCK_TYPE_LOG cur bw" by (auto simp: w_inv_def w_block_def)
  have "writer_add_record E S (w\<lparr>wr_next := wr_next w - wr_pending_padding w, wr_pending_padding := 0\<rparr>) (Rec_Log log) = Ok w'"
    using add bw(1) block_writer_type_inv [OF bw(2)] by (simp add: reftable_writer_add_log_verbatim_def block_type_defs Let_def)
  from add_log_record_state [OF l(1,3-6) S ok this] show ?thesis by (simp add: tab_state_def w_env_def)
qed


text \<open>What is stored of a log entry: its message is cleaned, unless the options say otherwise.\<close>

definition stored_log :: "reftable_write_options \<Rightarrow> log_record \<Rightarrow> log_record" where
  "stored_log opts log =
     (case log_value_message (log_value log) of
        Some msg \<Rightarrow>
          if wo_exact_log_message opts then log
          else log\<lparr>log_value := with_log_message (log_value log) (Some (rev (dropWhile (\<lambda>b. b = 10) (rev (c_str msg))) @ [10]))\<rparr>
      | None \<Rightarrow> log)"

lemma add_log_stored:
  assumes "reftable_writer_add_log E S w log = Some (Ok w')"
  shows "reftable_writer_add_log_verbatim E S w (stored_log (wr_opts w) log) = Some (Ok w')"
  using assms
  by (auto simp: reftable_writer_add_log_def stored_log_def run_bind_eq_Ok clean_log_message_def Let_def
      split: if_splits option.splits)

lemma add_log_list_state:
  assumes "tab_state E out iv hsz tbs hdr refs logs w" and S: "appends S out" and E: "alloc_ok E" and hsz: "2 \<le> hsz" "hsz < 2 ^ 61"
    and n: "length refs < 2 ^ 64" and "\<forall>log \<in> set ls. log_ok E hsz (stored_log (wr_opts w) log)"
    and "writer_add_log_list E S w ls = Some (Ok w')"
  shows "tab_state E out iv hsz tbs hdr refs (logs @ map (stored_log (wr_opts w)) ls) w' \<and> fst (w_env w') = fst (w_env w)"
  using assms(1,7,8)
proof (induction ls arbitrary: logs w)
  case (Cons l ls)
  from Cons.prems(3) obtain w1 where w1: "reftable_writer_add_log E S w l = Some (Ok w1)" "writer_add_log_list E S w1 ls = Some (Ok w')"
    by (auto simp: run_bind_eq_Ok)
  from add_log_verbatim_state [OF Cons.prems(1) S E hsz n _ add_log_stored [OF w1(1)]] Cons.prems(2) have
    i: "tab_state E out iv hsz tbs hdr refs (logs @ [stored_log (wr_opts w) l]) w1" "fst (w_env w1) = fst (w_env w)" by simp_all
  have "wr_opts w1 = wr_opts w" using i(2) by (simp add: w_env_def)
  with Cons.IH [OF i(1) _ w1(2)] Cons.prems(2) i(2) show ?case by simp
qed simp

section \<open>Sorting\<close>

text \<open>Comparisons that agree with the order of the keys make \<open>qsort_by\<close> sort by the keys.\<close>

locale key_order =
  fixes cmp :: "'a \<Rightarrow> 'a \<Rightarrow> int res" and ok :: "'a \<Rightarrow> bool" and key :: "'a \<Rightarrow> bytes"
  assumes cmp_sign: "ok a \<Longrightarrow> ok b \<Longrightarrow> cmp a b = Ok (order_sign (key a) (key b))"
begin

lemma insert_sorts: "ok x \<Longrightarrow> \<forall>y \<in> set ys. ok y \<Longrightarrow> insert_by cmp x ys = Ok (insort_key key x ys)"
  by (induction ys) (auto simp: cmp_sign order_sign_def)

lemma qsort_sorts: "\<forall>x \<in> set xs. ok x \<Longrightarrow> qsort_by cmp xs = Ok (sort_key key xs)"
proof (induction xs)
  case (Cons x xs)
  then have "insert_by cmp x (sort_key key xs) = Ok (insort_key key x (sort_key key xs))" by (intro insert_sorts) simp_all
  then show ?case using Cons by simp
qed simp

lemma sorted_strictly: "distinct (map key xs) \<Longrightarrow> sorted_wrt (<) (map key (sort_key key xs))"
  using sorted_sort_key [of key xs]
  by (simp add: strict_sorted_iff distinct_map)

end

definition ref_key :: "ref_record \<Rightarrow> bytes" where
  "ref_key r = (case ref_name r of Some n \<Rightarrow> c_str n | None \<Rightarrow> [])"

definition log_key :: "reftable_env \<Rightarrow> log_record \<Rightarrow> bytes" where
  "log_key E l = key_of E (Rec_Log l)"

interpretation ref_order: key_order reftable_ref_record_compare_name "\<lambda>r. ref_name r \<noteq> None" ref_key
  by unfold_locales (auto simp: reftable_ref_record_compare_name_def ref_key_def strcmp_sign)

interpretation log_order: key_order reftable_log_record_compare_key "\<lambda>l. be64_ok E \<and> log_name l \<noteq> None" "log_key E" for E
proof unfold_locales
  fix a b :: log_record assume a: "be64_ok E \<and> log_name a \<noteq> None" "be64_ok E \<and> log_name b \<noteq> None"
  then obtain ka kb where k: "reftable_log_record_key E a = Ok ka" "reftable_log_record_key E b = Ok kb"
    by (auto simp: reftable_log_record_key_def c_deref_def Let_def)
  with log_key_sign [OF _ k] a show "reftable_log_record_compare_key a b = Ok (order_sign (log_key E a) (log_key E b))"
    by (simp add: log_key_def key_of_def)
qed


section \<open>The end of the table\<close>

definition tab_done ::
  "reftable_env \<Rightarrow> ('s \<Rightarrow> bytes) \<Rightarrow> nat \<Rightarrow> nat \<Rightarrow> nat \<Rightarrow> bytes \<Rightarrow> reftable_record list \<Rightarrow> reftable_record list \<Rightarrow> chunk list
   \<Rightarrow> 's reftable_writer \<Rightarrow> bool" where
  "tab_done E out iv hsz tbs hdr rs ls cs w \<longleftrightarrow> w_inv E out iv hsz tbs hdr cs [] [] BLOCK_TYPE_LOG w
     \<and> (\<exists>dn l ups. cs = dn @ l @ ups \<and> ref_part E iv hsz hdr rs dn w \<and> (\<forall>c \<in> set l. ck_typ c = BLOCK_TYPE_LOG)
       \<and> concat (map ck_recs l) = ls \<and> (\<forall>c \<in> set ups. ck_typ c = BLOCK_TYPE_INDEX)
       \<and> (if ups = [] then index_off w BLOCK_TYPE_LOG = 0 else l \<noteq> [] \<and> sect_index E iv hdr dn l ups (index_off w BLOCK_TYPE_LOG)))"

lemma finish_logs:
  assumes st: "log_state E out iv hsz tbs hdr rs logs w" and S: "appends S out" and E: "alloc_ok E" and hsz: "2 \<le> hsz" "hsz < 2 ^ 61"
    and fin: "writer_finish_public_section E S w = Some (Ok w')"
  shows "\<exists>cs. tab_done E out iv hsz tbs hdr rs (map Rec_Log logs) cs w' \<and> fst (w_env w') = fst (w_env w)"
proof -
  from st obtain dn lvl cur where w: "w_inv E out iv hsz tbs hdr dn lvl cur BLOCK_TYPE_LOG w" "wr_block_writer w \<noteq> None"
    "wr_obj_index_tree w = Leaf" "concat (map ck_recs lvl) @ cur = map Rec_Log logs" "index_off w BLOCK_TYPE_LOG = 0" "ref_part E iv hsz hdr rs dn w"
    unfolding log_state_def by blast
  let ?l = "closed_level lvl cur BLOCK_TYPE_LOG (wr_pending_padding w)"
  have ne: "BLOCK_TYPE_LOG \<noteq> BLOCK_TYPE_OBJ" "BLOCK_TYPE_LOG \<noteq> BLOCK_TYPE_REF" "BLOCK_TYPE_REF \<noteq> BLOCK_TYPE_LOG" "BLOCK_TYPE_REF \<noteq> BLOCK_TYPE_OBJ"
    and log: "reftable_is_block_type BLOCK_TYPE_LOG" by (simp_all add: block_type_defs reftable_is_block_type_def)
  from writer_finish_public_section_inv [OF w(1,2) S E _ _ hsz _ fin, of "[]", unfolded w(3), simplified ne simp_thms infix_keys.simps sorted_wrt.simps list.set ball_empty]
    ne log obtain ups where
    u: "w_inv E out iv hsz tbs hdr (dn @ ?l @ ups) [] [] BLOCK_TYPE_LOG w'"
    "fst (w_env w') = fst (w_env w)" "index_off w' BLOCK_TYPE_REF = index_off w BLOCK_TYPE_REF"
    "if ups = [] then index_off w' BLOCK_TYPE_LOG = 0 else ?l \<noteq> [] \<and> sect_index E iv hdr dn ?l ups (index_off w' BLOCK_TYPE_LOG)"
    "\<forall>c \<in> set ups. ck_typ c = BLOCK_TYPE_INDEX"
    "st_object_id_len (wr_stats w') = st_object_id_len (wr_stats w)" "index_off w' BLOCK_TYPE_OBJ = index_off w BLOCK_TYPE_OBJ"
    by auto
  have "\<forall>c \<in> set ?l. ck_typ c = BLOCK_TYPE_LOG" using w(1) by (intro closed_level_types) (simp add: w_inv_def)
  then have "tab_done E out iv hsz tbs hdr rs (map Rec_Log logs) (dn @ ?l @ ups) w'"
    unfolding tab_done_def using u(1,4,5) w(4) ref_part_same [OF w(6) u(6,3,7)]
    by (intro conjI exI [of _ dn] exI [of _ ?l] exI [of _ ups]) simp_all
  then show ?thesis using u(2) by blast
qed

lemma finish_table:
  assumes st: "tab_state E out iv hsz tbs hdr refs logs w" and S: "appends S out" and E: "alloc_ok E" and hsz: "2 \<le> hsz" "hsz < 2 ^ 61"
    and n: "length refs < 2 ^ 64" and fin: "writer_finish_public_section E S w = Some (Ok w')"
  shows "\<exists>cs. tab_done E out iv hsz tbs hdr (map (stored_ref (wr_min_update_index w)) refs) (map Rec_Log logs) cs w' \<and> fst (w_env w') = fst (w_env w)"
proof (cases "logs = []")
  case False
  with st finish_logs [OF _ S E hsz fin] show ?thesis by (simp add: tab_state_def)
next
  case True
  with st have "ref_state E out iv hsz tbs hdr refs w" by (simp add: tab_state_def)
  from finish_refs [OF this S E hsz n fin] obtain dn where
    d: "refs_done E out iv hsz tbs hdr (map (stored_ref (wr_min_update_index w)) refs) dn w'" "fst (w_env w') = fst (w_env w)" by blast
  then show ?thesis using True unfolding tab_done_def refs_done_def
    by (intro exI [of _ dn] conjI exI [of _ "[]"]) (simp_all add: reftable_is_block_type_def)
qed

end
