(* ===== verification/Reft_Footer.thy ===== *)
theory Reft_Footer
  imports Reft_Writer_Logs
begin

unbundle bit_operations_syntax

text \<open>
  The end of a file: the footer that the writer appends is what the reader finds, and the parts of
  the file are where the footer says.
\<close>

section \<open>The footer\<close>

text \<open>The length of the object prefixes shares a word with the offset of the object section.\<close>

lemma bit_small:
  assumes "bit (word_of_nat n :: u64) i" "n < 2 ^ k"
  shows "i < k"
proof (rule ccontr)
  assume "\<not> i < k"
  with assms(2) have "n < 2 ^ i" by (meson linorder_not_less order_less_le_trans power_increasing one_le_numeral)
  moreover have "bit n i" using assms(1) by (simp add: bit_of_nat_iff)
  ultimately show False by (simp add: bit_iff_odd)
qed

lemma obj_word:
  assumes "a < 2 ^ 59" "b < 2 ^ 5"
  shows "drop_bit 5 (push_bit 5 (word_of_nat a) OR word_of_nat b :: u64) = word_of_nat a"
    and "(push_bit 5 (word_of_nat a) OR word_of_nat b :: u64) AND 0x1f = word_of_nat b"
proof -
  have m: "(0x1f :: u64) = mask 5" by (simp add: mask_eq_exp_minus_1)
  note s = bit_small [OF _ assms(1)] bit_small [OF _ assms(2)]
  show "drop_bit 5 (push_bit 5 (word_of_nat a) OR word_of_nat b :: u64) = word_of_nat a"
  proof (rule bit_word_eqI)
    fix n
    show "bit (drop_bit 5 (push_bit 5 (word_of_nat a) OR word_of_nat b :: u64)) n = bit (word_of_nat a :: u64) n"
      using s(1) [of n] s(2) [of "5 + n"] by (auto simp: bit_drop_bit_eq bit_or_iff bit_push_bit_iff)
  qed
  show "(push_bit 5 (word_of_nat a) OR word_of_nat b :: u64) AND 0x1f = word_of_nat b"
    unfolding m
  proof (rule bit_word_eqI)
    fix n
    show "bit ((push_bit 5 (word_of_nat a) OR word_of_nat b :: u64) AND mask 5) n = bit (word_of_nat b :: u64) n"
      using s(2) [of n] by (auto simp: bit_and_iff bit_or_iff bit_push_bit_iff bit_mask_iff)
  qed
qed

definition format_ids_ok :: "reftable_env \<Rightarrow> bool" where
  "format_ids_ok E \<longleftrightarrow> FORMAT_ID_SHA1 E \<noteq> FORMAT_ID_SHA256 E"

text \<open>What is in the header of a table.\<close>

definition header_has :: "reftable_env \<Rightarrow> bytes \<Rightarrow> nat \<Rightarrow> nat \<Rightarrow> u64 \<Rightarrow> u64 \<Rightarrow> reftable_hash \<Rightarrow> bool" where
  "header_has E hdr version tbs mn mx hid \<longleftrightarrow> (version = 1 \<or> version = 2) \<and> length hdr = (if version = 1 then 24 else 28)
     \<and> (\<forall>rest. take 4 (hdr @ rest) = REFT \<and> (hdr @ rest) ! 4 = word_of_nat version
          \<and> get_be24 (drop 5 (hdr @ rest)) = Ok (word_of_nat tbs) \<and> get_be64 E (drop 8 (hdr @ rest)) = mn
          \<and> get_be64 E (drop 16 (hdr @ rest)) = mx
          \<and> (if version = 1 then hid = HASH_NONE \<or> hid = HASH_SHA1
             else hid = HASH_SHA256 \<and> get_be32 E (drop 24 (hdr @ rest)) = FORMAT_ID_SHA256 E))"

lemma header_has_append:
  assumes "length a = 3" "length b = 8" "length c = 8"
    and hdr: "hdr = REFT_MAGIC @ v # a @ b @ c @ h"
  shows "drop 5 (hdr @ rest) = a @ b @ c @ h @ rest" "drop 8 (hdr @ rest) = b @ c @ h @ rest"
    "drop 16 (hdr @ rest) = c @ h @ rest" "drop 24 (hdr @ rest) = h @ rest" "take 4 (hdr @ rest) = REFT" "(hdr @ rest) ! 4 = v"
    "length hdr = 24 + length h"
  using assms(1-3) by (simp_all add: hdr REFT_MAGIC_def REFT_def)

lemma writer_header_has:
  assumes hdr: "writer_write_header E w = Ok hdr" and E: "be64_ok E" "be32_ok E" and tbs: "wo_block_size (wr_opts w) < 2 ^ 24"
  shows "header_has E hdr (writer_version w) (wo_block_size (wr_opts w)) (wr_min_update_index w) (wr_max_update_index w) (wo_hash_id (wr_opts w))"
proof -
  let ?a = "put_be24 (word_of_nat (wo_block_size (wr_opts w)))" and ?b = "put_be64 E (wr_min_update_index w)" and ?c = "put_be64 E (wr_max_update_index w)"
  define h where "h = (if writer_version w = 1 then [] else put_be32 E (FORMAT_ID_SHA256 E))"
  have h: "hdr = REFT_MAGIC @ word_of_nat (writer_version w) # ?a @ ?b @ ?c @ h"
    and v: "if writer_version w = 1 then wo_hash_id (wr_opts w) = HASH_NONE \<or> wo_hash_id (wr_opts w) = HASH_SHA1
      else writer_version w = 2 \<and> wo_hash_id (wr_opts w) = HASH_SHA256"
    using hdr unfolding writer_write_header_def writer_header_prefix_def h_def
    by (cases "wo_hash_id (wr_opts w)"; force simp: writer_version_def)+
  have len: "length ?a = 3" "length ?b = 8" "length ?c = 8" using E by (simp_all add: be64_simps)
  note d = header_has_append [OF len h]
  have g: "get_be24 (?a @ xs) = Ok (word_of_nat (wo_block_size (wr_opts w)))" "get_be64 E (?b @ xs) = wr_min_update_index w"
    "get_be64 E (?c @ xs) = wr_max_update_index w" "get_be32 E (put_be32 E x @ xs) = x" "length (put_be32 E x) = 4" for xs x
    using E tbs by (simp_all add: be64_simps be32_ok_def get_put_be24_nat)
  have "length hdr = (if writer_version w = 1 then 24 else 28)" unfolding d(7) h_def by (simp add: g)
  moreover have "get_be32 E (drop 24 (hdr @ rest)) = FORMAT_ID_SHA256 E" if "writer_version w \<noteq> 1" for rest
    using that unfolding d(4) h_def by (simp add: g)
  ultimately show ?thesis using v unfolding header_has_def d(1-3,5,6) g by (auto split: if_splits)
qed


lemma memcmp_take [simp]: "take n a = take n b \<Longrightarrow> memcmp a b n = 0"
  by (simp add: memcmp_def bytes_cmp_sign order_sign_def)

definition offsets_of :: "bool \<Rightarrow> nat \<Rightarrow> nat \<Rightarrow> reader_offsets" where
  "offsets_of p off ioff = \<lparr>ro_is_present = p, ro_offset = off, ro_index_offset = ioff\<rparr>"

lemma parse_footer_written:
  assumes has: "header_has E hdr v tbs mn mx hid" and E: "be64_ok E" "be32_ok E" "format_ids_ok E"
    and body: "body = hdr @ put_be64 E (word_of_nat rio) @ put_be64 E (push_bit 5 (word_of_nat ooff) OR word_of_nat n)
      @ put_be64 E (word_of_nat oio) @ put_be64 E (word_of_nat loff) @ put_be64 E (word_of_nat lio)"
    and header: "take (length hdr) header = hdr" "length hdr < length header" and v: "rd_version r = v"
    and sz: "tbs < 2 ^ 24" "rio < 2 ^ 64" "ooff < 2 ^ 59" "oio < 2 ^ 64" "loff < 2 ^ 64" "lio < 2 ^ 64" "n < 2 ^ 5" "0 < ooff \<longrightarrow> 0 < n"
  defines "t \<equiv> header ! length hdr"
  shows "parse_footer E r (body @ put_be32 E (crc32 E body)) header =
    Ok (r\<lparr>rd_block_size := tbs, rd_min_update_index := mn, rd_max_update_index := mx,
          rd_hash_id := (if v = 1 then HASH_SHA1 else HASH_SHA256), rd_object_id_len := n,
          rd_ref_offsets := offsets_of (t = BLOCK_TYPE_REF) 0 rio,
          rd_log_offsets := offsets_of (t = BLOCK_TYPE_LOG \<or> 0 < loff) loff lio,
          rd_obj_offsets := offsets_of (0 < ooff) ooff oio\<rparr>)"
proof -
  let ?F = "body @ put_be32 E (crc32 E body)" and ?h = "length hdr"
  let ?ow = "push_bit 5 (word_of_nat ooff) OR word_of_nat n :: u64"
  note g = be64_simps [OF E(1)]
  have len: "length hdr = (if v = 1 then 24 else 28)" and v12: "v = 1 \<or> v = 2" using has by (simp_all add: header_has_def)
  obtain rest where F: "?F = hdr @ rest" unfolding body append_assoc by blast
  have H: "take 4 ?F = take 4 REFT" "get_be24 (drop 5 ?F) = Ok (word_of_nat tbs)" "get_be64 E (drop 8 ?F) = mn" "get_be64 E (drop 16 ?F) = mx"
    "v \<noteq> 1 \<longrightarrow> get_be32 E (drop 24 ?F) = FORMAT_ID_SHA256 E"
    using has unfolding header_has_def F by (auto simp: REFT_def split: if_splits)
  have hs: "header_size v = Ok ?h" using v12 len by (auto simp: header_size_def)
  have same: "take ?h ?F = take ?h header" unfolding F header(1) by simp
  have f: "(if v = 1 then 24 else 28) = ?h" using len by simp
  have be32: "get_be32 E (put_be32 E x) = x" for x using E(2) unfolding be32_ok_def by (metis append_Nil2)
  have D: "get_be64 E (drop ?h ?F) = word_of_nat rio" "get_be64 E (drop (?h + 8) ?F) = ?ow" "get_be64 E (drop (?h + 16) ?F) = word_of_nat oio"
    "get_be64 E (drop (?h + 24) ?F) = word_of_nat loff" "get_be64 E (drop (?h + 32) ?F) = word_of_nat lio"
    "take (?h + 40) ?F = body" "get_be32 E (drop (?h + 40) ?F) = crc32 E body"
    using be32 by (simp_all add: body g)
  have un: "unat (word_of_nat m :: u64) = m" if "m < 2 ^ 64" for m
    using that by (simp add: unsigned_of_nat take_bit_nat_eq_self)
  have w: "unat (word_of_nat tbs :: u32) = tbs" "unat (word_of_nat n :: u64) = n" "unat (word_of_nat ooff :: u64) = ooff"
    "(0 :: u64) < word_of_nat ooff \<longleftrightarrow> 0 < ooff" "(0 :: u64) < word_of_nat loff \<longleftrightarrow> 0 < loff"
    using sz un [of n] un [of ooff] un [of loff] by (simp_all add: get_put_be24_nat word_less_nat_alt)
  show ?thesis
    unfolding parse_footer_def v hs f D H Let_def res_bind.simps memcmp_take [OF H(1)] memcmp_take [OF same] obj_word [OF sz(3,7)] w
    using v12 H(5) E(3) header(2) sz(8) un sz(2,4-6) by (auto simp: format_ids_ok_def t_def offsets_of_def)
qed


section \<open>Opening the file\<close>

text \<open>A source that holds the bytes of a file.\<close>

definition source_of :: "block_source \<Rightarrow> bytes \<Rightarrow> bool" where
  "source_of src F \<longleftrightarrow> bs_size src = length F
     \<and> (\<forall>off sz. 0 < sz \<longrightarrow> off + sz \<le> length F \<longrightarrow> bs_read_block src off sz = Ok (take sz (drop off F)))"

lemma source_of_file: "length F < 2 ^ 64 \<Longrightarrow> source_of (block_source_from_file F) F"
  by (auto simp: source_of_def block_source_from_file_def file_size_def file_read_block_def read_at_def)

lemma source_of_buf: "alloc_ok E \<Longrightarrow> length F < 2 ^ 64 \<Longrightarrow> source_of (block_source_from_buf E F) F"
  by (auto simp: source_of_def block_source_from_buf_def reftable_buf_size_def reftable_buf_read_block_def read_at_def alloc_ok_def)

text \<open>The reader of a file with blocks and a footer, as it is after the footer has been read.\<close>

lemma reader_new_written:
  assumes has: "header_has E hdr v tbs mn mx hid" and E: "be64_ok E" "be32_ok E" "format_ids_ok E"
    and body: "body = hdr @ put_be64 E (word_of_nat rio) @ put_be64 E (push_bit 5 (word_of_nat ooff) OR word_of_nat n)
      @ put_be64 E (word_of_nat oio) @ put_be64 E (word_of_nat loff) @ put_be64 E (word_of_nat lio)"
    and sz: "tbs < 2 ^ 24" "rio < 2 ^ 64" "ooff < 2 ^ 59" "oio < 2 ^ 64" "loff < 2 ^ 64" "lio < 2 ^ 64" "n < 2 ^ 5" "0 < ooff \<longrightarrow> 0 < n"
    and src: "source_of src (blocks @ body @ put_be32 E (crc32 E body))" and blocks: "blocks = hdr @ t # rest"
    and len: "length (blocks @ body @ put_be32 E (crc32 E body)) < 2 ^ 64"
  shows "reftable_reader_new E src name = Ok \<lparr>rd_source = src, rd_name = c_str name, rd_size = length blocks,
     rd_hash_id = (if v = 1 then HASH_SHA1 else HASH_SHA256), rd_block_size = tbs, rd_min_update_index = mn, rd_max_update_index = mx,
     rd_object_id_len = n, rd_version = v, rd_ref_offsets = offsets_of (t = BLOCK_TYPE_REF) 0 rio,
     rd_obj_offsets = offsets_of (0 < ooff) ooff oio, rd_log_offsets = offsets_of (t = BLOCK_TYPE_LOG \<or> 0 < loff) loff lio, rd_refcount = 1\<rparr>"
proof -
  let ?ft = "body @ put_be32 E (crc32 E body)" and ?h = "length hdr"
  let ?F = "blocks @ ?ft"
  have hl: "?h = (if v = 1 then 24 else 28)" and v12: "v = 1 \<or> v = 2" using has by (simp_all add: header_has_def)
  have fl: "length ?ft = ?h + 44" using E by (simp add: body be64_simps be32_ok_def)
  have fs: "footer_size v = Ok (length ?ft)" using v12 hl unfolding fl by (auto simp: footer_size_def)
  have hd: "take ?h (take 29 ?F) = hdr" "?h < length (take 29 ?F)" "take 29 ?F ! ?h = t" "length (take 29 ?F) = 29"
    using hl fl v12 by (auto simp: blocks nth_append)
  define header where "header = take 29 ?F"
  obtain r2 where F: "?F = hdr @ r2" unfolding blocks append_assoc by blast
  have h4: "take 4 header = take 4 REFT" "header ! 4 = word_of_nat v"
    using has unfolding header_has_def header_def F by (auto simp: REFT_def hl min_def split: if_splits)
  have vb: "unat (word_of_nat v :: byte) = v" using v12 by auto
  have size: "block_source_size src = length ?F" using src by (simp add: block_source_size_def source_of_def)
  have rd: "block_source_read_block src 0 29 = Ok header" "block_source_read_block src (length blocks) (length ?ft) = Ok ?ft"
    using src hd(4) fl unfolding source_of_def block_source_read_block_def header_def by auto
  have wrap: "nat ((int (length ?F) - int (length ?ft)) mod 2 ^ 64) = length blocks"
    "nat ((int (length ?F) - int (length ?ft)) mod 18446744073709551616) = length blocks" using len by simp_all
  have big: "\<not> 29 > length ?F" using hd(4) by auto
  define r0 where "r0 = \<lparr>rd_source = src, rd_name = c_str name, rd_size = length blocks, rd_hash_id = HASH_NONE, rd_block_size = 0,
         rd_min_update_index = 0, rd_max_update_index = 0, rd_object_id_len = 0, rd_version = v,
         rd_ref_offsets = empty_offsets, rd_obj_offsets = empty_offsets, rd_log_offsets = empty_offsets, rd_refcount = 1\<rparr>"
  have "reftable_reader_new E src name = parse_footer E r0 ?ft header"
    using rd big v12 hd(4) [folded header_def] unfolding reftable_reader_new_def size Let_def
    by (auto simp: header_size_def h4 vb wrap fs memcmp_take [OF h4(1)] r0_def simp del: length_append)
  also have "\<dots> = Ok (r0\<lparr>rd_block_size := tbs, rd_min_update_index := mn, rd_max_update_index := mx,
          rd_hash_id := (if v = 1 then HASH_SHA1 else HASH_SHA256), rd_object_id_len := n,
          rd_ref_offsets := offsets_of (t = BLOCK_TYPE_REF) 0 rio,
          rd_log_offsets := offsets_of (t = BLOCK_TYPE_LOG \<or> 0 < loff) loff lio,
          rd_obj_offsets := offsets_of (0 < ooff) ooff oio\<rparr>)"
    using parse_footer_written [OF has E body hd(1,2) [folded header_def] _ sz, of r0, unfolded hd(3) [folded header_def]]
    by (simp add: r0_def)
  finally show ?thesis by (simp add: r0_def)
qed


section \<open>Closing the table\<close>

lemma writer_close_inv:
  assumes st: "tab_state E out iv hsz tbs hdr refs logs w" and S: "appends S out" and E: "alloc_ok E" and hsz: "2 \<le> hsz" "hsz < 2 ^ 61"
    and n: "length refs < 2 ^ 64" and cl: "reftable_writer_close E S w = Some (Ok s)"
  shows "\<exists>cs w1 ft. tab_done E out iv hsz tbs hdr (map (stored_ref (wr_min_update_index w)) refs) (map Rec_Log logs) cs w1
    \<and> fst (w_env w1) = fst (w_env w) \<and> cs \<noteq> [] \<and> writer_footer E w1 = Ok ft \<and> out s = file_of E iv hdr cs @ ft"
proof -
  from cl obtain w1 ft s1 w2 where w1: "writer_finish_public_section E S w = Some (Ok w1)" and ne: "wr_next w1 \<noteq> 0"
    and ft: "writer_footer E (w1\<lparr>wr_pending_padding := 0\<rparr>) = Ok ft" and s1: "wf_flush S (wr_sink w1) = Ok s1"
    and w2: "padded_write E S (w1\<lparr>wr_pending_padding := 0, wr_sink := s1\<rparr>) ft 0 = Ok w2" "s = wr_sink w2"
    by (auto simp: reftable_writer_close_def writer_close_output_def run_bind_eq_Ok Let_def or_error_eq_Ok split: if_splits)
  from finish_table [OF st S E hsz n w1] obtain cs where
    d: "tab_done E out iv hsz tbs hdr (map (stored_ref (wr_min_update_index w)) refs) (map Rec_Log logs) cs w1" "fst (w_env w1) = fst (w_env w)" by blast
  then have inv: "w_inv E out iv hsz tbs hdr cs [] [] BLOCK_TYPE_LOG w1" by (simp add: tab_done_def)
  have "cs \<noteq> []" using w_inv_next_zero [OF inv] ne by simp
  moreover have "writer_footer E (w1\<lparr>wr_pending_padding := 0\<rparr>) = writer_footer E w1"
    by (simp add: writer_footer_def writer_write_header_def writer_header_prefix_def writer_version_def)
  moreover have "out s = out s1 @ ft" using padded_write_out [OF S w2(1)] w2(2) by auto
  moreover have "out s1 = out (wr_sink w1)" using S s1 by (simp add: appends_def)
  moreover have "out (wr_sink w1) = file_of E iv hdr cs" using inv by (simp add: w_inv_def)
  ultimately show ?thesis using d ft by (intro exI [of _ cs] exI [of _ w1] exI [of _ ft]) simp
qed

section \<open>Reading a table back\<close>

lemma first_off_here:
  assumes "\<forall>c \<in> set a. ck_typ c \<noteq> ty" "l \<noteq> []" "ck_typ (hd l) = ty"
  shows "first_off E iv hdr (a @ l @ b) ty = chunk_off E iv hdr a (hd l)"
  using assms by (cases l) (simp_all add: first_off_def dropWhile_append2 takeWhile_append2)

lemma first_off_none: "\<forall>c \<in> set cs. ck_typ c \<noteq> ty \<Longrightarrow> first_off E iv hdr cs ty = 0"
  by (simp add: first_off_def dropWhile_append2 takeWhile_append2 dropWhile_eq_Nil_conv [THEN iffD2])

lemma indexed_in_below:
  assumes "indexed_in E iv hdr cs ioff lvl"
  shows "ioff < length (file_of E iv hdr cs)"
  using assms
proof (induction rule: indexed_in.induct)
  case (indexed_top a u b lvl)
  then obtain c u' where u: "u = c # u'" by (cases u) auto
  have "file_of E iv hdr cs = file_of E iv hdr (a @ c # u' @ b)" using indexed_top(1) by (simp add: u)
  then show ?case unfolding file_of_split using indexed_top(6) by (simp add: chunk_off_def u)
qed

lemma sect_shows:
  assumes cs: "cs = a @ l @ ups @ post" "l \<noteq> []" "\<forall>c \<in> set l. ck_typ c = ty" "\<forall>c \<in> set (ups @ post). ck_typ c \<noteq> ty" "reftable_is_block_type ty"
    and lay: "laid_out E iv hsz tbs hdr cs" "reads_file E r (file_of E iv hdr cs) tbs hsz (length hdr)"
    and E: "be16_ok E" "zlib_ok E" "MAX_RESTARTS E < 2 ^ 16" "0 < MAX_RESTARTS E" and sz: "length (file_of E iv hdr cs) \<le> 2 ^ 64"
    and offs: "reader_offsets_for r ty = Ok (offsets_of True (chunk_off E iv hdr a (hd l)) ioff)" "rd_refcount r > 0"
    and idx: "if ups = [] then ioff = 0 else sect_index E iv hdr a l ups ioff" "post = [] \<or> ck_typ (hd post) \<noteq> BLOCK_TYPE_INDEX"
    and srt: "sorted_wrt (<) (map (key_of E) (concat (map ck_recs l)))"
  shows "reader_shows E iv hsz ty r (map (shown r) (concat (map ck_recs l)))"
proof -
  let ?o = "offsets_of True (chunk_off E iv hdr a (hd l)) ioff"
  have "ups @ post = [] \<or> ck_typ (hd (ups @ post)) \<noteq> ty" using cs(4) by (cases "ups @ post") auto
  moreover have "ro_index_offset ?o = 0 \<or> indexed_in E iv hdr cs (ro_index_offset ?o) (offs_of E iv hdr a l)"
    using idx unfolding cs(1) sect_index_def by (auto simp: offsets_of_def split: if_splits)
  moreover have "ro_offset ?o = chunk_off E iv hdr a (hd l)" by (simp add: offsets_of_def)
  ultimately have "section_at E r iv hsz ty (concat (map ck_recs l))"
    using section_at_chunks [OF _ cs(2,3) _ cs(5) lay E(1-3) sz offs(1), of a "ups @ post"] cs(1) by simp
  then show ?thesis using offs E(4) srt unfolding reader_shows_def by (auto simp: offsets_of_def)
qed

lemma absent_shows:
  assumes "reader_offsets_for r ty = Ok (offsets_of False off ioff)" "rd_refcount r > 0" "0 < MAX_RESTARTS E"
  shows "reader_shows E iv hsz ty r []"
  using assms by (simp add: reader_shows_def offsets_of_def)


text \<open>The parts of a whole table: references, objects and log entries, each with its index.\<close>

definition part_index :: "reftable_env \<Rightarrow> nat \<Rightarrow> bytes \<Rightarrow> chunk list \<Rightarrow> byte \<Rightarrow> chunk list \<Rightarrow> chunk list \<Rightarrow> nat \<Rightarrow> bool" where
  "part_index E iv hdr a ty l ups ioff \<longleftrightarrow> (\<forall>c \<in> set l. ck_typ c = ty) \<and> (\<forall>c \<in> set ups. ck_typ c = BLOCK_TYPE_INDEX)
     \<and> (l = [] \<longrightarrow> ups = []) \<and> (if ups = [] then ioff = 0 else sect_index E iv hdr a l ups ioff)"

lemma part_indexI:
  assumes "\<forall>c \<in> set l. ck_typ c = ty" "if ups = [] then ioff = 0 else l \<noteq> [] \<and> sect_index E iv hdr a l ups ioff"
  shows "part_index E iv hdr a ty l ups ioff"
  using assms by (cases "ups = []") (simp_all add: part_index_def sect_index_def)

definition objects_of :: "reftable_env \<Rightarrow> nat \<Rightarrow> bytes \<Rightarrow> chunk list \<Rightarrow> bytes list \<Rightarrow> nat \<Rightarrow> reftable_record list \<Rightarrow> bool" where
  "objects_of E iv hdr l ks n os \<longleftrightarrow> sorted_wrt (<) ks \<and> set ks = \<Union> (rec_hashes ` set (concat (map ck_recs l))) \<and> id_len_ok ks n
     \<and> list_all2 (obj_entry n (\<lambda>h. offs_for h (hash_blocks (offs_of E iv hdr [] l)))) ks os"

definition table_parts ::
  "reftable_env \<Rightarrow> nat \<Rightarrow> bytes \<Rightarrow> 's reftable_writer \<Rightarrow> chunk list \<times> chunk list \<Rightarrow> chunk list \<times> chunk list \<Rightarrow> chunk list \<times> chunk list \<Rightarrow> bool" where
  "table_parts E iv hdr w pr po pl \<longleftrightarrow> (case (pr, po, pl) of ((rl, ru), (ol, ou), (ll, lu)) \<Rightarrow>
     part_index E iv hdr [] BLOCK_TYPE_REF rl ru (index_off w BLOCK_TYPE_REF)
     \<and> part_index E iv hdr (rl @ ru) BLOCK_TYPE_OBJ ol ou (index_off w BLOCK_TYPE_OBJ)
     \<and> part_index E iv hdr (rl @ ru @ ol @ ou) BLOCK_TYPE_LOG ll lu (index_off w BLOCK_TYPE_LOG)
     \<and> (rl = [] \<longrightarrow> ol = [])
     \<and> (ol = [] \<and> st_object_id_len (wr_stats w) = 0
        \<or> (\<exists>ks. objects_of E iv hdr rl ks (st_object_id_len (wr_stats w)) (concat (map ck_recs ol)))))"

lemma laid_out_records_nonempty:
  assumes "laid_out E iv hsz tbs hdr (a @ l @ b)" "concat (map ck_recs l) = []"
  shows "l = []"
proof (cases l)
  case (Cons c l')
  have "chunk_ok E iv hsz tbs (pre_of hdr a) c" using laid_out_split [of E iv hsz tbs hdr a c "l' @ b"] assms(1) by (simp add: Cons)
  then show ?thesis using assms(2) by (simp add: Cons chunk_ok_def)
qed

lemma tab_done_parts:
  assumes d: "tab_done E out iv hsz tbs hdr rs ls cs w"
  shows "\<exists>rl ru ol ou ll lu. cs = rl @ ru @ ol @ ou @ ll @ lu \<and> concat (map ck_recs rl) = rs \<and> concat (map ck_recs ll) = ls
    \<and> table_parts E iv hdr w (rl, ru) (ol, ou) (ll, lu)"
proof -
  from d obtain dn ll lu where l: "cs = dn @ ll @ lu" "ref_part E iv hsz hdr rs dn w" "\<forall>c \<in> set ll. ck_typ c = BLOCK_TYPE_LOG"
    "concat (map ck_recs ll) = ls" "\<forall>c \<in> set lu. ck_typ c = BLOCK_TYPE_INDEX"
    "if lu = [] then index_off w BLOCK_TYPE_LOG = 0 else ll \<noteq> [] \<and> sect_index E iv hdr dn ll lu (index_off w BLOCK_TYPE_LOG)"
    unfolding tab_done_def by (elim conjE exE) (rule that; assumption)
  from l(2) obtain rl ru ob ks where r: "dn = rl @ ru @ ob" "\<forall>c \<in> set rl. ck_typ c = BLOCK_TYPE_REF" "concat (map ck_recs rl) = rs"
    "\<forall>c \<in> set ru. ck_typ c = BLOCK_TYPE_INDEX"
    "if ru = [] then index_off w BLOCK_TYPE_REF = 0 else rl \<noteq> [] \<and> sect_index E iv hdr [] rl ru (index_off w BLOCK_TYPE_REF)"
    and ob: "ob = [] \<and> st_object_id_len (wr_stats w) = 0 \<and> index_off w BLOCK_TYPE_OBJ = 0
        \<or> sorted_wrt (<) ks \<and> set ks = \<Union> (rec_hashes ` set rs)
          \<and> obj_part E iv hdr (rl @ ru) ob (\<lambda>h. offs_for h (hash_blocks (offs_of E iv hdr [] rl))) ks
              (st_object_id_len (wr_stats w)) (index_off w BLOCK_TYPE_OBJ)"
    unfolding ref_part_def by (elim conjE exE) (rule that; assumption)
  have lay: "laid_out E iv hsz tbs hdr cs" using d by (simp add: tab_done_def w_inv_def)
  have "\<exists>ol ou. ob = ol @ ou \<and> part_index E iv hdr (rl @ ru) BLOCK_TYPE_OBJ ol ou (index_off w BLOCK_TYPE_OBJ)
    \<and> (ol = [] \<and> st_object_id_len (wr_stats w) = 0 \<or> objects_of E iv hdr rl ks (st_object_id_len (wr_stats w)) (concat (map ck_recs ol)))"
    using ob
  proof (elim disjE conjE)
    assume "ob = []" "st_object_id_len (wr_stats w) = 0" "index_off w BLOCK_TYPE_OBJ = 0"
    then show ?thesis by (intro exI [of _ "[]"]) (simp add: part_index_def)
  next
    assume "sorted_wrt (<) ks" "set ks = \<Union> (rec_hashes ` set rs)"
      "obj_part E iv hdr (rl @ ru) ob (\<lambda>h. offs_for h (hash_blocks (offs_of E iv hdr [] rl))) ks (st_object_id_len (wr_stats w)) (index_off w BLOCK_TYPE_OBJ)"
    then show ?thesis unfolding obj_part_def objects_of_def r(3)
    proof (elim exE conjE, goal_cases)
      case (1 ol ou)
      with part_indexI [OF 1(4,7)] show ?case by (intro exI [of _ ol] exI [of _ ou]) simp
    qed
  qed
  then obtain ol ou where o: "ob = ol @ ou" "part_index E iv hdr (rl @ ru) BLOCK_TYPE_OBJ ol ou (index_off w BLOCK_TYPE_OBJ)"
    "ol = [] \<and> st_object_id_len (wr_stats w) = 0 \<or> objects_of E iv hdr rl ks (st_object_id_len (wr_stats w)) (concat (map ck_recs ol))" by blast
  have "ol = []" if "rl = []"
  proof -
    have "concat (map ck_recs ol) = []" using o(3) that by (auto simp: objects_of_def)
    then show ?thesis using laid_out_records_nonempty [of E iv hsz tbs hdr "rl @ ru" ol "ou @ ll @ lu"] lay l(1) r(1) o(1) by simp
  qed
  moreover have "part_index E iv hdr [] BLOCK_TYPE_REF rl ru (index_off w BLOCK_TYPE_REF)" by (rule part_indexI [OF r(2,5)])
  moreover have "part_index E iv hdr (rl @ ru @ ol @ ou) BLOCK_TYPE_LOG ll lu (index_off w BLOCK_TYPE_LOG)"
    using part_indexI [OF l(3,6)] r(1) o(1) by simp
  moreover have "ol = [] \<and> st_object_id_len (wr_stats w) = 0
      \<or> (\<exists>ks. objects_of E iv hdr rl ks (st_object_id_len (wr_stats w)) (concat (map ck_recs ol)))" using o(3) by blast
  ultimately have "table_parts E iv hdr w (rl, ru) (ol, ou) (ll, lu)" using o(2) unfolding table_parts_def prod.case by (intro conjI impI)
  moreover have "cs = rl @ ru @ ol @ ou @ ll @ lu" using l(1) r(1) o(1) by simp
  ultimately show ?thesis using l(4) r(3) by blast
qed


text \<open>The reader that opens such a table.\<close>

definition env_ok :: "reftable_env \<Rightarrow> bool" where
  "env_ok E \<longleftrightarrow> be16_ok E \<and> be32_ok E \<and> be64_ok E \<and> zlib_ok E \<and> alloc_ok E \<and> format_ids_ok E \<and> type_codes_ok E
     \<and> 0 < MAX_RESTARTS E \<and> MAX_RESTARTS E < 2 ^ 16"

lemma index_off_stats:
  "st_index_offset (st_ref (wr_stats w)) = index_off w BLOCK_TYPE_REF" "st_index_offset (st_obj (wr_stats w)) = index_off w BLOCK_TYPE_OBJ"
  "st_index_offset (st_log (wr_stats w)) = index_off w BLOCK_TYPE_LOG"
  by (simp_all add: index_off_def writer_reftable_block_stats_def block_type_defs)

lemma first_off_stats:
  assumes "stats_ok E iv hdr cs w"
  shows "st_offset (st_obj (wr_stats w)) = first_off E iv hdr cs BLOCK_TYPE_OBJ" "st_offset (st_log (wr_stats w)) = first_off E iv hdr cs BLOCK_TYPE_LOG"
  using assms by (simp_all add: stats_ok_def writer_reftable_block_stats_def block_type_defs)

lemma first_off_below: "cs \<noteq> [] \<Longrightarrow> first_off E iv hdr cs ty < length (file_of E iv hdr cs)"
proof (cases "dropWhile (\<lambda>c. ck_typ c \<noteq> ty) cs")
  case Nil
  assume "cs \<noteq> []"
  then have "file_of E iv hdr cs \<noteq> []" by simp
  then show ?thesis unfolding first_off_def Nil by simp
next
  case (Cons c b)
  let ?a = "takeWhile (\<lambda>c. ck_typ c \<noteq> ty) cs"
  have "file_of E iv hdr cs = file_of E iv hdr (?a @ c # b)" using takeWhile_dropWhile_id [of "\<lambda>c. ck_typ c \<noteq> ty" cs] Cons by simp
  then show ?thesis unfolding file_of_split first_off_def Cons by (simp add: chunk_off_def)
qed

lemma part_index_below:
  assumes "part_index E iv hdr a ty l ups ioff" "cs = a @ l @ ups @ post" "cs \<noteq> []" "post = [] \<or> ck_typ (hd post) \<noteq> BLOCK_TYPE_INDEX"
  shows "ioff < length (file_of E iv hdr cs)"
proof (cases "ups = []")
  case True
  with assms(1) have "ioff = 0" by (simp add: part_index_def)
  moreover have "file_of E iv hdr cs \<noteq> []" using assms(3) by simp
  ultimately show ?thesis by simp
next
  case False
  then have "sect_index E iv hdr a l ups ioff" using assms(1) by (simp add: part_index_def)
  then have "indexed_in E iv hdr cs ioff (offs_of E iv hdr a l)" using assms(4) unfolding sect_index_def assms(2) by blast
  then show ?thesis by (rule indexed_in_below)
qed

lemma laid_out_first:
  assumes "laid_out E iv hsz tbs hdr cs" "cs \<noteq> []"
  shows "\<exists>rest. file_of E iv hdr cs = hdr @ ck_typ (hd cs) # rest"
proof -
  from assms(2) obtain c cs' where c: "cs = c # cs'" by (cases cs) auto
  have "ck_pad c = 0" using laid_out_split [of E iv hsz tbs hdr "[]" c cs'] assms(1) by (simp add: c pad_ok_def)
  then show ?thesis by (simp add: c chunk_bytes_def block_head_def)
qed

end
