(* ===== verification/Reft_Roundtrip.thy ===== *)
theory Reft_Roundtrip
  imports Reft_Footer
begin

unbundle bit_operations_syntax

text \<open>
  From the calls of a writer to what a reader lists: a table that has been written can be opened,
  its sections are where the footer says, and reading them from any key gives the records that were
  given to the writer, in order.
\<close>

section \<open>Where the parts are\<close>

lemma part_types:
  assumes "table_parts E iv hdr w (rl, ru) (ol, ou) (ll, lu)"
  shows "\<forall>c \<in> set (rl @ ru @ ol @ ou). ck_typ c \<noteq> BLOCK_TYPE_LOG" "\<forall>c \<in> set (rl @ ru). ck_typ c \<noteq> BLOCK_TYPE_OBJ"
    "\<forall>c \<in> set (ou @ ll @ lu). ck_typ c \<noteq> BLOCK_TYPE_OBJ" "\<forall>c \<in> set (ru @ ol @ ou @ ll @ lu). ck_typ c \<noteq> BLOCK_TYPE_REF"
    "\<forall>c \<in> set lu. ck_typ c \<noteq> BLOCK_TYPE_LOG"
    "ol @ ou @ ll @ lu = [] \<or> ck_typ (hd (ol @ ou @ ll @ lu)) \<noteq> BLOCK_TYPE_INDEX" "ll @ lu = [] \<or> ck_typ (hd (ll @ lu)) \<noteq> BLOCK_TYPE_INDEX"
proof -
  have ne: "BLOCK_TYPE_REF \<noteq> BLOCK_TYPE_LOG" "BLOCK_TYPE_OBJ \<noteq> BLOCK_TYPE_LOG" "BLOCK_TYPE_INDEX \<noteq> BLOCK_TYPE_LOG" "BLOCK_TYPE_REF \<noteq> BLOCK_TYPE_OBJ"
    "BLOCK_TYPE_INDEX \<noteq> BLOCK_TYPE_OBJ" "BLOCK_TYPE_LOG \<noteq> BLOCK_TYPE_OBJ" "BLOCK_TYPE_INDEX \<noteq> BLOCK_TYPE_REF" "BLOCK_TYPE_OBJ \<noteq> BLOCK_TYPE_REF"
    "BLOCK_TYPE_LOG \<noteq> BLOCK_TYPE_REF" "BLOCK_TYPE_OBJ \<noteq> BLOCK_TYPE_INDEX" "BLOCK_TYPE_LOG \<noteq> BLOCK_TYPE_INDEX"
    by (simp_all add: block_type_defs)
  have t: "\<forall>c \<in> set rl. ck_typ c = BLOCK_TYPE_REF" "\<forall>c \<in> set ru. ck_typ c = BLOCK_TYPE_INDEX" "\<forall>c \<in> set ol. ck_typ c = BLOCK_TYPE_OBJ"
    "\<forall>c \<in> set ou. ck_typ c = BLOCK_TYPE_INDEX" "\<forall>c \<in> set ll. ck_typ c = BLOCK_TYPE_LOG" "\<forall>c \<in> set lu. ck_typ c = BLOCK_TYPE_INDEX"
    "ol = [] \<longrightarrow> ou = []" "ll = [] \<longrightarrow> lu = []"
    using assms by (simp_all add: table_parts_def part_index_def)
  show "\<forall>c \<in> set (rl @ ru @ ol @ ou). ck_typ c \<noteq> BLOCK_TYPE_LOG" "\<forall>c \<in> set (rl @ ru). ck_typ c \<noteq> BLOCK_TYPE_OBJ"
    "\<forall>c \<in> set (ou @ ll @ lu). ck_typ c \<noteq> BLOCK_TYPE_OBJ" "\<forall>c \<in> set (ru @ ol @ ou @ ll @ lu). ck_typ c \<noteq> BLOCK_TYPE_REF"
    "\<forall>c \<in> set lu. ck_typ c \<noteq> BLOCK_TYPE_LOG"
    using t ne by (simp_all add: ball_Un)
  show ll: "ll @ lu = [] \<or> ck_typ (hd (ll @ lu)) \<noteq> BLOCK_TYPE_INDEX" using t(5,8) ne by (cases ll) simp_all
  show "ol @ ou @ ll @ lu = [] \<or> ck_typ (hd (ol @ ou @ ll @ lu)) \<noteq> BLOCK_TYPE_INDEX" using t(3,7) ll ne by (cases ol) auto
qed

text \<open>The offsets in the footer: of a section that is there, the first of its blocks.\<close>

lemma first_off_part:
  assumes lay: "laid_out E iv hsz tbs hdr (a @ l @ b)" and t: "\<forall>c \<in> set a. ck_typ c \<noteq> ty" "\<forall>c \<in> set l. ck_typ c = ty" "\<forall>c \<in> set b. ck_typ c \<noteq> ty"
  shows "first_off E iv hdr (a @ l @ b) ty = (if l = [] then 0 else chunk_off E iv hdr a (hd l))"
    and "0 < first_off E iv hdr (a @ l @ b) ty \<longleftrightarrow> a \<noteq> [] \<and> l \<noteq> []"
proof -
  show eq: "first_off E iv hdr (a @ l @ b) ty = (if l = [] then 0 else chunk_off E iv hdr a (hd l))"
  proof (cases "l = []")
    case True
    with t(1,3) show ?thesis using first_off_none [of "a @ b" ty E iv hdr] by (simp add: ball_Un)
  next
    case False
    with t(2) show ?thesis using first_off_here [OF t(1) False] by simp
  qed
  show "0 < first_off E iv hdr (a @ l @ b) ty \<longleftrightarrow> a \<noteq> [] \<and> l \<noteq> []"
  proof (cases l)
    case Nil
    then show ?thesis unfolding eq by simp
  next
    case (Cons c l')
    have "pad_ok E iv tbs hdr a (ck_pad c)" using laid_out_split [of E iv hsz tbs hdr a c "l' @ b"] lay by (simp add: Cons)
    from chunk_off_zero [OF this] show ?thesis unfolding eq by (auto simp: Cons)
  qed
qed

lemma first_types:
  assumes parts: "table_parts E iv hdr w (rl, ru) (ol, ou) (ll, lu)" "cs = rl @ ru @ ol @ ou @ ll @ lu" "cs \<noteq> []"
    and lo: "0 < lo \<longleftrightarrow> rl @ ru @ ol @ ou \<noteq> [] \<and> ll \<noteq> []"
  shows "ck_typ (hd cs) = BLOCK_TYPE_REF \<longleftrightarrow> rl \<noteq> []" "(ck_typ (hd cs) = BLOCK_TYPE_LOG \<or> 0 < lo) \<longleftrightarrow> ll \<noteq> []"
proof -
  note ty = part_types [OF parts(1)]
  have rt: "\<forall>c \<in> set rl. ck_typ c = BLOCK_TYPE_REF" "\<forall>c \<in> set ll. ck_typ c = BLOCK_TYPE_LOG" "ll = [] \<longrightarrow> lu = []"
    using parts(1) by (simp_all add: table_parts_def part_index_def)
  show "ck_typ (hd cs) = BLOCK_TYPE_REF \<longleftrightarrow> rl \<noteq> []"
  proof (cases rl)
    case (Cons c x)
    then show ?thesis using rt(1) by (simp add: parts(2))
  next
    case Nil
    have "hd cs \<in> set (ru @ ol @ ou @ ll @ lu)" using parts(3) hd_in_set [of cs] by (simp add: parts(2) Nil)
    then show ?thesis using ty(4) Nil by blast
  qed
  show "(ck_typ (hd cs) = BLOCK_TYPE_LOG \<or> 0 < lo) \<longleftrightarrow> ll \<noteq> []"
  proof (cases "rl @ ru @ ol @ ou")
    case (Cons c x)
    have "cs = c # x @ ll @ lu" using Cons parts(2) by (metis append.assoc append_Cons)
    then have "ck_typ (hd cs) \<noteq> BLOCK_TYPE_LOG" using ty(1) unfolding Cons by simp
    then show ?thesis using lo Cons by simp
  next
    case Nil
    then have "cs = ll @ lu" by (simp add: parts(2))
    moreover have "ll \<noteq> []" using calculation parts(3) rt(3) by auto
    ultimately show ?thesis using rt(2) by (cases ll) simp_all
  qed
qed

definition opened_as ::
  "reftable_env \<Rightarrow> nat \<Rightarrow> nat \<Rightarrow> nat \<Rightarrow> bytes \<Rightarrow> 's reftable_writer \<Rightarrow> chunk list \<Rightarrow> chunk list \<times> chunk list \<Rightarrow> chunk list \<times> chunk list
   \<Rightarrow> chunk list \<times> chunk list \<Rightarrow> reftable_reader \<Rightarrow> bool" where
  "opened_as E iv hsz tbs hdr w cs pr po pl r \<longleftrightarrow> (case (pr, po, pl) of ((rl, ru), (ol, ou), (ll, lu)) \<Rightarrow>
     cs = rl @ ru @ ol @ ou @ ll @ lu \<and> table_parts E iv hdr w pr po pl \<and> laid_out E iv hsz tbs hdr cs
     \<and> reads_file E r (file_of E iv hdr cs) tbs hsz (length hdr) \<and> length (file_of E iv hdr cs) \<le> 2 ^ 64
     \<and> rd_refcount r = 1 \<and> rd_min_update_index r = wr_min_update_index w \<and> rd_max_update_index r = wr_max_update_index w
     \<and> rd_hash_id r = (if writer_version w = 1 then HASH_SHA1 else HASH_SHA256) \<and> rd_object_id_len r = st_object_id_len (wr_stats w)
     \<and> rd_ref_offsets r = offsets_of (rl \<noteq> []) 0 (index_off w BLOCK_TYPE_REF)
     \<and> rd_obj_offsets r = offsets_of (ol \<noteq> []) (if ol = [] then 0 else chunk_off E iv hdr (rl @ ru) (hd ol)) (index_off w BLOCK_TYPE_OBJ)
     \<and> rd_log_offsets r = offsets_of (ll \<noteq> []) (if ll = [] then 0 else chunk_off E iv hdr (rl @ ru @ ol @ ou) (hd ll)) (index_off w BLOCK_TYPE_LOG))"

lemma table_opens:
  assumes d: "tab_done E out iv hsz tbs hdr rs ls cs w" "cs \<noteq> []" and ft: "writer_footer E w = Ok ft" and E: "env_ok E"
    and F: "F = file_of E iv hdr cs @ ft" "length F < 2 ^ 59" and src: "source_of src F" and n: "st_object_id_len (wr_stats w) < 2 ^ 5"
    and parts: "cs = rl @ ru @ ol @ ou @ ll @ lu" "table_parts E iv hdr w (rl, ru) (ol, ou) (ll, lu)"
  shows "\<exists>r. reftable_reader_new E src name = Ok r \<and> opened_as E iv hsz tbs hdr w cs (rl, ru) (ol, ou) (ll, lu) r"
proof -
  let ?n = "st_object_id_len (wr_stats w)" and ?io = "index_off w"
  let ?oo = "first_off E iv hdr cs BLOCK_TYPE_OBJ" and ?lo = "first_off E iv hdr cs BLOCK_TYPE_LOG"
  have inv: "w_conf E iv hsz tbs hdr w" "laid_out E iv hsz tbs hdr cs" "stats_ok E iv hdr cs w" using d(1) by (simp_all add: tab_done_def w_inv_def)
  have hd: "writer_write_header E w = Ok hdr" "wo_block_size (wr_opts w) = tbs" "tbs < 2 ^ 24" "hash_size E (wo_hash_id (wr_opts w)) = Ok hsz" "0 < tbs"
    "header_size (writer_version w) = Ok (length hdr)"
    using inv(1) by (auto simp: w_conf_def)
  have E': "be64_ok E" "be32_ok E" "format_ids_ok E" using E by (simp_all add: env_ok_def)
  have has: "header_has E hdr (writer_version w) tbs (wr_min_update_index w) (wr_max_update_index w) (wo_hash_id (wr_opts w))"
    using writer_header_has [OF hd(1) E'(1,2)] hd(2,3) by simp
  define body where "body = hdr @ put_be64 E (word_of_nat (?io BLOCK_TYPE_REF)) @ put_be64 E (push_bit 5 (word_of_nat ?oo) OR word_of_nat ?n)
      @ put_be64 E (word_of_nat (?io BLOCK_TYPE_OBJ)) @ put_be64 E (word_of_nat ?lo) @ put_be64 E (word_of_nat (?io BLOCK_TYPE_LOG))"
  have ft': "ft = body @ put_be32 E (crc32 E body)"
    using ft hd(1) by (simp add: writer_footer_def body_def Let_def index_off_stats first_off_stats [OF inv(3)])
  have lenF: "length (file_of E iv hdr cs) < 2 ^ 59" using F by simp
  note ty = part_types [OF parts(2)]
  have pi: "part_index E iv hdr [] BLOCK_TYPE_REF rl ru (?io BLOCK_TYPE_REF)" "part_index E iv hdr (rl @ ru) BLOCK_TYPE_OBJ ol ou (?io BLOCK_TYPE_OBJ)"
    "part_index E iv hdr (rl @ ru @ ol @ ou) BLOCK_TYPE_LOG ll lu (?io BLOCK_TYPE_LOG)" "rl = [] \<longrightarrow> ol = []"
    using parts(2) by (simp_all add: table_parts_def)
  have o: "?oo = (if ol = [] then 0 else chunk_off E iv hdr (rl @ ru) (hd ol))" "0 < ?oo \<longleftrightarrow> ol \<noteq> []"
    using first_off_part [of E iv hsz tbs hdr "rl @ ru" ol "ou @ ll @ lu" BLOCK_TYPE_OBJ] inv(2) ty pi by (auto simp: parts(1) part_index_def)
  have l: "?lo = (if ll = [] then 0 else chunk_off E iv hdr (rl @ ru @ ol @ ou) (hd ll))" "0 < ?lo \<longleftrightarrow> rl @ ru @ ol @ ou \<noteq> [] \<and> ll \<noteq> []"
    using first_off_part [of E iv hsz tbs hdr "rl @ ru @ ol @ ou" ll lu BLOCK_TYPE_LOG] inv(2) ty pi by (auto simp: parts(1) part_index_def)
  have small: "x < 2 ^ 59" "x < 2 ^ 64" if "x < length (file_of E iv hdr cs)" for x using that lenF by simp_all
  have sz: "?io BLOCK_TYPE_REF < 2 ^ 64" "?oo < 2 ^ 59" "?io BLOCK_TYPE_OBJ < 2 ^ 64" "?lo < 2 ^ 64" "?io BLOCK_TYPE_LOG < 2 ^ 64"
    by (rule small, rule part_index_below [OF pi(1) _ d(2) ty(6)] first_off_below [OF d(2)] part_index_below [OF pi(2) _ d(2) ty(7)]
        part_index_below [OF pi(3) _ d(2), of "[]"]; simp add: parts(1))+
  have on: "0 < ?oo \<longrightarrow> 0 < ?n" using parts(2) o(2) by (auto simp: table_parts_def objects_of_def id_len_ok_def)
  from laid_out_first [OF inv(2) d(2)] obtain rest where blocks: "file_of E iv hdr cs = hdr @ ck_typ (hd cs) # rest" by blast
  note first = first_types [OF parts(2,1) d(2) l(2)]
  let ?r = "\<lparr>rd_source = src, rd_name = c_str name, rd_size = length (file_of E iv hdr cs),
     rd_hash_id = (if writer_version w = 1 then HASH_SHA1 else HASH_SHA256), rd_block_size = tbs, rd_min_update_index = wr_min_update_index w,
     rd_max_update_index = wr_max_update_index w, rd_object_id_len = ?n, rd_version = writer_version w,
     rd_ref_offsets = offsets_of (rl \<noteq> []) 0 (?io BLOCK_TYPE_REF), rd_obj_offsets = offsets_of (ol \<noteq> []) ?oo (?io BLOCK_TYPE_OBJ),
     rd_log_offsets = offsets_of (ll \<noteq> []) ?lo (?io BLOCK_TYPE_LOG), rd_refcount = 1\<rparr>"
  have "source_of src (file_of E iv hdr cs @ body @ put_be32 E (crc32 E body))" "length (file_of E iv hdr cs @ body @ put_be32 E (crc32 E body)) < 2 ^ 64"
    using src F unfolding ft' by simp_all
  from reader_new_written [OF has E' body_def hd(3) sz n on this(1) blocks this(2), of name]
  have new: "reftable_reader_new E src name = Ok ?r" unfolding first o(2) .
  have "hash_size E (rd_hash_id ?r) = Ok hsz"
    using has hd(4) by (auto simp: header_has_def split: if_splits)
  then have "reads_file E ?r (file_of E iv hdr cs) tbs hsz (length hdr)"
    using hd src unfolding reads_file_def source_of_def F(1) by simp
  then have "opened_as E iv hsz tbs hdr w cs (rl, ru) (ol, ou) (ll, lu) ?r"
    using parts inv(2) lenF o(1) l(1) by (simp add: opened_as_def)
  then show ?thesis using new by blast
qed


section \<open>What the reader shows\<close>

lemma opened_env: "env_ok E \<Longrightarrow> be16_ok E \<and> zlib_ok E \<and> MAX_RESTARTS E < 2 ^ 16 \<and> 0 < MAX_RESTARTS E"
  by (simp add: env_ok_def)

lemma opened_asD:
  assumes "opened_as E iv hsz tbs hdr w cs (rl, ru) (ol, ou) (ll, lu) r"
  shows "cs = rl @ ru @ ol @ ou @ ll @ lu" "table_parts E iv hdr w (rl, ru) (ol, ou) (ll, lu)" "laid_out E iv hsz tbs hdr cs"
    "reads_file E r (file_of E iv hdr cs) tbs hsz (length hdr)" "length (file_of E iv hdr cs) \<le> 2 ^ 64"
    "0 < rd_refcount r" "rd_min_update_index r = wr_min_update_index w" "rd_object_id_len r = st_object_id_len (wr_stats w)"
    "reader_offsets_for r BLOCK_TYPE_REF = Ok (offsets_of (rl \<noteq> []) 0 (index_off w BLOCK_TYPE_REF))"
    "reader_offsets_for r BLOCK_TYPE_OBJ = Ok (offsets_of (ol \<noteq> []) (if ol = [] then 0 else chunk_off E iv hdr (rl @ ru) (hd ol)) (index_off w BLOCK_TYPE_OBJ))"
    "reader_offsets_for r BLOCK_TYPE_LOG = Ok (offsets_of (ll \<noteq> []) (if ll = [] then 0 else chunk_off E iv hdr (rl @ ru @ ol @ ou) (hd ll)) (index_off w BLOCK_TYPE_LOG))"
    "part_index E iv hdr [] BLOCK_TYPE_REF rl ru (index_off w BLOCK_TYPE_REF)" "part_index E iv hdr (rl @ ru) BLOCK_TYPE_OBJ ol ou (index_off w BLOCK_TYPE_OBJ)"
    "part_index E iv hdr (rl @ ru @ ol @ ou) BLOCK_TYPE_LOG ll lu (index_off w BLOCK_TYPE_LOG)"
proof -
  have o: "BLOCK_TYPE_OBJ \<noteq> BLOCK_TYPE_REF" "BLOCK_TYPE_OBJ \<noteq> BLOCK_TYPE_LOG" "BLOCK_TYPE_LOG \<noteq> BLOCK_TYPE_REF" by (simp_all add: block_type_defs)
  note d = assms [unfolded opened_as_def prod.case]
  show "cs = rl @ ru @ ol @ ou @ ll @ lu" "table_parts E iv hdr w (rl, ru) (ol, ou) (ll, lu)" "laid_out E iv hsz tbs hdr cs"
    "reads_file E r (file_of E iv hdr cs) tbs hsz (length hdr)" "length (file_of E iv hdr cs) \<le> 2 ^ 64"
    "0 < rd_refcount r" "rd_min_update_index r = wr_min_update_index w" "rd_object_id_len r = st_object_id_len (wr_stats w)"
    using d by (elim conjE; simp only: zero_less_one)+
  show "reader_offsets_for r BLOCK_TYPE_REF = Ok (offsets_of (rl \<noteq> []) 0 (index_off w BLOCK_TYPE_REF))"
    "reader_offsets_for r BLOCK_TYPE_OBJ = Ok (offsets_of (ol \<noteq> []) (if ol = [] then 0 else chunk_off E iv hdr (rl @ ru) (hd ol)) (index_off w BLOCK_TYPE_OBJ))"
    "reader_offsets_for r BLOCK_TYPE_LOG = Ok (offsets_of (ll \<noteq> []) (if ll = [] then 0 else chunk_off E iv hdr (rl @ ru @ ol @ ou) (hd ll)) (index_off w BLOCK_TYPE_LOG))"
    using d o by (simp_all add: reader_offsets_for_def)
  show "part_index E iv hdr [] BLOCK_TYPE_REF rl ru (index_off w BLOCK_TYPE_REF)" "part_index E iv hdr (rl @ ru) BLOCK_TYPE_OBJ ol ou (index_off w BLOCK_TYPE_OBJ)"
    "part_index E iv hdr (rl @ ru @ ol @ ou) BLOCK_TYPE_LOG ll lu (index_off w BLOCK_TYPE_LOG)"
    using d by (simp_all add: table_parts_def)
qed

lemma part_shows:
  assumes "opened_as E iv hsz tbs hdr w cs (rl, ru) (ol, ou) (ll, lu) r" "env_ok E"
    and "cs = a @ l @ ups @ post" "\<forall>c \<in> set (ups @ post). ck_typ c \<noteq> ty" "reftable_is_block_type ty"
    and "part_index E iv hdr a ty l ups ioff" "post = [] \<or> ck_typ (hd post) \<noteq> BLOCK_TYPE_INDEX"
    and "reader_offsets_for r ty = Ok (offsets_of (l \<noteq> []) (if l = [] then 0 else chunk_off E iv hdr a (hd l)) ioff)"
    and "sorted_wrt (<) (map (key_of E) (concat (map ck_recs l)))"
  shows "reader_shows E iv hsz ty r (map (shown r) (concat (map ck_recs l)))"
proof (cases "l = []")
  case True
  then show ?thesis using absent_shows [of r ty _ _ E iv hsz] assms(8) opened_asD(6) [OF assms(1)] opened_env [OF assms(2)] by simp
next
  case False
  have o: "reader_offsets_for r ty = Ok (offsets_of True (chunk_off E iv hdr a (hd l)) ioff)" using assms(8) False by simp
  have i: "\<forall>c \<in> set l. ck_typ c = ty" "if ups = [] then ioff = 0 else sect_index E iv hdr a l ups ioff" using assms(6) unfolding part_index_def by blast+
  show ?thesis
    by (rule sect_shows [OF assms(3) False i(1) assms(4,5) opened_asD(3,4) [OF assms(1)] _ _ _ _ opened_asD(5) [OF assms(1)] o opened_asD(6) [OF assms(1)] i(2) assms(7,9)])
      (use opened_env [OF assms(2)] in simp_all)
qed

lemma opened_shows:
  assumes op: "opened_as E iv hsz tbs hdr w cs (rl, ru) (ol, ou) (ll, lu) r" and E: "env_ok E"
  shows "sorted_wrt (<) (map (key_of E) (concat (map ck_recs rl))) \<Longrightarrow>
      reader_shows E iv hsz BLOCK_TYPE_REF r (map (shown r) (concat (map ck_recs rl)))"
    and "sorted_wrt (<) (map (key_of E) (concat (map ck_recs ol))) \<Longrightarrow>
      reader_shows E iv hsz BLOCK_TYPE_OBJ r (map (shown r) (concat (map ck_recs ol)))"
    and "sorted_wrt (<) (map (key_of E) (concat (map ck_recs ll))) \<Longrightarrow>
      reader_shows E iv hsz BLOCK_TYPE_LOG r (map (shown r) (concat (map ck_recs ll)))"
proof -
  note d = opened_asD [OF op]
  note ty = part_types [OF d(2)]
  have off: "chunk_off E iv hdr [] (hd rl) = 0" if "rl \<noteq> []"
    using that laid_out_split [of E iv hsz tbs hdr "[]" "hd rl" "tl rl @ ru @ ol @ ou @ ll @ lu"] d(1,3) by (cases rl) (simp_all add: pad_ok_def chunk_off_def)
  have cs: "cs = [] @ rl @ ru @ (ol @ ou @ ll @ lu)" "cs = (rl @ ru) @ ol @ ou @ (ll @ lu)" "cs = (rl @ ru @ ol @ ou) @ ll @ lu @ []" using d(1) by simp_all
  have bt: "reftable_is_block_type BLOCK_TYPE_REF" "reftable_is_block_type BLOCK_TYPE_OBJ" "reftable_is_block_type BLOCK_TYPE_LOG"
    by (simp_all add: reftable_is_block_type_def)
  have d9: "reader_offsets_for r BLOCK_TYPE_REF = Ok (offsets_of (rl \<noteq> []) (if rl = [] then 0 else chunk_off E iv hdr [] (hd rl)) (index_off w BLOCK_TYPE_REF))"
    using d(9) off by simp
  show "reader_shows E iv hsz BLOCK_TYPE_REF r (map (shown r) (concat (map ck_recs rl)))" if "sorted_wrt (<) (map (key_of E) (concat (map ck_recs rl)))"
    by (rule part_shows [OF op E cs(1) ty(4) bt(1) d(12) ty(6) d9 that])
  show "reader_shows E iv hsz BLOCK_TYPE_OBJ r (map (shown r) (concat (map ck_recs ol)))" if "sorted_wrt (<) (map (key_of E) (concat (map ck_recs ol)))"
    by (rule part_shows [OF op E cs(2) ty(3) bt(2) d(13) ty(7) d(10) that])
  show "reader_shows E iv hsz BLOCK_TYPE_LOG r (map (shown r) (concat (map ck_recs ll)))" if "sorted_wrt (<) (map (key_of E) (concat (map ck_recs ll)))"
    by (rule part_shows [OF op E cs(3) _ bt(3) d(14) _ d(11) that]) (use ty(5) in simp_all)
qed


section \<open>Writing and reading a table\<close>

text \<open>What a client does: it writes a table in one go, and lists one of its sections from some key on.\<close>

definition write_table ::
  "reftable_env \<Rightarrow> 's write_ops \<Rightarrow> 's \<Rightarrow> reftable_write_options option \<Rightarrow> u64 \<Rightarrow> u64 \<Rightarrow> ref_record list \<Rightarrow> log_record list \<Rightarrow> 's run" where
  "write_table E S sink opts mn mx refs logs =
     run_bind (Some (reftable_writer_new E sink opts)) (\<lambda>w.
     run_bind (Some (reftable_writer_add_refs E S (reftable_writer_set_limits w mn mx) refs)) (\<lambda>w.
     run_bind (reftable_writer_add_logs E S w logs) (\<lambda>w. reftable_writer_close E S w)))"

definition list_refs_from :: "reftable_env \<Rightarrow> block_source \<Rightarrow> bytes \<Rightarrow> ref_record \<Rightarrow> reftable_record list run" where
  "list_refs_from E src name want =
     run_bind (Some (reftable_reader_new E src name)) (\<lambda>r.
     run_bind (Some (reftable_reader_init_ref_iterator r)) (\<lambda>it.
       iterator_list_from (reader_iter_vtable E) it (Rec_Ref want)))"

definition list_logs_from :: "reftable_env \<Rightarrow> block_source \<Rightarrow> bytes \<Rightarrow> log_record \<Rightarrow> reftable_record list run" where
  "list_logs_from E src name want =
     run_bind (Some (reftable_reader_new E src name)) (\<lambda>r.
     run_bind (Some (reftable_reader_init_log_iterator r)) (\<lambda>it.
       iterator_list_from (reader_iter_vtable E) it (Rec_Log want)))"

text \<open>
  What the writer is given: valid records without two of the same key, a block size with room for
  the header, and objects whose names differ within the 31 bytes that the footer can tell apart.
\<close>

definition ref_hashes :: "ref_record list \<Rightarrow> bytes set" where
  "ref_hashes refs = \<Union> ((\<lambda>r. rec_hashes (Rec_Ref r)) ` set refs)"

definition input_ok :: "reftable_env \<Rightarrow> reftable_write_options \<Rightarrow> ref_record list \<Rightarrow> log_record list \<Rightarrow> bool" where
  "input_ok E opts refs logs \<longleftrightarrow> 32 \<le> wo_block_size opts \<and> length refs < 2 ^ 64 \<and>
     (\<forall>hsz. hash_size E (wo_hash_id opts) = Ok hsz \<longrightarrow> 2 \<le> hsz \<and> hsz < 2 ^ 61
        \<and> (\<forall>r \<in> set refs. ref_ok E hsz r) \<and> (\<forall>l \<in> set logs. log_ok E hsz (stored_log opts l)))
     \<and> distinct (map ref_key refs) \<and> distinct (map (log_key E) logs)
     \<and> (\<forall>h \<in> ref_hashes refs. \<forall>h' \<in> ref_hashes refs. h \<noteq> h' \<longrightarrow> common_prefix_size h h' < 31)"

definition all_options :: "reftable_env \<Rightarrow> reftable_write_options option \<Rightarrow> reftable_write_options" where
  "all_options E opts_ptr = options_set_defaults E (case opts_ptr of Some opts \<Rightarrow> opts | None \<Rightarrow> zero_write_options)"

lemma stored_log_name [simp]: "log_name (stored_log opts l) = log_name l" "log_update_index (stored_log opts l) = log_update_index l"
  by (simp_all add: stored_log_def split: option.splits)

lemma key_stored:
  "key_of E (stored_ref mn r) = ref_key r" "key_of E (Rec_Log (stored_log opts l)) = log_key E l" "rec_hashes (stored_ref mn r) = rec_hashes (Rec_Ref r)"
  by (auto simp: stored_ref_def key_of_def ref_key_def log_key_def reftable_ref_record_key_def reftable_log_record_key_def c_deref_def split: option.splits)

lemma writer_new_ok:
  assumes E: "env_ok E" and new: "reftable_writer_new E sink opts_ptr = Ok w0" and sz: "32 \<le> wo_block_size (all_options E opts_ptr)"
  shows "\<exists>hdr hsz. writer_write_header E (reftable_writer_set_limits w0 mn mx) = Ok hdr \<and> length hdr + 4 \<le> wo_block_size (all_options E opts_ptr)
    \<and> hash_size E (wo_hash_id (all_options E opts_ptr)) = Ok hsz"
proof -
  let ?o = "all_options E opts_ptr"
  have id: "wo_hash_id ?o \<noteq> HASH_NONE" by (simp add: all_options_def options_set_defaults_def)
  have "\<exists>v. wr_opts v = ?o \<and> (case writer_reinit_block_writer E v BLOCK_TYPE_REF of Ok w \<Rightarrow> Ok w | Err _ \<Rightarrow> Ok v | Crash c \<Rightarrow> Crash c) = Ok w0 \<and> wr_next v = 0"
    using new unfolding reftable_writer_new_def all_options_def [symmetric] Let_def by (simp split: if_splits) (metis (no_types) reftable_writer.select_convs(2,3))
  then obtain v where v: "wr_opts v = ?o" "(case writer_reinit_block_writer E v BLOCK_TYPE_REF of Ok w \<Rightarrow> Ok w | Err _ \<Rightarrow> Ok v | Crash c \<Rightarrow> Crash c) = Ok w0" "wr_next v = 0" by blast
  have "wo_hash_id ?o \<noteq> HASH_INVALID"
    using v by (auto simp: writer_reinit_block_writer_def writer_version_def header_size_def)
  with id have cases: "wo_hash_id ?o = HASH_SHA1 \<or> wo_hash_id ?o = HASH_SHA256" by (cases "wo_hash_id ?o") simp_all
  have "wr_opts (reftable_writer_set_limits w0 mn mx) = ?o"
    using v by (auto simp: reftable_writer_set_limits_def writer_reinit_block_writer_def res_bind_eq_Ok split: res.splits)
  then show ?thesis using cases E sz
    by (auto simp: writer_write_header_def writer_version_def length_writer_header_prefix env_ok_def be32_ok_def)
qed


lemma writer_add_state:
  assumes E: "env_ok E" and S: "appends S out" and out: "out sink = []" and new: "reftable_writer_new E sink opts_ptr = Ok w0"
    and in_ok: "input_ok E (all_options E opts_ptr) refs logs"
    and w1: "reftable_writer_add_refs E S (reftable_writer_set_limits w0 mn mx) refs = Ok w1" and w2: "reftable_writer_add_logs E S w1 logs = Some (Ok w2)"
  shows "\<exists>hsz tbs hdr. tab_state E out (wo_restart_interval (all_options E opts_ptr)) hsz tbs hdr (sort_key ref_key refs)
      (map (stored_log (all_options E opts_ptr)) (sort_key (log_key E) logs)) w2
    \<and> hash_size E (wo_hash_id (all_options E opts_ptr)) = Ok hsz \<and> 2 \<le> hsz \<and> hsz < 2 ^ 61 \<and> fst (w_env w2) = (all_options E opts_ptr, mn, mx)"
proof -
  let ?o = "all_options E opts_ptr" and ?w = "reftable_writer_set_limits w0 mn mx"
  let ?refs = "sort_key ref_key refs" and ?logs = "sort_key (log_key E) logs"
  have E': "be64_ok E" "be32_ok E" "alloc_ok E" using E by (simp_all add: env_ok_def)
  have "32 \<le> wo_block_size ?o" using in_ok by (simp add: input_ok_def)
  from writer_new_ok [OF E new this, of mn mx] obtain hdr hsz where
    h: "writer_write_header E ?w = Ok hdr" "length hdr + 4 \<le> wo_block_size ?o" "hash_size E (wo_hash_id ?o) = Ok hsz" by blast
  have ok: "2 \<le> hsz" "hsz < 2 ^ 61" "\<forall>r \<in> set ?refs. ref_ok E hsz r" "\<forall>l \<in> set ?logs. log_ok E hsz (stored_log ?o l)" "length ?refs < 2 ^ 64"
    using in_ok h(3) by (simp_all add: input_ok_def)
  from writer_new_state [where out = out, OF E'(1,2) new out all_options_def refl h] have
    st: "ref_state E out (wo_restart_interval ?o) hsz (wo_block_size ?o) hdr [] ?w" "fst (w_env ?w) = (?o, mn, mx)" by blast+
  have "\<forall>r \<in> set refs. ref_name r \<noteq> None" using ok(3) by (auto simp: ref_ok_def name_ok_def split: option.splits)
  from w1 ref_order.qsort_sorts [OF this] have w1': "writer_add_ref_list E S ?w ?refs = Ok w1" by (simp add: reftable_writer_add_refs_def)
  from add_ref_list_state [OF st(1) S ok(3) w1'] st(2) have
    st1: "tab_state E out (wo_restart_interval ?o) hsz (wo_block_size ?o) hdr ?refs [] w1" "fst (w_env w1) = (?o, mn, mx)" by (simp_all add: tab_state_def)
  have o1: "wr_opts w1 = ?o" using st1(2) by (simp add: w_env_def)
  have "\<forall>l \<in> set logs. be64_ok E \<and> log_name l \<noteq> None"
    using ok(4) by (auto simp: log_ok_def name_ok_def split: option.splits)
  from w2 log_order.qsort_sorts [OF this] have w2': "writer_add_log_list E S w1 ?logs = Some (Ok w2)" by (simp add: reftable_writer_add_logs_def)
  from add_log_list_state [OF st1(1) S E'(3) ok(1,2,5) _ w2'] ok(4) o1 have
    "tab_state E out (wo_restart_interval ?o) hsz (wo_block_size ?o) hdr ?refs (map (stored_log ?o) ?logs) w2" "fst (w_env w2) = fst (w_env w1)" by simp_all
  then show ?thesis using ok(1,2) st1(2) h(3) by auto
qed

lemma objects_id_len:
  assumes "objects_of E iv hdr l ks n os" and "\<forall>h \<in> set ks. \<forall>h' \<in> set ks. h \<noteq> h' \<longrightarrow> common_prefix_size h h' < 31"
  shows "n < 2 ^ 5"
proof -
  have "id_len_ok ks n" "sorted_wrt (<) ks" using assms(1) by (simp_all add: objects_of_def)
  moreover have "common_prefix_size (ks ! Suc i) (ks ! i) < 31" if "Suc i < length ks" for i
  proof -
    have "ks ! i < ks ! Suc i" using \<open>sorted_wrt (<) ks\<close> that by (auto simp: sorted_wrt_iff_nth_less)
    then show ?thesis using assms(2) that by (auto simp: all_set_conv_all_nth)
  qed
  ultimately show ?thesis by (fastforce simp: id_len_ok_def)
qed

text \<open>The reader of a table that has been written: its parts, with the records that were given.\<close>

lemma write_table_opens:
  fixes S :: "'s write_ops"
  assumes E: "env_ok E" and S: "appends S out" and out: "out sink = []" and in_ok: "input_ok E (all_options E opts_ptr) refs logs"
    and wr: "write_table E S sink opts_ptr mn mx refs logs = Some (Ok s)" and len: "length (out s) < 2 ^ 59" and src: "source_of src (out s)"
  shows "\<exists>hsz tbs hdr (w :: 's reftable_writer) cs rl ru ol ou ll lu r. reftable_reader_new E src name = Ok r
    \<and> opened_as E (wo_restart_interval (all_options E opts_ptr)) hsz tbs hdr w cs (rl, ru) (ol, ou) (ll, lu) r \<and> fst (w_env w) = (all_options E opts_ptr, mn, mx)
    \<and> hash_size E (wo_hash_id (all_options E opts_ptr)) = Ok hsz
    \<and> concat (map ck_recs rl) = map (stored_ref mn) (sort_key ref_key refs)
    \<and> concat (map ck_recs ll) = map (\<lambda>l. Rec_Log (stored_log (all_options E opts_ptr) l)) (sort_key (log_key E) logs)"
proof -
  let ?o = "all_options E opts_ptr" and ?refs = "sort_key ref_key refs" and ?logs = "sort_key (log_key E) logs"
  from wr obtain w0 w1 w2 where w: "reftable_writer_new E sink opts_ptr = Ok w0"
    "reftable_writer_add_refs E S (reftable_writer_set_limits w0 mn mx) refs = Ok w1" "reftable_writer_add_logs E S w1 logs = Some (Ok w2)"
    and cl: "reftable_writer_close E S w2 = Some (Ok s)"
    by (auto simp: write_table_def run_bind_eq_Ok)
  from writer_add_state [OF E S out w(1) in_ok w(2,3)] obtain hsz tbs hdr where
    st: "tab_state E out (wo_restart_interval ?o) hsz tbs hdr ?refs (map (stored_log ?o) ?logs) w2" "2 \<le> hsz" "hsz < 2 ^ 61" and env: "fst (w_env w2) = (?o, mn, mx)"
    and hash: "hash_size E (wo_hash_id ?o) = Ok hsz" by blast
  let ?iv = "wo_restart_interval ?o"
  have mn: "wr_min_update_index w2 = mn" using env by (simp add: w_env_def)
  have A: "alloc_ok E" "length ?refs < 2 ^ 64" using E in_ok by (simp_all add: env_ok_def input_ok_def)
  from writer_close_inv [OF st(1) S A(1) st(2,3) A(2) cl] mn obtain cs w3 ft where
    d: "tab_done E out ?iv hsz tbs hdr (map (stored_ref mn) ?refs) (map Rec_Log (map (stored_log ?o) ?logs)) cs w3" "cs \<noteq> []"
    and w3: "fst (w_env w3) = fst (w_env w2)" and ft: "writer_footer E w3 = Ok ft" "out s = file_of E ?iv hdr cs @ ft" by blast
  from tab_done_parts [OF d(1)] obtain rl ru ol ou ll lu where p: "cs = rl @ ru @ ol @ ou @ ll @ lu" "concat (map ck_recs rl) = map (stored_ref mn) ?refs"
    "concat (map ck_recs ll) = map Rec_Log (map (stored_log ?o) ?logs)" "table_parts E ?iv hdr w3 (rl, ru) (ol, ou) (ll, lu)" by blast
  have "st_object_id_len (wr_stats w3) < 2 ^ 5"
  proof -
    have "set ks = ref_hashes refs" if "objects_of E ?iv hdr rl ks n os" for ks n os
      using that by (auto simp: objects_of_def p(2) key_stored ref_hashes_def)
    then show ?thesis using p(4) objects_id_len [of E ?iv hdr rl] in_ok by (fastforce simp: table_parts_def input_ok_def)
  qed
  from table_opens [OF d ft(1) E ft(2) len src this p(1,4)] obtain r where
    r: "reftable_reader_new E src name = Ok r" "opened_as E ?iv hsz tbs hdr w3 cs (rl, ru) (ol, ou) (ll, lu) r" by blast
  moreover have "fst (w_env w3) = (?o, mn, mx)" using w3 env by simp
  moreover have "concat (map ck_recs ll) = map (\<lambda>l. Rec_Log (stored_log ?o l)) ?logs" using p(3) by simp
  ultimately show ?thesis using p(2) hash by blast
qed


lemma shown_stored: "rd_min_update_index r = mn \<Longrightarrow> shown r (stored_ref mn x) = Rec_Ref x"
  by (simp add: shown_def stored_ref_def)

lemma written_shows:
  fixes S :: "'s write_ops"
  assumes E: "env_ok E" and S: "appends S out" and out: "out sink = []" and in_ok: "input_ok E (all_options E opts_ptr) refs logs"
    and wr: "write_table E S sink opts_ptr mn mx refs logs = Some (Ok s)" and len: "length (out s) < 2 ^ 59" and src: "source_of src (out s)"
  shows "\<exists>hsz r. reftable_reader_new E src name = Ok r \<and> hash_size E (wo_hash_id (all_options E opts_ptr)) = Ok hsz
    \<and> rd_hash_id r = wo_hash_id (all_options E opts_ptr) \<and> rd_min_update_index r = mn \<and> rd_max_update_index r = mx
    \<and> reader_shows E (wo_restart_interval (all_options E opts_ptr)) hsz BLOCK_TYPE_REF r (map Rec_Ref (sort_key ref_key refs))
    \<and> reader_shows E (wo_restart_interval (all_options E opts_ptr)) hsz BLOCK_TYPE_LOG r (map (\<lambda>l. Rec_Log (log_norm (stored_log (all_options E opts_ptr) l))) (sort_key (log_key E) logs))"
proof -
  let ?o = "all_options E opts_ptr"
  from write_table_opens [OF E S out in_ok wr len src, of name] obtain hsz tbs hdr and w :: "'s reftable_writer" and cs rl ru ol ou ll lu r where
    r: "reftable_reader_new E src name = Ok r" "hash_size E (wo_hash_id ?o) = Ok hsz" and op: "opened_as E (wo_restart_interval ?o) hsz tbs hdr w cs (rl, ru) (ol, ou) (ll, lu) r" and env: "fst (w_env w) = (?o, mn, mx)"
    and rl: "concat (map ck_recs rl) = map (stored_ref mn) (sort_key ref_key refs)"
    and ll: "concat (map ck_recs ll) = map (\<lambda>l. Rec_Log (stored_log ?o l)) (sort_key (log_key E) logs)" by blast
  have lim: "rd_min_update_index r = mn" "rd_max_update_index r = mx" and id: "rd_hash_id r = (if writer_version w = 1 then HASH_SHA1 else HASH_SHA256)"
    "wr_opts w = ?o"
    using op env unfolding opened_as_def prod.case w_env_def by simp_all
  have "wo_hash_id ?o \<noteq> HASH_NONE" by (simp add: all_options_def options_set_defaults_def)
  then have hid: "rd_hash_id r = wo_hash_id ?o" using id r(2) by (cases "wo_hash_id ?o") (simp_all add: writer_version_def)
  have "map (key_of E) (concat (map ck_recs rl)) = map ref_key (sort_key ref_key refs)" by (simp add: rl key_stored)
  then have "sorted_wrt (<) (map (key_of E) (concat (map ck_recs rl)))"
    using ref_order.sorted_strictly in_ok by (simp add: input_ok_def)
  note refs = opened_shows(1) [OF op E this]
  have "map (key_of E) (concat (map ck_recs ll)) = map (log_key E) (sort_key (log_key E) logs)" by (simp add: ll key_stored)
  then have "sorted_wrt (<) (map (key_of E) (concat (map ck_recs ll)))"
    using log_order.sorted_strictly in_ok by (simp add: input_ok_def)
  note logs = opened_shows(3) [OF op E this]
  have "map (shown r) (concat (map ck_recs rl)) = map Rec_Ref (sort_key ref_key refs)"
    using lim by (simp add: rl shown_stored)
  moreover have "map (shown r) (concat (map ck_recs ll)) = map (\<lambda>l. Rec_Log (log_norm (stored_log ?o l))) (sort_key (log_key E) logs)"
    by (simp add: ll shown_def)
  ultimately show ?thesis using r refs logs lim hid by auto
qed

end
