(* ===== verification/Reft_Merged.thy ===== *)
theory Reft_Merged
  imports Reft_Table Reft_Pq
begin

text \<open>
  The merged view of a stack of tables (\<open>reftable_merged.c\<close>). An entry of the queue points into
  the array of sub-iterators in C; here, it carries the record itself, which does not change while
  the entry is queued.
\<close>

section \<open>The merged iterator\<close>

record 'i merged_iter =
  mi_subiters :: "('i \<times> reftable_record) list"
  mi_pq :: "pq_entry list"
  mi_suppress_deletions :: bool
  mi_advance_index :: "nat option"

definition merged_iter_advance_subiter ::
  "'i iterator_ops \<Rightarrow> 'i merged_iter \<Rightarrow> nat \<Rightarrow> ('i merged_iter \<times> bool) run" where
  "merged_iter_advance_subiter ops mi idx =
     (if \<not> idx < length (mi_subiters mi) then Some (Crash Out_Of_Bounds)
      else let (it, rec) = mi_subiters mi ! idx in
        run_bind (iterator_next ops it rec) (\<lambda>(it, r). case r of
          None \<Rightarrow> Some (Ok (mi\<lparr>mi_subiters := (mi_subiters mi)[idx := (it, rec)]\<rparr>, False))
        | Some rec \<Rightarrow>
            run_bind (Some (merged_iter_pqueue_add (mi_pq mi) \<lparr>pq_index = idx, pq_rec = rec\<rparr>)) (\<lambda>pq.
              Some (Ok (mi\<lparr>mi_subiters := (mi_subiters mi)[idx := (it, rec)], mi_pq := pq\<rparr>, True)))))"

function pq_drain :: "pq_entry list \<Rightarrow> pq_entry list res" where
  "pq_drain pq =
     (if pq = [] then Ok pq
      else case merged_iter_pqueue_remove pq of
        Ok (_, pq) \<Rightarrow> pq_drain pq | Err e \<Rightarrow> Err e | Crash c \<Rightarrow> Crash c)"
  by pat_completeness auto
termination
  by (relation "measure length") (auto simp: merged_iter_pqueue_remove_def dest: pqueue_remove_shrinks)

declare pq_drain.simps [simp del]

fun merged_iter_seek_subs ::
  "'i iterator_ops \<Rightarrow> reftable_record \<Rightarrow> nat list \<Rightarrow> 'i merged_iter \<Rightarrow> 'i merged_iter run" where
  "merged_iter_seek_subs ops want [] mi = Some (Ok mi)"
| "merged_iter_seek_subs ops want (i # is) mi =
     run_bind (iterator_seek ops (fst (mi_subiters mi ! i)) want) (\<lambda>(it, found).
       let mi = mi\<lparr>mi_subiters := (mi_subiters mi)[i := (it, snd (mi_subiters mi ! i))]\<rparr> in
       if \<not> found then merged_iter_seek_subs ops want is mi
       else run_bind (merged_iter_advance_subiter ops mi i) (\<lambda>(mi, _).
         merged_iter_seek_subs ops want is mi))"

definition merged_iter_seek :: "'i iterator_ops \<Rightarrow> 'i merged_iter \<Rightarrow> reftable_record \<Rightarrow> ('i merged_iter \<times> bool) run" where
  "merged_iter_seek ops mi want =
     run_bind (Some (pq_drain (mi_pq mi))) (\<lambda>pq.
     run_bind (merged_iter_seek_subs ops want [0..<length (mi_subiters mi)]
         (mi\<lparr>mi_advance_index := None, mi_pq := pq\<rparr>)) (\<lambda>mi. Some (Ok (mi, True))))"

text \<open>The loop that drops the entries of older tables for the key that is about to be returned.\<close>

partial_function (option) merged_iter_skip ::
  "'i iterator_ops \<Rightarrow> 'i merged_iter \<Rightarrow> pq_entry \<Rightarrow> 'i merged_iter run" where
  "merged_iter_skip ops mi entry =
     (case mi_pq mi of
        [] \<Rightarrow> Some (Ok mi)
      | first # _ \<Rightarrow>
          run_bind (Some (reftable_record_cmp (pq_rec first) (pq_rec entry))) (\<lambda>cmp.
            if cmp > 0 then Some (Ok mi)
            else run_bind (Some (merged_iter_pqueue_remove (mi_pq mi))) (\<lambda>(_, pq).
              run_bind (merged_iter_advance_subiter ops (mi\<lparr>mi_pq := pq\<rparr>) (pq_index first)) (\<lambda>(mi, _).
                merged_iter_skip ops mi entry))))"

declare merged_iter_skip.simps [code]

definition merged_iter_pop ::
  "'i iterator_ops \<Rightarrow> 'i merged_iter \<Rightarrow> reftable_record \<Rightarrow> ('i merged_iter \<times> reftable_record option) run" where
  "merged_iter_pop ops mi rec =
     (if mi_pq mi = [] then Some (Ok (mi, None))
      else run_bind (Some (merged_iter_pqueue_remove (mi_pq mi))) (\<lambda>(entry, pq).
        run_bind (merged_iter_skip ops (mi\<lparr>mi_pq := pq\<rparr>) entry) (\<lambda>mi.
          let i = pq_index entry in
          Some (Ok (mi\<lparr>mi_advance_index := Some i,
                       mi_subiters := (mi_subiters mi)[i := (fst (mi_subiters mi ! i), rec)]\<rparr>,
                    Some (pq_rec entry))))))"

definition merged_iter_next_entry ::
  "'i iterator_ops \<Rightarrow> 'i merged_iter \<Rightarrow> reftable_record \<Rightarrow> ('i merged_iter \<times> reftable_record option) run" where
  "merged_iter_next_entry ops mi rec =
     (case mi_advance_index mi of
        Some a \<Rightarrow>
          if mi_pq mi = [] then
            run_bind (iterator_next ops (fst (mi_subiters mi ! a)) rec) (\<lambda>(it, r).
              Some (Ok (mi\<lparr>mi_subiters := (mi_subiters mi)[a := (it, snd (mi_subiters mi ! a))]\<rparr>, r)))
          else run_bind (merged_iter_advance_subiter ops mi a) (\<lambda>(mi, _).
            merged_iter_pop ops (mi\<lparr>mi_advance_index := None\<rparr>) rec)
      | None \<Rightarrow> merged_iter_pop ops mi rec)"

partial_function (option) merged_iter_next_void ::
  "'i iterator_ops \<Rightarrow> 'i merged_iter \<Rightarrow> reftable_record \<Rightarrow> ('i merged_iter \<times> reftable_record option) run" where
  "merged_iter_next_void ops mi rec =
     run_bind (merged_iter_next_entry ops mi rec) (\<lambda>(mi, r). case r of
        None \<Rightarrow> Some (Ok (mi, None))
      | Some rec \<Rightarrow>
          if mi_suppress_deletions mi \<and> reftable_record_is_deletion rec
          then merged_iter_next_void ops mi rec
          else Some (Ok (mi, Some rec)))"

declare merged_iter_next_void.simps [code]

definition merged_iter_vtable :: "'i iterator_ops \<Rightarrow> 'i merged_iter iterator_ops" where
  "merged_iter_vtable ops = \<lparr>op_seek = merged_iter_seek ops, op_next = merged_iter_next_void ops\<rparr>"

section \<open>The merged table\<close>

record reftable_merged_table =
  mt_readers :: "reftable_reader list"
  mt_hash_id :: reftable_hash
  mt_suppress_deletions :: bool
  mt_min :: u64
  mt_max :: u64

fun merged_limits :: "reftable_hash \<Rightarrow> nat \<Rightarrow> reftable_reader list \<Rightarrow> u64 \<Rightarrow> u64 \<Rightarrow> (u64 \<times> u64) res" where
  "merged_limits hash_id i [] first_min last_max = Ok (first_min, last_max)"
| "merged_limits hash_id i (r # rs) first_min last_max =
     (let mn = reftable_reader_min_update_index r; mx = reftable_reader_max_update_index r in
      if reftable_reader_hash_id r \<noteq> hash_id then Err FORMAT_ERROR
      else merged_limits hash_id (Suc i) rs
        (if i = 0 \<or> mn < first_min then mn else first_min)
        (if i = 0 \<or> mx > last_max then mx else last_max))"

definition reftable_merged_table_new :: "reftable_reader list \<Rightarrow> reftable_hash \<Rightarrow> reftable_merged_table res" where
  "reftable_merged_table_new readers hash_id =
     res_bind (merged_limits hash_id 0 readers 0 0) (\<lambda>(first_min, last_max).
       Ok \<lparr>mt_readers = readers, mt_hash_id = hash_id, mt_suppress_deletions = False,
           mt_min = first_min, mt_max = last_max\<rparr>)"

definition reftable_merged_table_max_update_index :: "reftable_merged_table \<Rightarrow> u64" where
  "reftable_merged_table_max_update_index mt = mt_max mt"

definition reftable_merged_table_min_update_index :: "reftable_merged_table \<Rightarrow> u64" where
  "reftable_merged_table_min_update_index mt = mt_min mt"

fun init_subiters :: "byte \<Rightarrow> reftable_reader list \<Rightarrow> (reader_iter \<times> reftable_record) list res" where
  "init_subiters typ [] = Ok []"
| "init_subiters typ (r # rs) =
     res_bind (reftable_record_init typ) (\<lambda>rec.
     res_bind (reader_init_iter r typ) (\<lambda>it.
     res_bind (init_subiters typ rs) (\<lambda>subs. Ok ((it, rec) # subs))))"

definition merged_table_init_iter :: "reftable_merged_table \<Rightarrow> byte \<Rightarrow> reader_iter merged_iter res" where
  "merged_table_init_iter mt typ =
     res_bind (init_subiters typ (mt_readers mt)) (\<lambda>subs.
       Ok \<lparr>mi_subiters = subs, mi_pq = [], mi_suppress_deletions = mt_suppress_deletions mt,
           mi_advance_index = None\<rparr>)"

definition reftable_merged_table_init_ref_iterator :: "reftable_merged_table \<Rightarrow> reader_iter merged_iter res" where
  "reftable_merged_table_init_ref_iterator mt = merged_table_init_iter mt BLOCK_TYPE_REF"

definition reftable_merged_table_init_log_iterator :: "reftable_merged_table \<Rightarrow> reader_iter merged_iter res" where
  "reftable_merged_table_init_log_iterator mt = merged_table_init_iter mt BLOCK_TYPE_LOG"

definition reftable_merged_table_hash_id :: "reftable_merged_table \<Rightarrow> reftable_hash" where
  "reftable_merged_table_hash_id mt = mt_hash_id mt"

section \<open>What merging means\<close>

text \<open>
  The tables are lists of records, the newest last, each sorted by strictly ascending keys. The
  merged list takes the smallest of the first keys, from the newest table that has it, and passes
  over that key in all tables.
\<close>

definition least_head :: "reftable_env \<Rightarrow> reftable_record list list \<Rightarrow> bytes" where
  "least_head E ls = Min (set (map (\<lambda>l. key_of E (hd l)) (filter (\<lambda>l. l \<noteq> []) ls)))"

definition newest_head :: "reftable_env \<Rightarrow> reftable_record list list \<Rightarrow> bytes \<Rightarrow> reftable_record" where
  "newest_head E ls k = hd (last (filter (\<lambda>l. l \<noteq> [] \<and> key_of E (hd l) = k) ls))"

definition pass_key :: "reftable_env \<Rightarrow> bytes \<Rightarrow> reftable_record list list \<Rightarrow> reftable_record list list" where
  "pass_key E k ls = map (dropWhile (\<lambda>r. key_of E r \<le> k)) ls"

lemma least_head_least:
  assumes "l \<in> set ls" "l \<noteq> []"
  shows "least_head E ls \<le> key_of E (hd l)"
  using assms by (auto simp: least_head_def intro!: Min_le)

lemma least_head_in:
  assumes "\<exists>l \<in> set ls. l \<noteq> []"
  shows "\<exists>l \<in> set ls. l \<noteq> [] \<and> key_of E (hd l) = least_head E ls"
proof -
  have "least_head E ls \<in> set (map (\<lambda>l. key_of E (hd l)) (filter (\<lambda>l. l \<noteq> []) ls))"
    unfolding least_head_def using assms by (intro Min_in) (auto simp: filter_empty_conv)
  then show ?thesis by auto
qed

lemma pass_key_shrinks:
  assumes "\<exists>l \<in> set ls. l \<noteq> []"
  shows "sum_list (map length (pass_key E (least_head E ls) ls)) < sum_list (map length ls)"
proof -
  obtain l where l: "l \<in> set ls" "l \<noteq> []" "key_of E (hd l) = least_head E ls" using least_head_in [OF assms] by blast
  let ?f = "\<lambda>l. length (dropWhile (\<lambda>r. key_of E r \<le> least_head E ls) l)"
  have "sum_list (map ?f xs) \<le> sum_list (map length xs)" for xs
    by (induction xs) (auto intro: add_mono length_dropWhile_le)
  moreover obtain x t where "l = x # t" using l(2) by (cases l) auto
  then have "?f l < length l" using l(3) by (simp add: le_imp_less_Suc length_dropWhile_le)
  moreover obtain xs ys where "ls = xs @ l # ys" using l(1) by (meson split_list)
  ultimately show ?thesis by (simp add: pass_key_def o_def add_le_less_mono add_less_le_mono)
qed

function merge_all :: "reftable_env \<Rightarrow> reftable_record list list \<Rightarrow> reftable_record list" where
  "merge_all E ls =
     (if \<exists>l \<in> set ls. l \<noteq> [] then
        newest_head E ls (least_head E ls) # merge_all E (pass_key E (least_head E ls) ls)
      else [])"
  by pat_completeness auto
termination
  by (relation "measure (\<lambda>(E, ls). sum_list (map length ls))") (auto intro: pass_key_shrinks)

declare merge_all.simps [simp del]

lemma newest_head_index:
  assumes "m < length ls" "ls ! m \<noteq> []" "key_of E (hd (ls ! m)) = k"
    and "\<forall>j. m < j \<longrightarrow> j < length ls \<longrightarrow> ls ! j \<noteq> [] \<longrightarrow> key_of E (hd (ls ! j)) \<noteq> k"
  shows "newest_head E ls k = hd (ls ! m)"
proof -
  let ?P = "\<lambda>l. l \<noteq> [] \<and> key_of E (hd l) = k"
  have "\<not> ?P (drop (Suc m) ls ! i)" if "i < length (drop (Suc m) ls)" for i
  proof -
    have "Suc m + i < length ls" using that by simp
    then show ?thesis using assms(4) [rule_format, of "Suc m + i"] by auto
  qed
  then have "filter ?P (drop (Suc m) ls) = []"
    unfolding filter_empty_conv by (metis in_set_conv_nth)
  then have "filter ?P (take m ls @ ls ! m # drop (Suc m) ls) = filter ?P (take m ls) @ [ls ! m]"
    using assms(2,3) by simp
  then show ?thesis
    unfolding newest_head_def using id_take_nth_drop [OF assms(1)] by simp
qed

lemma merge_all_step:
  assumes "m < length ls" "ls ! m \<noteq> []"
    and "\<forall>j < length ls. ls ! j \<noteq> [] \<longrightarrow>
      key_of E (hd (ls ! m)) < key_of E (hd (ls ! j)) \<or> key_of E (hd (ls ! m)) = key_of E (hd (ls ! j)) \<and> j \<le> m"
  shows "merge_all E ls = hd (ls ! m) # merge_all E (pass_key E (key_of E (hd (ls ! m))) ls)"
proof -
  have ex: "\<exists>l \<in> set ls. l \<noteq> []" using assms(1,2) nth_mem by blast
  have "least_head E ls = key_of E (hd (ls ! m))"
  proof (rule antisym)
    show "least_head E ls \<le> key_of E (hd (ls ! m))" using assms(1,2) by (intro least_head_least) simp_all
    from least_head_in [OF ex, of E] obtain j where "j < length ls" "ls ! j \<noteq> []" "key_of E (hd (ls ! j)) = least_head E ls"
      by (auto simp: in_set_conv_nth)
    then show "key_of E (hd (ls ! m)) \<le> least_head E ls" using assms(3) by (metis less_imp_le order_refl)
  qed
  moreover have "newest_head E ls (key_of E (hd (ls ! m))) = hd (ls ! m)"
    using assms by (intro newest_head_index) (auto dest: leD)
  ultimately show ?thesis using ex by (simp add: merge_all.simps [of E ls])
qed

section \<open>The state of a merged iterator\<close>

text \<open>
  The state shows the lists \<open>ls\<close>: the first record of each list is in the queue, except for the
  sub-iterators in \<open>A\<close>, which have not been asked for their next record yet. A sub-iterator whose
  list is empty is not asked any more.
\<close>

definition queued :: "reftable_record list list \<Rightarrow> nat set \<Rightarrow> nat set" where
  "queued ls A = {i. i < length ls \<and> ls ! i \<noteq> [] \<and> i \<notin> A}"

definition head_entries :: "reftable_record list list \<Rightarrow> nat set \<Rightarrow> pq_entry multiset" where
  "head_entries ls A = image_mset (\<lambda>i. \<lparr>pq_index = i, pq_rec = hd (ls ! i)\<rparr>) (mset_set (queued ls A))"

definition lists_ok :: "reftable_env \<Rightarrow> byte \<Rightarrow> nat \<Rightarrow> reftable_record list list \<Rightarrow> bool" where
  "lists_ok E ty len ls \<longleftrightarrow> be64_ok E \<and>
     (\<forall>l \<in> set ls. sorted_wrt (<) (map (key_of E) l) \<and> (\<forall>r \<in> set l. cmp_ok ty len r))"

definition mi_inv ::
  "reftable_env \<Rightarrow> ('i \<Rightarrow> reftable_record list \<Rightarrow> bool) \<Rightarrow> byte \<Rightarrow> nat \<Rightarrow> 'i merged_iter \<Rightarrow> nat set
   \<Rightarrow> reftable_record list list \<Rightarrow> bool" where
  "mi_inv E rep ty len mi A ls \<longleftrightarrow>
     length (mi_subiters mi) = length ls
     \<and> (\<forall>i < length ls. (i \<in> A \<or> ls ! i \<noteq> [] \<longrightarrow> rep (fst (mi_subiters mi ! i)) (if i \<in> A then ls ! i else tl (ls ! i)))
          \<and> reftable_record_type (snd (mi_subiters mi ! i)) = ty)
     \<and> mset (mi_pq mi) = head_entries ls A \<and> pq.heap E ty len (mi_pq mi) \<and> lists_ok E ty len ls"

lemma finite_queued [simp]: "finite (queued ls A)"
  by (simp add: queued_def)

lemma queued_diff:
  "a \<in> A \<Longrightarrow> a < length ls \<Longrightarrow> queued ls (A - {a}) = (if ls ! a = [] then queued ls A else insert a (queued ls A))"
  by (auto simp: queued_def)

lemma head_entries_diff:
  assumes "a \<in> A" "a < length ls" "ls ! a = r # rs"
  shows "head_entries ls (A - {a}) = add_mset \<lparr>pq_index = a, pq_rec = r\<rparr> (head_entries ls A)"
proof -
  have "a \<notin> queued ls A" using assms(1) by (simp add: queued_def)
  with assms show ?thesis by (simp add: head_entries_def queued_diff)
qed

lemma head_entries_take:
  assumes "i \<in> queued ls A"
  shows "head_entries ls A = add_mset \<lparr>pq_index = i, pq_rec = hd (ls ! i)\<rparr> (head_entries (ls[i := tl (ls ! i)]) (insert i A))"
proof -
  let ?ls = "ls[i := tl (ls ! i)]"
  have q: "queued ls A = insert i (queued ?ls (insert i A))" "i \<notin> queued ?ls (insert i A)"
    using assms by (auto simp: queued_def nth_list_update)
  have "head_entries ?ls (insert i A) =
      image_mset (\<lambda>j. \<lparr>pq_index = j, pq_rec = hd (ls ! j)\<rparr>) (mset_set (queued ?ls (insert i A)))"
    unfolding head_entries_def by (rule image_mset_cong) (auto simp: queued_def nth_list_update)
  then show ?thesis unfolding head_entries_def q(1) using q(2) by simp
qed

lemma in_head_entries:
  "e \<in># head_entries ls A \<longleftrightarrow> pq_index e \<in> queued ls A \<and> pq_rec e = hd (ls ! pq_index e)"
  by (cases e) (auto simp: head_entries_def)

lemma cmp_ok_type: "cmp_ok ty len r \<Longrightarrow> reftable_record_type r = ty"
  by (cases r) auto

lemma lists_ok_update: "lists_ok E ty len ls \<Longrightarrow> i < length ls \<Longrightarrow> lists_ok E ty len (ls[i := tl (ls ! i)])"
proof -
  assume ok: "lists_ok E ty len ls" and i: "i < length ls"
  have l: "ls ! i \<in> set ls" using i by simp
  have "sorted_wrt (<) (map (key_of E) (ls ! i))" "\<forall>r \<in> set (ls ! i). cmp_ok ty len r"
    using ok l by (auto simp: lists_ok_def)
  then have "sorted_wrt (<) (map (key_of E) (tl (ls ! i)))" "\<forall>r \<in> set (tl (ls ! i)). cmp_ok ty len r"
    by (cases "ls ! i"; auto)+
  then show ?thesis
    using ok set_update_subset_insert [of ls i "tl (ls ! i)"] by (fastforce simp: lists_ok_def)
qed

lemma pass_key_nth: "i < length ls \<Longrightarrow> pass_key E k ls ! i = dropWhile (\<lambda>r. key_of E r \<le> k) (ls ! i)"
  by (simp add: pass_key_def)

text \<open>Passing a key changes nothing when all first keys are beyond it.\<close>

lemma pass_key_beyond:
  assumes "\<forall>i < length ls. ls ! i \<noteq> [] \<longrightarrow> k < key_of E (hd (ls ! i))"
  shows "pass_key E k ls = ls"
proof (rule nth_equalityI)
  fix i assume "i < length (pass_key E k ls)"
  then have "i < length ls" by (simp add: pass_key_def)
  then show "pass_key E k ls ! i = ls ! i"
    using assms by (cases "ls ! i") (auto simp: pass_key_nth)
qed (simp add: pass_key_def)

lemma pass_key_update:
  assumes "i < length ls" "ls ! i = r # rs" "key_of E r \<le> k"
  shows "pass_key E k (ls[i := rs]) = pass_key E k ls"
  using assms by (intro nth_equalityI) (auto simp: pass_key_def nth_list_update)

lemma mi_invD:
  assumes "mi_inv E rep ty len mi A ls"
  shows "length (mi_subiters mi) = length ls"
    and "\<And>i. i < length ls \<Longrightarrow> i \<in> A \<Longrightarrow> rep (fst (mi_subiters mi ! i)) (ls ! i)"
    and "\<And>i. i < length ls \<Longrightarrow> i \<notin> A \<Longrightarrow> ls ! i \<noteq> [] \<Longrightarrow> rep (fst (mi_subiters mi ! i)) (tl (ls ! i))"
    and "\<And>i. i < length ls \<Longrightarrow> reftable_record_type (snd (mi_subiters mi ! i)) = ty"
    and "mset (mi_pq mi) = head_entries ls A" and "pq.heap E ty len (mi_pq mi)" and "lists_ok E ty len ls"
  using assms unfolding mi_inv_def by (metis, metis, metis, metis, metis, metis, metis)

lemma mi_inv_advance:
  assumes it: "listed_iter ops rep ty" and inv: "mi_inv E rep ty len mi A ls" and a: "a \<in> A" "a < length ls"
  shows "\<exists>mi'. merged_iter_advance_subiter ops mi a = Some (Ok (mi', ls ! a \<noteq> []))
    \<and> mi_inv E rep ty len mi' (A - {a}) ls \<and> mi_advance_index mi' = mi_advance_index mi
    \<and> mi_suppress_deletions mi' = mi_suppress_deletions mi"
proof -
  obtain t rec where sub: "mi_subiters mi ! a = (t, rec)" by (cases "mi_subiters mi ! a")
  note len = mi_invD(1) [OF inv] and others = mi_invD(2-4) [OF inv] and heap = mi_invD(5,6) [OF inv]
    and ok = mi_invD(7) [OF inv]
  have rep: "rep t (ls ! a)" and ty: "reftable_record_type rec = ty"
    using others(1) [OF a(2,1)] others(3) [OF a(2)] by (simp_all add: sub)
  show ?thesis
  proof (cases "ls ! a")
    case Nil
    with listed_iter.next_end [OF it, of t rec] rep ty obtain t' where
      t': "op_next ops t rec = Some (Ok (t', None))" "rep t' []" by auto
    have "head_entries ls (A - {a}) = head_entries ls A"
      using a Nil by (simp add: head_entries_def queued_diff)
    then have "mi_inv E rep ty len (mi\<lparr>mi_subiters := (mi_subiters mi)[a := (t', rec)]\<rparr>) (A - {a}) ls"
      using others heap ok t'(2) ty Nil a by (auto simp: mi_inv_def nth_list_update len)
    with t'(1) Nil a show ?thesis
      by (simp add: merged_iter_advance_subiter_def len sub iterator_next_def)
  next
    case (Cons r rs)
    with listed_iter.next_more [OF it, of t r rs rec] rep ty obtain t' where
      t': "op_next ops t rec = Some (Ok (t', Some r))" "rep t' rs" by auto
    let ?e = "\<lparr>pq_index = a, pq_rec = r\<rparr>"
    have r: "cmp_ok ty len r" "be64_ok E" using ok a(2) Cons unfolding lists_ok_def by (metis list.set_intros(1) nth_mem)+
    then have "pq_valid E ty len ?e" by (simp add: pq_valid_def)
    from pq.pqueue_add_heap [OF heap(2) this] obtain h where
      h: "merged_iter_pqueue_add (mi_pq mi) ?e = Ok h" "pq.heap E ty len h" "mset h = add_mset ?e (mset (mi_pq mi))"
      by (auto simp: merged_iter_pqueue_add_def)
    have "mi_inv E rep ty len (mi\<lparr>mi_subiters := (mi_subiters mi)[a := (t', r)], mi_pq := h\<rparr>) (A - {a}) ls"
      using others h heap ok t'(2) Cons a cmp_ok_type [OF r(1)]
      by (auto simp: mi_inv_def nth_list_update len head_entries_diff)
    with t'(1) h(1) Cons a show ?thesis
      by (simp add: merged_iter_advance_subiter_def len sub iterator_next_def)
  qed
qed

lemma mi_inv_remove:
  assumes inv: "mi_inv E rep ty len mi A ls" and ne: "mi_pq mi \<noteq> []"
  shows "\<exists>e pq. merged_iter_pqueue_remove (mi_pq mi) = Ok (e, pq) \<and> e = hd (mi_pq mi)
    \<and> pq_index e \<in> queued ls A \<and> pq_rec e = hd (ls ! pq_index e)
    \<and> mi_inv E rep ty len (mi\<lparr>mi_pq := pq\<rparr>) (insert (pq_index e) A) (ls[pq_index e := tl (ls ! pq_index e)])
    \<and> (\<forall>j \<in> queued ls A. key_of E (pq_rec e) < key_of E (hd (ls ! j))
          \<or> key_of E (pq_rec e) = key_of E (hd (ls ! j)) \<and> j \<le> pq_index e)"
proof -
  note len = mi_invD(1) [OF inv] and others = mi_invD(2-4) [OF inv] and heap = mi_invD(5,6) [OF inv]
    and ok = mi_invD(7) [OF inv]
  from pq.pqueue_remove_heap [OF heap(2) ne] obtain e h where
    h: "pqueue_remove pq_less (mi_pq mi) = Ok (e, h)" "pq.heap E ty len h" "mset (mi_pq mi) = add_mset e (mset h)"
    "\<forall>x \<in> set (mi_pq mi). pq_rank E e \<le> pq_rank E x" by blast
  have "e \<in># head_entries ls A" using h(3) heap(1) by (metis union_single_eq_member)
  then have e: "pq_index e \<in> queued ls A" "pq_rec e = hd (ls ! pq_index e)" by (simp_all add: in_head_entries)
  then have eq: "\<lparr>pq_index = pq_index e, pq_rec = hd (ls ! pq_index e)\<rparr> = e" and il: "pq_index e < length ls"
    by (cases e, simp_all add: queued_def)
  let ?ls = "ls[pq_index e := tl (ls ! pq_index e)]"
  have "mset h = head_entries ?ls (insert (pq_index e) A)"
    using head_entries_take [OF e(1)] h(3) heap(1) eq by simp
  then have "mi_inv E rep ty len (mi\<lparr>mi_pq := h\<rparr>) (insert (pq_index e) A) ?ls"
    using others h(2) lists_ok_update [OF ok il] e(1) by (auto simp: mi_inv_def nth_list_update len queued_def)
  moreover have "key_of E (pq_rec e) < key_of E (hd (ls ! j)) \<or> key_of E (pq_rec e) = key_of E (hd (ls ! j)) \<and> j \<le> pq_index e"
    if "j \<in> queued ls A" for j
  proof -
    have "\<lparr>pq_index = j, pq_rec = hd (ls ! j)\<rparr> \<in># head_entries ls A" using that by (simp add: in_head_entries)
    then have "\<lparr>pq_index = j, pq_rec = hd (ls ! j)\<rparr> \<in> set (mi_pq mi)" using heap(1) by (metis set_mset_mset)
    with h(4) show ?thesis by (fastforce simp: pq_rank_def less_eq_prod_def)
  qed
  moreover have "e = hd (mi_pq mi)" using h(1) ne by (cases "mi_pq mi") (auto simp: pqueue_remove_def res_bind_eq_Ok)
  ultimately show ?thesis using h(1) e by (auto simp: merged_iter_pqueue_remove_def)
qed

section \<open>Taking the next entry\<close>

lemma queue_empty_iff: "mi_inv E rep ty len mi A ls \<Longrightarrow> mi_pq mi = [] \<longleftrightarrow> queued ls A = {}"
  using mi_invD(5) [of E rep ty len mi A ls] by (auto simp: head_entries_def mset_set_empty_iff)

lemma record_cmp_greater:
  assumes "be64_ok E" "cmp_ok ty len a" "cmp_ok ty len b"
  obtains c where "reftable_record_cmp a b = Ok c" "c > 0 \<longleftrightarrow> key_of E b < key_of E a"
proof -
  from record_cmp_sign [OF assms] obtain c where c: "reftable_record_cmp a b = Ok c" "sgn c = order_sign (key_of E a) (key_of E b)"
    by blast
  then have "c > 0 \<longleftrightarrow> key_of E b < key_of E a" using order_sign_simps(4) [of "key_of E a" "key_of E b"] by (metis sgn_greater)
  with c(1) that show thesis by blast
qed

lemma lists_ok_head:
  assumes "lists_ok E ty len ls" "i < length ls" "ls ! i = r # rs"
  shows "cmp_ok ty len r" "be64_ok E" "\<forall>x \<in> set rs. key_of E r < key_of E x"
  using assms nth_mem [OF assms(2)] by (auto simp: lists_ok_def)

lemma merged_iter_skip_pass:
  assumes it: "listed_iter ops rep ty" and "mi_inv E rep ty len mi {m} ls" and m: "m < length ls"
    and entry: "cmp_ok ty len (pq_rec entry)" "key_of E (pq_rec entry) = k"
    and "\<forall>r \<in> set (ls ! m). k < key_of E r" "\<forall>j \<in> queued ls {m}. k \<le> key_of E (hd (ls ! j))"
  shows "\<exists>mi'. merged_iter_skip ops mi entry = Some (Ok mi') \<and> mi_inv E rep ty len mi' {m} (pass_key E k ls)
    \<and> mi_suppress_deletions mi' = mi_suppress_deletions mi"
  using assms(2,3,6,7)
proof (induction "sum_list (map length ls)" arbitrary: mi ls rule: less_induct)
  case less
  note inv = less.prems(1)
  show ?case
  proof (cases "mi_pq mi")
    case Nil
    then have "queued ls {m} = {}" using queue_empty_iff [OF inv] by simp
    then have "pass_key E k ls = ls"
      using less.prems(3) by (intro pass_key_beyond) (auto simp: queued_def)
    with Nil inv show ?thesis by (auto simp: merged_iter_skip.simps [of ops mi])
  next
    case (Cons e0 h0)
    from mi_inv_remove [OF inv] Cons obtain e pq where
      e: "merged_iter_pqueue_remove (mi_pq mi) = Ok (e, pq)" "e = e0" "pq_index e \<in> queued ls {m}"
      "pq_rec e = hd (ls ! pq_index e)"
      "mi_inv E rep ty len (mi\<lparr>mi_pq := pq\<rparr>) (insert (pq_index e) {m}) (ls[pq_index e := tl (ls ! pq_index e)])"
      "\<forall>j \<in> queued ls {m}. key_of E (pq_rec e) < key_of E (hd (ls ! j))
          \<or> key_of E (pq_rec e) = key_of E (hd (ls ! j)) \<and> j \<le> pq_index e" by auto
    define i where "i = pq_index e"
    have i: "i < length ls" "ls ! i \<noteq> []" "i \<noteq> m" using e(3) by (auto simp: queued_def i_def)
    obtain r rs where rs: "ls ! i = r # rs" using i(2) by (cases "ls ! i") auto
    note head = lists_ok_head [OF mi_invD(7) [OF inv] i(1) rs]
    have er: "pq_rec e = r" using e(4) rs by (simp add: i_def)
    obtain c where c: "reftable_record_cmp r (pq_rec entry) = Ok c" "c > 0 \<longleftrightarrow> k < key_of E r"
      using record_cmp_greater [OF head(2,1) entry(1)] entry(2) by metis
    show ?thesis
    proof (cases "k < key_of E r")
      case True
      have "merged_iter_skip ops mi entry = Some (Ok mi)"
        using Cons c True er e(2) by (simp add: merged_iter_skip.simps [of ops mi])
      moreover have "pass_key E k ls = ls"
      proof (rule pass_key_beyond, intro allI impI)
        fix j assume j: "j < length ls" "ls ! j \<noteq> []"
        show "k < key_of E (hd (ls ! j))"
        proof (cases "j = m")
          case False
          then have "j \<in> queued ls {m}" using j by (simp add: queued_def)
          then have "key_of E r \<le> key_of E (hd (ls ! j))" using e(6) er by auto
          with True show ?thesis by simp
        qed (use j less.prems(3) in simp)
      qed
      ultimately show ?thesis using inv by auto
    next
      case False
      let ?ls = "ls[i := rs]"
      have kr: "key_of E r = k" using False less.prems(4) e(3) er e(4) by (auto simp: i_def intro: antisym)
      have inv1: "mi_inv E rep ty len (mi\<lparr>mi_pq := pq\<rparr>) (insert i {m}) ?ls" using e(5) rs by (simp add: i_def)
      from mi_inv_advance [OF it inv1, of i] i obtain mi2 where
        mi2: "merged_iter_advance_subiter ops (mi\<lparr>mi_pq := pq\<rparr>) i = Some (Ok (mi2, ?ls ! i \<noteq> []))"
        "mi_inv E rep ty len mi2 {m} ?ls" "mi_suppress_deletions mi2 = mi_suppress_deletions mi"
        by (auto simp: insert_Diff_if)
      have step: "merged_iter_skip ops mi entry = merged_iter_skip ops mi2 entry"
        using Cons c False er e(1,2) mi2(1) by (simp add: merged_iter_skip.simps [of ops mi] i_def)
      have sum: "sum_list (map length ?ls) < sum_list (map length ls)"
        using i(1) rs elem_le_sum_list [of i "map length ls"] by (simp add: map_update sum_list_update)
      have m': "?ls ! m = ls ! m" using i(3) by simp
      have "k \<le> key_of E (hd (?ls ! j))" if "j \<in> queued ?ls {m}" for j
      proof (cases "j = i")
        case True
        then show ?thesis using that head(3) kr i(1) by (cases rs) (auto simp: queued_def)
      next
        case False
        then show ?thesis using that less.prems(4) by (auto simp: queued_def)
      qed
      from less.hyps [OF sum mi2(2)] this m' less.prems(2,3) mi2(3) pass_key_update [OF i(1) rs, of E k] kr step
      show ?thesis by simp
    qed
  qed
qed

lemma merged_iter_pop_rep:
  assumes it: "listed_iter ops rep ty" and inv: "mi_inv E rep ty len mi {} ls" and rec: "reftable_record_type rec = ty"
  shows "\<exists>mi' r. merged_iter_pop ops mi rec = Some (Ok (mi', r)) \<and> mi_suppress_deletions mi' = mi_suppress_deletions mi
    \<and> (case r of
         None \<Rightarrow> mi' = mi \<and> merge_all E ls = []
       | Some r \<Rightarrow> \<exists>m ls'. m < length ls' \<and> mi_advance_index mi' = Some m \<and> mi_inv E rep ty len mi' {m} ls'
           \<and> merge_all E ls = r # merge_all E ls')"
proof (cases "mi_pq mi = []")
  case True
  then have "queued ls {} = {}" using queue_empty_iff [OF inv] by simp
  then have "\<not> (\<exists>l \<in> set ls. l \<noteq> [])" by (auto simp: queued_def in_set_conv_nth)
  then have "merge_all E ls = []" by (simp add: merge_all.simps [of E ls])
  with True show ?thesis by (simp add: merged_iter_pop_def)
next
  case False
  from mi_inv_remove [OF inv False] obtain e pq where
    e: "merged_iter_pqueue_remove (mi_pq mi) = Ok (e, pq)" "pq_index e \<in> queued ls {}" "pq_rec e = hd (ls ! pq_index e)"
    "mi_inv E rep ty len (mi\<lparr>mi_pq := pq\<rparr>) {pq_index e} (ls[pq_index e := tl (ls ! pq_index e)])"
    "\<forall>j \<in> queued ls {}. key_of E (pq_rec e) < key_of E (hd (ls ! j))
        \<or> key_of E (pq_rec e) = key_of E (hd (ls ! j)) \<and> j \<le> pq_index e" by auto
  define m where "m = pq_index e"
  have m: "m < length ls" "ls ! m \<noteq> []" using e(2) by (auto simp: queued_def m_def)
  obtain r rs where rs: "ls ! m = r # rs" using m(2) by (cases "ls ! m") auto
  note head = lists_ok_head [OF mi_invD(7) [OF inv] m(1) rs]
  have er: "pq_rec e = r" using e(3) rs by (simp add: m_def)
  let ?ls = "ls[m := rs]" and ?k = "key_of E r"
  have inv1: "mi_inv E rep ty len (mi\<lparr>mi_pq := pq\<rparr>) {m} ?ls" using e(4) rs by (simp add: m_def)
  have above: "\<forall>j \<in> queued ?ls {m}. ?k \<le> key_of E (hd (?ls ! j))"
  proof
    fix j assume "j \<in> queued ?ls {m}"
    then have "j \<in> queued ls {}" "j \<noteq> m" by (auto simp: queued_def)
    with e(5) er show "?k \<le> key_of E (hd (?ls ! j))" by auto
  qed
  from merged_iter_skip_pass [OF it inv1 _ _ _ _ above, of e] head m er obtain mi2 where
    mi2: "merged_iter_skip ops (mi\<lparr>mi_pq := pq\<rparr>) e = Some (Ok mi2)"
    "mi_inv E rep ty len mi2 {m} (pass_key E ?k ?ls)" "mi_suppress_deletions mi2 = mi_suppress_deletions mi" by auto
  let ?mi = "mi2\<lparr>mi_advance_index := Some m, mi_subiters := (mi_subiters mi2)[m := (fst (mi_subiters mi2 ! m), rec)]\<rparr>"
  have pk: "pass_key E ?k ?ls = pass_key E ?k ls" by (rule pass_key_update [OF m(1) rs]) simp
  have "mi_inv E rep ty len ?mi {m} (pass_key E ?k ls)"
    using mi2(2) rec unfolding pk by (auto simp: mi_inv_def nth_list_update)
  moreover have "merge_all E ls = r # merge_all E (pass_key E ?k ls)"
    using merge_all_step [OF m, of E] e(5) er rs by (simp add: queued_def m_def)
  moreover have "m < length (pass_key E ?k ls)" using m(1) by (simp add: pass_key_def)
  ultimately show ?thesis
    using False e(1) mi2 er
    by (intro exI [of _ ?mi] exI [of _ "Some r"]) (auto simp: merged_iter_pop_def m_def [symmetric])
qed

section \<open>The merged iterator shows the merged list\<close>

definition mi_entries ::
  "reftable_env \<Rightarrow> ('i \<Rightarrow> reftable_record list \<Rightarrow> bool) \<Rightarrow> byte \<Rightarrow> nat \<Rightarrow> 'i merged_iter \<Rightarrow> reftable_record list \<Rightarrow> bool" where
  "mi_entries E rep ty len mi l \<longleftrightarrow>
     (\<exists>ls. l = merge_all E ls \<and>
       (case mi_advance_index mi of
          None \<Rightarrow> mi_inv E rep ty len mi {} ls
        | Some a \<Rightarrow> a < length ls \<and> mi_inv E rep ty len mi {a} ls))"

lemma merge_all_single:
  assumes "a < length ls" "\<forall>i < length ls. i \<noteq> a \<longrightarrow> ls ! i = []" "sorted_wrt (<) (map (key_of E) (ls ! a))"
  shows "merge_all E ls = ls ! a"
  using assms
proof (induction "ls ! a" arbitrary: ls)
  case Nil
  then have "\<not> (\<exists>l \<in> set ls. l \<noteq> [])" by (metis in_set_conv_nth)
  with Nil show ?case by (simp add: merge_all.simps [of E ls])
next
  case (Cons r rs)
  let ?k = "key_of E r"
  have rs: "dropWhile (\<lambda>x. key_of E x \<le> ?k) (ls ! a) = rs"
    using Cons.prems(3) unfolding Cons.hyps(2) [symmetric] by (cases rs) auto
  have pk: "pass_key E ?k ls = ls[a := rs]"
    using Cons.prems rs by (intro nth_equalityI) (auto simp: pass_key_def nth_list_update)
  have "merge_all E ls = r # merge_all E (ls[a := rs])"
    using merge_all_step [of a ls E] Cons.prems Cons.hyps(2) [symmetric] pk by force
  also have "merge_all E (ls[a := rs]) = rs"
    using Cons.hyps(1) [of "ls[a := rs]"] Cons.prems Cons.hyps(2) [symmetric] by simp
  finally show ?case using Cons.hyps(2) by simp
qed

lemma merged_iter_next_entry_rep:
  assumes it: "listed_iter ops rep ty" and rep: "mi_entries E rep ty len mi l" and rec: "reftable_record_type rec = ty"
  shows "\<exists>mi'. merged_iter_next_entry ops mi rec = Some (Ok (mi', case l of [] \<Rightarrow> None | r # _ \<Rightarrow> Some r))
    \<and> mi_entries E rep ty len mi' (tl l) \<and> mi_suppress_deletions mi' = mi_suppress_deletions mi"
proof -
  have pop: "\<exists>mi'. merged_iter_pop ops mi rec = Some (Ok (mi', case l of [] \<Rightarrow> None | r # _ \<Rightarrow> Some r))
      \<and> mi_entries E rep ty len mi' (tl l) \<and> mi_suppress_deletions mi' = mi_suppress_deletions mi"
    if inv: "mi_inv E rep ty len mi {} ls" "l = merge_all E ls" "mi_advance_index mi = None" for mi ls
  proof -
    from merged_iter_pop_rep [OF it inv(1) rec] obtain mi' r where
      p: "merged_iter_pop ops mi rec = Some (Ok (mi', r))" "mi_suppress_deletions mi' = mi_suppress_deletions mi"
      "case r of None \<Rightarrow> mi' = mi \<and> merge_all E ls = []
       | Some r \<Rightarrow> \<exists>m ls'. m < length ls' \<and> mi_advance_index mi' = Some m \<and> mi_inv E rep ty len mi' {m} ls'
           \<and> merge_all E ls = r # merge_all E ls'" by blast
    then show ?thesis
    proof (cases r)
      case None
      with p inv show ?thesis by (auto simp: mi_entries_def intro!: exI [of _ ls])
    next
      case (Some x)
      with p(3) obtain m ls' where "m < length ls'" "mi_advance_index mi' = Some m" "mi_inv E rep ty len mi' {m} ls'"
        "merge_all E ls = x # merge_all E ls'" by auto
      then have "mi_entries E rep ty len mi' (merge_all E ls')" by (auto simp: mi_entries_def)
      with p Some inv(2) \<open>merge_all E ls = x # merge_all E ls'\<close> show ?thesis by simp
    qed
  qed
  from rep obtain ls where l: "l = merge_all E ls"
    and st: "case mi_advance_index mi of None \<Rightarrow> mi_inv E rep ty len mi {} ls
      | Some a \<Rightarrow> a < length ls \<and> mi_inv E rep ty len mi {a} ls"
    unfolding mi_entries_def by blast
  show ?thesis
  proof (cases "mi_advance_index mi")
    case None
    with pop [OF _ l None] st show ?thesis by (simp add: merged_iter_next_entry_def)
  next
    case (Some a)
    with st have a: "a < length ls" and inv: "mi_inv E rep ty len mi {a} ls" by simp_all
    show ?thesis
    proof (cases "mi_pq mi = []")
      case False
      from mi_inv_advance [OF it inv _ a] obtain mi2 where
        mi2: "merged_iter_advance_subiter ops mi a = Some (Ok (mi2, ls ! a \<noteq> []))" "mi_inv E rep ty len mi2 {} ls"
        "mi_suppress_deletions mi2 = mi_suppress_deletions mi" by auto
      then have "mi_inv E rep ty len (mi2\<lparr>mi_advance_index := None\<rparr>) {} ls" by (simp add: mi_inv_def)
      from pop [OF this l] mi2 Some False show ?thesis by (simp add: merged_iter_next_entry_def)
    next
      case True
      then have q: "queued ls {a} = {}" using queue_empty_iff [OF inv] by simp
      then have others: "\<forall>i < length ls. i \<noteq> a \<longrightarrow> ls ! i = []" by (auto simp: queued_def)
      have sorted: "sorted_wrt (<) (map (key_of E) (ls ! a))"
        using mi_invD(7) [OF inv] a by (simp add: lists_ok_def)
      have la: "l = ls ! a" using merge_all_single [OF a others sorted] l by simp
      have ra: "rep (fst (mi_subiters mi ! a)) (ls ! a)" using mi_invD(2) [OF inv a] by simp
      let ?nx = "op_next ops (fst (mi_subiters mi ! a)) rec"
      obtain t where t: "?nx = Some (Ok (t, case l of [] \<Rightarrow> None | r # _ \<Rightarrow> Some r))" "rep t (tl l)"
        using listed_iter.next_end [OF it _ rec] listed_iter.next_more [OF it _ rec] ra
        by (cases l) (fastforce simp: la)+
      let ?mi = "mi\<lparr>mi_subiters := (mi_subiters mi)[a := (t, snd (mi_subiters mi ! a))]\<rparr>"
      let ?ls = "ls[a := tl (ls ! a)]"
      have "queued ?ls {a} = {}" using q by (auto simp: queued_def)
      then have "mi_inv E rep ty len ?mi {a} ?ls"
        using mi_invD [OF inv] t(2) la a q lists_ok_update [OF mi_invD(7) [OF inv] a]
        by (auto simp: mi_inv_def nth_list_update head_entries_def)
      moreover have "merge_all E ?ls = tl l"
      proof -
        have "sorted_wrt (<) (map (key_of E) (?ls ! a))" using sorted a by (cases "ls ! a") auto
        then show ?thesis using merge_all_single [of a ?ls E] others a la by simp
      qed
      ultimately have "mi_entries E rep ty len ?mi (tl l)"
        using Some a unfolding mi_entries_def by (intro exI [of _ ?ls]) simp
      with t(1) Some True show ?thesis by (simp add: merged_iter_next_entry_def iterator_next_def)
    qed
  qed
qed

text \<open>With the deletions left out, if the table asks for that.\<close>

definition mi_rep ::
  "reftable_env \<Rightarrow> ('i \<Rightarrow> reftable_record list \<Rightarrow> bool) \<Rightarrow> byte \<Rightarrow> nat \<Rightarrow> 'i merged_iter \<Rightarrow> reftable_record list \<Rightarrow> bool" where
  "mi_rep E rep ty len mi l \<longleftrightarrow>
     (\<exists>all. mi_entries E rep ty len mi all \<and>
       l = (if mi_suppress_deletions mi then filter (\<lambda>r. \<not> reftable_record_is_deletion r) all else all))"

lemma merge_all_set: "r \<in> set (merge_all E ls) \<Longrightarrow> \<exists>l \<in> set ls. r \<in> set l"
proof (induction E ls rule: merge_all.induct)
  case (1 E ls)
  show ?case
  proof (cases "\<exists>l \<in> set ls. l \<noteq> []")
    case True
    let ?k = "least_head E ls"
    let ?f = "filter (\<lambda>l. l \<noteq> [] \<and> key_of E (hd l) = ?k) ls"
    have "?f \<noteq> []" using least_head_in [OF True, of E] by (auto simp: filter_empty_conv)
    then have "last ?f \<in> set ?f" by (rule last_in_set)
    then have n: "\<exists>l \<in> set ls. newest_head E ls ?k \<in> set l"
      unfolding newest_head_def by (intro bexI [of _ "last ?f"]) (auto)
    from "1.prems" True consider "r = newest_head E ls ?k" | "r \<in> set (merge_all E (pass_key E ?k ls))"
      by (auto simp: merge_all.simps [of E ls])
    then show ?thesis
    proof cases
      case 2
      from "1.IH" [OF True 2] show ?thesis by (auto simp: pass_key_def dest: set_dropWhileD)
    qed (use n in simp)
  next
    case False
    with "1.prems" show ?thesis by (simp add: merge_all.simps [of E ls])
  qed
qed

lemma mi_entries_type:
  assumes "mi_entries E rep ty len mi l" "r \<in> set l"
  shows "reftable_record_type r = ty"
proof -
  from assms obtain ls A where ls: "l = merge_all E ls" "mi_inv E rep ty len mi A ls"
    by (auto simp: mi_entries_def split: option.splits)
  with merge_all_set assms(2) obtain x where "x \<in> set ls" "r \<in> set x" by blast
  with mi_invD(7) [OF ls(2)] show ?thesis by (auto simp: lists_ok_def intro: cmp_ok_type)
qed

lemma merged_iter_next_void_rep:
  assumes it: "listed_iter ops rep ty" and "mi_entries E rep ty len mi all" "reftable_record_type rec = ty"
  defines "f \<equiv> \<lambda>mi all. if mi_suppress_deletions mi then filter (\<lambda>r. \<not> reftable_record_is_deletion r) all else all"
  shows "\<exists>mi' all'. merged_iter_next_void ops mi rec =
      Some (Ok (mi', case f mi all of [] \<Rightarrow> None | r # _ \<Rightarrow> Some r))
    \<and> mi_entries E rep ty len mi' all' \<and> mi_suppress_deletions mi' = mi_suppress_deletions mi \<and> f mi all' = tl (f mi all)"
  using assms(2,3)
proof (induction all arbitrary: mi rec)
  case Nil
  from merged_iter_next_entry_rep [OF it Nil] obtain mi' where
    "merged_iter_next_entry ops mi rec = Some (Ok (mi', None))" "mi_entries E rep ty len mi' []"
    "mi_suppress_deletions mi' = mi_suppress_deletions mi" by auto
  then show ?case by (intro exI [of _ mi'] exI [of _ "[]"]) (simp add: merged_iter_next_void.simps [of ops mi] f_def)
next
  case (Cons r all)
  from merged_iter_next_entry_rep [OF it Cons.prems] obtain mi' where
    mi': "merged_iter_next_entry ops mi rec = Some (Ok (mi', Some r))" "mi_entries E rep ty len mi' all"
    "mi_suppress_deletions mi' = mi_suppress_deletions mi" by auto
  have ty: "reftable_record_type r = ty" using mi_entries_type [OF Cons.prems(1)] by simp
  show ?case
  proof (cases "mi_suppress_deletions mi \<and> reftable_record_is_deletion r")
    case True
    then have "merged_iter_next_void ops mi rec = merged_iter_next_void ops mi' r" "f mi (r # all) = f mi' all" "f mi = f mi'"
      using mi' by (auto simp: merged_iter_next_void.simps [of ops mi] f_def)
    with Cons.IH [OF mi'(2) ty] mi'(3) show ?thesis by simp
  next
    case False
    then have "merged_iter_next_void ops mi rec = Some (Ok (mi', Some r))" "f mi (r # all) = r # f mi all"
      using mi' by (auto simp: merged_iter_next_void.simps [of ops mi] f_def)
    with mi' show ?thesis by (intro exI [of _ mi'] exI [of _ all]) simp
  qed
qed

text \<open>A merged iterator keeps the contract of its sub-iterators.\<close>

lemma merged_listed_iter:
  assumes it: "listed_iter ops rep ty"
  shows "listed_iter (merged_iter_vtable ops) (mi_rep E rep ty len) ty"
proof
  fix mi :: "'a merged_iter" and rec r rs
  {
    fix l
    assume "mi_rep E rep ty len mi l" and rec: "reftable_record_type rec = ty"
    then obtain all where all: "mi_entries E rep ty len mi all"
      "l = (if mi_suppress_deletions mi then filter (\<lambda>r. \<not> reftable_record_is_deletion r) all else all)"
      by (auto simp: mi_rep_def)
    from merged_iter_next_void_rep [OF it all(1) rec] obtain mi' all' where
      n: "merged_iter_next_void ops mi rec = Some (Ok (mi', case l of [] \<Rightarrow> None | r # _ \<Rightarrow> Some r))"
      "mi_entries E rep ty len mi' all'" "mi_suppress_deletions mi' = mi_suppress_deletions mi"
      "(if mi_suppress_deletions mi then filter (\<lambda>r. \<not> reftable_record_is_deletion r) all' else all') = tl l"
      unfolding all(2) by blast
    then have "mi_rep E rep ty len mi' (tl l)"
      unfolding mi_rep_def n(3) by (intro exI [of _ all']) simp
    with n(1) have "\<exists>mi'. op_next (merged_iter_vtable ops) mi rec = Some (Ok (mi', case l of [] \<Rightarrow> None | r # _ \<Rightarrow> Some r))
        \<and> mi_rep E rep ty len mi' (tl l)"
      by (simp add: merged_iter_vtable_def)
  } note step = this
  show "\<exists>it'. op_next (merged_iter_vtable ops) mi rec = Some (Ok (it', None)) \<and> mi_rep E rep ty len it' []"
    if "mi_rep E rep ty len mi []" "reftable_record_type rec = ty"
    using step [of "[]"] that by simp
  show "\<exists>it'. op_next (merged_iter_vtable ops) mi rec = Some (Ok (it', Some r)) \<and> mi_rep E rep ty len it' rs"
    if "mi_rep E rep ty len mi (r # rs)" "reftable_record_type rec = ty"
    using step [of "r # rs"] that by simp
qed (auto simp: mi_rep_def dest: mi_entries_type split: if_splits)

end
