(* ===== verification/Reft_Merged_Seek.thy ===== *)
theory Reft_Merged_Seek
  imports Reft_Merged
begin

text \<open>
  Seeking in a merged table, and what its iterator lists: the merged list described by the records
  of the tables, from the wanted key on. The tables enter through the contract of iterators that
  can be sought, which the iterators of readers keep.
\<close>

section \<open>The merged list\<close>

text \<open>
  A record is in the merged list if it is in a table and no newer table has a record with its key.
  The merged list is sorted by strictly ascending keys, so that this describes it completely.
\<close>

definition newest :: "reftable_env \<Rightarrow> reftable_record list list \<Rightarrow> reftable_record \<Rightarrow> bool" where
  "newest E ls r \<longleftrightarrow> (\<exists>i < length ls. r \<in> set (ls ! i) \<and>
     (\<forall>j < length ls. i < j \<longrightarrow> key_of E r \<notin> key_of E ` set (ls ! j)))"

definition keys_sorted :: "reftable_env \<Rightarrow> reftable_record list list \<Rightarrow> bool" where
  "keys_sorted E ls \<longleftrightarrow> (\<forall>l \<in> set ls. sorted_wrt (<) (map (key_of E) l))"

lemma sorted_dropWhile_filter:
  fixes f :: "'a \<Rightarrow> 'b::linorder"
  assumes "sorted_wrt (<) (map f xs)" and "\<And>a b. a < b \<Longrightarrow> P b \<Longrightarrow> P a"
  shows "dropWhile (\<lambda>x. P (f x)) xs = filter (\<lambda>x. \<not> P (f x)) xs"
  using assms(1)
proof (induction xs)
  case (Cons x xs)
  show ?case
  proof (cases "P (f x)")
    case False
    then have "filter (\<lambda>x. \<not> P (f x)) xs = xs"
      using Cons.prems assms(2) by (intro filter_True) auto
    with False show ?thesis by simp
  qed (use Cons in simp)
qed simp

lemmas sorted_pass = sorted_dropWhile_filter [where P = "\<lambda>a. a \<le> k" for k, unfolded not_le]
  and sorted_seek = sorted_dropWhile_filter [where P = "\<lambda>a. a < k" for k, unfolded not_less]

lemma pass_key_filter:
  assumes "keys_sorted E ls"
  shows "pass_key E k ls = map (filter (\<lambda>r. k < key_of E r)) ls"
  using assms by (auto simp: pass_key_def keys_sorted_def intro!: sorted_pass)

lemma keys_sorted_filter: "keys_sorted E ls \<Longrightarrow> keys_sorted E (map (filter P) ls)"
  by (auto simp: keys_sorted_def sorted_wrt_map intro: sorted_wrt_filter)

lemma newest_filter: "newest E (map (filter (\<lambda>r. P (key_of E r))) ls) r \<longleftrightarrow> P (key_of E r) \<and> newest E ls r"
proof -
  have eq: "key_of E r \<in> key_of E ` {x \<in> set l. P (key_of E x)} \<longleftrightarrow> P (key_of E r) \<and> key_of E r \<in> key_of E ` set l" for l
    by (auto simp: image_iff)
  show ?thesis
  proof (cases "P (key_of E r)")
    case True
    then have "newest E (map (filter (\<lambda>r. P (key_of E r))) ls) r \<longleftrightarrow> newest E ls r"
      unfolding newest_def length_map by (intro ex_cong1) (simp add: eq cong: conj_cong)
    with True show ?thesis by simp
  qed (auto simp: newest_def)
qed

lemma least_head_all:
  assumes "keys_sorted E ls" "l \<in> set ls" "r \<in> set l"
  shows "least_head E ls \<le> key_of E r"
proof -
  obtain x xs where l: "l = x # xs" using assms(3) by (cases l) auto
  have "least_head E ls \<le> key_of E x" using least_head_least [OF assms(2), of E] l by simp
  moreover have "key_of E x \<le> key_of E r" using assms l by (fastforce simp: keys_sorted_def)
  ultimately show ?thesis by (rule order_trans)
qed

lemma newest_least:
  assumes sorted: "keys_sorted E ls" and ex: "\<exists>l \<in> set ls. l \<noteq> []"
  shows "newest E ls r \<and> key_of E r = least_head E ls \<longleftrightarrow> r = newest_head E ls (least_head E ls)"
proof -
  let ?k = "least_head E ls"
  let ?P = "\<lambda>i. i < length ls \<and> ls ! i \<noteq> [] \<and> key_of E (hd (ls ! i)) = ?k"
  define m where "m = (GREATEST i. ?P i)"
  obtain i where i: "?P i" using least_head_in [OF ex, of E] by (metis in_set_conv_nth)
  have bound: "\<And>j. ?P j \<Longrightarrow> j \<le> length ls" by simp
  have m: "?P m" unfolding m_def using GreatestI_nat [of ?P, OF i bound] by blast
  have top: "j \<le> m" if "?P j" for j unfolding m_def using Greatest_le_nat [of ?P, OF that bound] by blast
  have head: "?P j \<and> x = hd (ls ! j)" if j: "j < length ls" "x \<in> set (ls ! j)" "key_of E x = ?k" for j x
  proof -
    obtain y ys where l: "ls ! j = y # ys" using j(2) by (cases "ls ! j") auto
    have "?k \<le> key_of E y" using least_head_all [OF sorted nth_mem [OF j(1)], of y] l by simp
    moreover have "\<forall>z \<in> set ys. key_of E y < key_of E z" using sorted nth_mem [OF j(1)] l by (auto simp: keys_sorted_def)
    ultimately show ?thesis using j l by fastforce
  qed
  have nh: "newest_head E ls ?k = hd (ls ! m)"
    using m top by (intro newest_head_index) (auto dest: leD)
  have "key_of E (hd (ls ! m)) \<notin> key_of E ` set (ls ! j)" if j: "j < length ls" "m < j" for j
  proof
    assume "key_of E (hd (ls ! m)) \<in> key_of E ` set (ls ! j)"
    then obtain x where "x \<in> set (ls ! j)" "key_of E x = ?k" using m by auto
    with head [OF j(1)] top [of j] j(2) show False by auto
  qed
  then have new: "newest E ls (hd (ls ! m))" using m unfolding newest_def by (intro exI [of _ m]) simp
  have only: "r = hd (ls ! m)" if r: "newest E ls r" "key_of E r = ?k"
  proof -
    from r obtain j where j: "j < length ls" "r \<in> set (ls ! j)" "\<forall>j' < length ls. j < j' \<longrightarrow> ?k \<notin> key_of E ` set (ls ! j')"
      unfolding newest_def by auto
    from head [OF j(1,2) r(2)] have "?P j" "r = hd (ls ! j)" by auto
    moreover have "?k \<in> key_of E ` set (ls ! m)" using m by (intro image_eqI [of _ _ "hd (ls ! m)"]) simp_all
    then have "\<not> j < m" using j(3) m by blast
    ultimately show ?thesis using top [of j] by simp
  qed
  from m have "key_of E (hd (ls ! m)) = ?k" by simp
  with new only show ?thesis unfolding nh by blast
qed

lemma newest_in: "newest E ls r \<Longrightarrow> \<exists>l \<in> set ls. r \<in> set l"
  by (auto simp: newest_def)

lemma merge_all_newest: "keys_sorted E ls \<Longrightarrow> r \<in> set (merge_all E ls) \<longleftrightarrow> newest E ls r"
proof (induction E ls rule: merge_all.induct)
  case (1 E ls)
  let ?k = "least_head E ls"
  show ?case
  proof (cases "\<exists>l \<in> set ls. l \<noteq> []")
    case True
    have pass: "pass_key E ?k ls = map (filter (\<lambda>r. ?k < key_of E r)) ls" by (rule pass_key_filter [OF "1.prems"])
    have "r \<in> set (merge_all E ls) \<longleftrightarrow> r = newest_head E ls ?k \<or> newest E (pass_key E ?k ls) r"
      using True "1.IH" [OF True] keys_sorted_filter [OF "1.prems"] by (simp add: merge_all.simps [of E ls] pass)
    also have "\<dots> \<longleftrightarrow> newest E ls r \<and> (key_of E r = ?k \<or> ?k < key_of E r)"
      unfolding newest_least [OF "1.prems" True, symmetric] pass newest_filter by blast
    also have "\<dots> \<longleftrightarrow> newest E ls r"
      using newest_in [of E ls r] least_head_all [OF "1.prems"] by (metis order_le_less)
    finally show ?thesis .
  next
    case False
    then have "\<not> newest E ls r" using newest_in [of E ls r] by fastforce
    with False show ?thesis by (simp add: merge_all.simps [of E ls])
  qed
qed

lemma merge_all_sorted: "keys_sorted E ls \<Longrightarrow> sorted_wrt (<) (map (key_of E) (merge_all E ls))"
proof (induction E ls rule: merge_all.induct)
  case (1 E ls)
  let ?k = "least_head E ls"
  show ?case
  proof (cases "\<exists>l \<in> set ls. l \<noteq> []")
    case True
    have pass: "pass_key E ?k ls = map (filter (\<lambda>r. ?k < key_of E r)) ls" by (rule pass_key_filter [OF "1.prems"])
    have "key_of E (newest_head E ls ?k) = ?k" using newest_least [OF "1.prems" True] by blast
    moreover have "?k < key_of E r" if "r \<in> set (merge_all E (pass_key E ?k ls))" for r
      using that unfolding pass merge_all_newest [OF keys_sorted_filter [OF "1.prems"]] newest_filter by simp
    ultimately show ?thesis
      using "1.IH" [OF True] keys_sorted_filter [OF "1.prems"] True by (auto simp: merge_all.simps [of E ls] pass)
  next
    case False
    then show ?thesis by (simp add: merge_all.simps [of E ls])
  qed
qed

lemma sorted_keys_unique:
  fixes f :: "'a \<Rightarrow> 'b::linorder"
  assumes "sorted_wrt (<) (map f xs)" "sorted_wrt (<) (map f ys)" "set xs = set ys"
  shows "xs = ys"
proof -
  have "map f xs = map f ys" using assms by (intro strict_sorted_equal) auto
  moreover have "inj_on f (set xs \<union> set ys)"
    using strict_sorted_iff [of "map f xs"] assms(1,3) by (simp add: distinct_map)
  ultimately show ?thesis by (rule map_inj_on)
qed

lemma merge_all_seek:
  assumes "keys_sorted E ls"
  shows "merge_all E (map (dropWhile (\<lambda>r. key_of E r < k)) ls) = dropWhile (\<lambda>r. key_of E r < k) (merge_all E ls)"
proof -
  have ls: "map (dropWhile (\<lambda>r. key_of E r < k)) ls = map (filter (\<lambda>r. k \<le> key_of E r)) ls"
    using assms by (auto simp: keys_sorted_def intro!: sorted_seek)
  have all: "dropWhile (\<lambda>r. key_of E r < k) (merge_all E ls) = filter (\<lambda>r. k \<le> key_of E r) (merge_all E ls)"
    using merge_all_sorted [OF assms] by (intro sorted_seek) auto
  have sorted: "keys_sorted E (map (filter (\<lambda>r. k \<le> key_of E r)) ls)" using assms by (rule keys_sorted_filter)
  show ?thesis unfolding ls all
  proof (rule sorted_keys_unique)
    show "sorted_wrt (<) (map (key_of E) (merge_all E (map (filter (\<lambda>r. k \<le> key_of E r)) ls)))"
      by (rule merge_all_sorted [OF sorted])
    show "sorted_wrt (<) (map (key_of E) (filter (\<lambda>r. k \<le> key_of E r) (merge_all E ls)))"
      using merge_all_sorted [OF assms] by (simp add: sorted_wrt_map sorted_wrt_filter)
    show "set (merge_all E (map (filter (\<lambda>r. k \<le> key_of E r)) ls)) = set (filter (\<lambda>r. k \<le> key_of E r) (merge_all E ls))"
      using merge_all_newest [OF sorted] merge_all_newest [OF assms] newest_filter by auto
  qed
qed

lemma filter_seek:
  assumes "sorted_wrt (<) (map (key_of E) l)"
  shows "filter P (dropWhile (\<lambda>r. key_of E r < k) l) = dropWhile (\<lambda>r. key_of E r < k) (filter P l)"
proof -
  have "sorted_wrt (<) (map (key_of E) (filter P l))" using assms by (simp add: sorted_wrt_map sorted_wrt_filter)
  then have "dropWhile (\<lambda>r. key_of E r < k) (filter P l) = filter (\<lambda>r. k \<le> key_of E r) (filter P l)"
    by (rule sorted_seek) auto
  moreover have "dropWhile (\<lambda>r. key_of E r < k) l = filter (\<lambda>r. k \<le> key_of E r) l"
    using assms by (rule sorted_seek) auto
  ultimately show ?thesis by (simp add: conj_commute)
qed

section \<open>Seeking\<close>

definition merged_list :: "reftable_env \<Rightarrow> bool \<Rightarrow> reftable_record list list \<Rightarrow> reftable_record list" where
  "merged_list E suppress ls =
     (if suppress then filter (\<lambda>r. \<not> reftable_record_is_deletion r) (merge_all E ls) else merge_all E ls)"

lemma merged_list_seek:
  assumes "keys_sorted E ls"
  shows "merged_list E suppress (map (dropWhile (\<lambda>r. key_of E r < k)) ls) =
    dropWhile (\<lambda>r. key_of E r < k) (merged_list E suppress ls)"
  using filter_seek [OF merge_all_sorted [OF assms]] by (simp add: merged_list_def merge_all_seek [OF assms])

definition mi_full :: "('i \<Rightarrow> reftable_record list \<Rightarrow> bool) \<Rightarrow> 'i merged_iter \<Rightarrow> reftable_record list list \<Rightarrow> bool" where
  "mi_full full mi ls \<longleftrightarrow> length (mi_subiters mi) = length ls
     \<and> (\<forall>i < length ls. full (fst (mi_subiters mi ! i)) (ls ! i))"

definition mi_ready :: "reftable_env \<Rightarrow> byte \<Rightarrow> nat \<Rightarrow> 'i merged_iter \<Rightarrow> bool" where
  "mi_ready E ty len mi \<longleftrightarrow> pq.heap E ty len (mi_pq mi) \<and> (\<forall>(it, rec) \<in> set (mi_subiters mi). reftable_record_type rec = ty)"

lemma pq_drain_heap: "pq.heap E ty len h \<Longrightarrow> pq_drain h = Ok []"
proof (induction "length h" arbitrary: h rule: less_induct)
  case less
  show ?case
  proof (cases "h = []")
    case False
    from pq.pqueue_remove_heap [OF less.prems this] obtain e h' where
      h': "merged_iter_pqueue_remove h = Ok (e, h')" "pq.heap E ty len h'" by (auto simp: merged_iter_pqueue_remove_def)
    then have "length h' < length h" by (auto simp: merged_iter_pqueue_remove_def dest: pqueue_remove_shrinks)
    with less.hyps [OF _ h'(2)] h'(1) False show ?thesis by (simp add: pq_drain.simps [of h])
  qed (simp add: pq_drain.simps)
qed

text \<open>While the sub-iterators are being sought, those that are still to come count as empty.\<close>

definition sought :: "reftable_env \<Rightarrow> bytes \<Rightarrow> nat \<Rightarrow> reftable_record list list \<Rightarrow> reftable_record list list" where
  "sought E k n ls = map (dropWhile (\<lambda>r. key_of E r < k)) (take n ls) @ replicate (length ls - n) []"

lemma length_sought [simp]: "n \<le> length ls \<Longrightarrow> length (sought E k n ls) = length ls"
  by (simp add: sought_def)

lemma sought_nth:
  "n \<le> length ls \<Longrightarrow> i < length ls \<Longrightarrow>
     sought E k n ls ! i = (if i < n then dropWhile (\<lambda>r. key_of E r < k) (ls ! i) else [])"
  by (auto simp: sought_def nth_append)

lemma sought_Suc:
  "n < length ls \<Longrightarrow> sought E k (Suc n) ls = (sought E k n ls)[n := dropWhile (\<lambda>r. key_of E r < k) (ls ! n)]"
  by (intro nth_equalityI) (auto simp: sought_nth nth_list_update less_Suc_eq)

lemma lists_ok_sought:
  assumes "lists_ok E ty len ls"
  shows "lists_ok E ty len (sought E k n ls)"
proof -
  have "sorted_wrt (<) (map (key_of E) (dropWhile P l))" if "sorted_wrt (<) (map (key_of E) l)" for P l
    using that by (metis dropWhile_eq_drop drop_map sorted_wrt_drop)
  with assms show ?thesis
    by (auto simp: lists_ok_def sought_def dest!: in_set_takeD set_dropWhileD)
qed

lemma mi_full_advance:
  assumes "seekable_iter ops rep ty E full" "mi_full full mi ls" "merged_iter_advance_subiter ops mi a = Some (Ok (mi', b))"
  shows "mi_full full mi' ls"
proof -
  obtain t rec where sub: "mi_subiters mi ! a = (t, rec)" by (cases "mi_subiters mi ! a")
  from assms(3) have a: "a < length (mi_subiters mi)" by (simp add: merged_iter_advance_subiter_def split: if_splits)
  with assms(3) obtain t' r rec' where t': "op_next ops t rec = Some (Ok (t', r))"
    "mi_subiters mi' = (mi_subiters mi)[a := (t', rec')]"
    by (auto simp: merged_iter_advance_subiter_def sub iterator_next_def run_bind_eq_Ok split: option.splits)
  have "full t (ls ! a)" using assms(2) a sub by (auto simp: mi_full_def)
  then have "full t' (ls ! a)" using seekable_iter.next_full [OF assms(1)] t'(1) by blast
  with assms(2) t'(2) a show ?thesis by (auto simp: mi_full_def nth_list_update)
qed

lemma head_entries_cong:
  assumes "queued ls A = queued ls' B" "\<And>i. i \<in> queued ls A \<Longrightarrow> ls ! i = ls' ! i"
  shows "head_entries ls A = head_entries ls' B"
  unfolding head_entries_def assms(1) using assms by (intro image_mset_cong) auto

lemma merged_iter_seek_step:
  assumes it: "seekable_iter ops rep ty E full" and ok: "lists_ok E ty len ls"
    and want: "reftable_record_type want = ty" "reftable_record_key E want = Ok k" and n: "n < length ls"
    and inv: "mi_inv E rep ty len mi {} (sought E k n ls)" and full: "mi_full full mi ls"
  shows "\<exists>mi'. merged_iter_seek_subs ops want (n # is) mi = merged_iter_seek_subs ops want is mi'
    \<and> mi_inv E rep ty len mi' {} (sought E k (Suc n) ls) \<and> mi_full full mi' ls
    \<and> mi_advance_index mi' = mi_advance_index mi \<and> mi_suppress_deletions mi' = mi_suppress_deletions mi"
proof -
  let ?l = "dropWhile (\<lambda>r. key_of E r < k) (ls ! n)" and ?S = "sought E k n ls"
  have "full (fst (mi_subiters mi ! n)) (ls ! n)" using full n by (simp add: mi_full_def)
  from seekable_iter.seek_rep [OF it this want] obtain t found where
    t: "op_seek ops (fst (mi_subiters mi ! n)) want = Some (Ok (t, found))" "full t (ls ! n)"
    "if found then rep t ?l else ?l = []" by blast
  let ?mi = "mi\<lparr>mi_subiters := (mi_subiters mi)[n := (t, snd (mi_subiters mi ! n))]\<rparr>"
  have full1: "mi_full full ?mi ls" using full t(2) n by (auto simp: mi_full_def nth_list_update)
  have len: "length (mi_subiters mi) = length ls" "length ?S = length ls" "?S ! n = []"
    using full n by (simp_all add: mi_full_def sought_nth)
  show ?thesis
  proof (cases found)
    case False
    then have "?l = []" using t(3) by (simp only: if_False)
    then have "sought E k (Suc n) ls = ?S" using sought_Suc [OF n, of E k] len(3) by (simp only: list_update_id [of ?S n, unfolded len(3)])
    moreover have "mi_inv E rep ty len ?mi {} ?S" using inv len n by (auto simp: mi_inv_def nth_list_update)
    ultimately show ?thesis using full1 t(1) False by (intro exI [of _ ?mi]) (simp add: iterator_seek_def)
  next
    case True
    let ?S' = "sought E k (Suc n) ls"
    have S': "?S' = ?S[n := ?l]" by (rule sought_Suc [OF n])
    have "head_entries ?S' {n} = head_entries ?S {}"
      using len n by (intro head_entries_cong) (auto simp: queued_def S' nth_list_update split: if_splits)
    moreover have "lists_ok E ty len ?S'" using ok by (rule lists_ok_sought)
    ultimately have "mi_inv E rep ty len ?mi {n} ?S'"
      using inv len n t(3) True by (auto simp: mi_inv_def S' nth_list_update)
    then obtain mi2 b where
      mi2: "merged_iter_advance_subiter ops ?mi n = Some (Ok (mi2, b))" "mi_inv E rep ty len mi2 {} ?S'"
      "mi_advance_index mi2 = mi_advance_index ?mi" "mi_suppress_deletions mi2 = mi_suppress_deletions ?mi"
      using mi_inv_advance [OF seekable_iter.axioms(1) [OF it], of E len ?mi "{n}" ?S' n] n by auto
    with mi_full_advance [OF it full1 mi2(1)] t(1) True show ?thesis
      by (intro exI [of _ mi2]) (simp add: iterator_seek_def)
  qed
qed

lemma merged_iter_seek_subs_rep:
  assumes it: "seekable_iter ops rep ty E full" and ok: "lists_ok E ty len ls"
    and want: "reftable_record_type want = ty" "reftable_record_key E want = Ok k"
    and "n \<le> length ls" "mi_inv E rep ty len mi {} (sought E k n ls)" "mi_full full mi ls"
  shows "\<exists>mi'. merged_iter_seek_subs ops want [n..<length ls] mi = Some (Ok mi')
    \<and> mi_inv E rep ty len mi' {} (sought E k (length ls) ls) \<and> mi_full full mi' ls
    \<and> mi_advance_index mi' = mi_advance_index mi \<and> mi_suppress_deletions mi' = mi_suppress_deletions mi"
  using assms(5-7)
proof (induction "length ls - n" arbitrary: n mi)
  case 0
  then show ?case by simp
next
  case (Suc d)
  then have n: "n < length ls" by simp
  from merged_iter_seek_step [OF it ok want n Suc.prems(2,3)] obtain mi' where
    mi': "merged_iter_seek_subs ops want (n # [Suc n..<length ls]) mi = merged_iter_seek_subs ops want [Suc n..<length ls] mi'"
    "mi_inv E rep ty len mi' {} (sought E k (Suc n) ls)" "mi_full full mi' ls"
    "mi_advance_index mi' = mi_advance_index mi" "mi_suppress_deletions mi' = mi_suppress_deletions mi" by blast
  from Suc.hyps(1) [of "Suc n" mi'] Suc.hyps(2) n mi' show ?case by (simp add: upt_conv_Cons)
qed

lemma merged_iter_seek_rep:
  assumes it: "seekable_iter ops rep ty E full" and ok: "lists_ok E ty len ls"
    and want: "reftable_record_type want = ty" "reftable_record_key E want = Ok k"
    and full: "mi_full full mi ls" and ready: "mi_ready E ty len mi"
  shows "\<exists>mi'. merged_iter_seek ops mi want = Some (Ok (mi', True)) \<and> mi_full full mi' ls
    \<and> mi_rep E rep ty len mi' (dropWhile (\<lambda>r. key_of E r < k) (merged_list E (mi_suppress_deletions mi) ls))"
proof -
  let ?mi = "mi\<lparr>mi_advance_index := None, mi_pq := []\<rparr>"
  have len: "length (mi_subiters mi) = length ls" using full by (simp add: mi_full_def)
  have "queued (sought E k 0 ls) {} = {}" by (auto simp: queued_def sought_nth)
  then have "head_entries (sought E k 0 ls) {} = {#}" by (simp add: head_entries_def)
  then have "mi_inv E rep ty len ?mi {} (sought E k 0 ls)"
    using ready len lists_ok_sought [OF ok] by (auto simp: mi_inv_def mi_ready_def sought_nth pq.heap_def split_beta)
  from merged_iter_seek_subs_rep [OF it ok want _ this] full obtain mi' where
    mi': "merged_iter_seek_subs ops want [0..<length ls] ?mi = Some (Ok mi')"
    "mi_inv E rep ty len mi' {} (sought E k (length ls) ls)" "mi_full full mi' ls"
    "mi_advance_index mi' = None" "mi_suppress_deletions mi' = mi_suppress_deletions mi" by (auto simp: mi_full_def)
  have "keys_sorted E ls" using ok by (simp add: lists_ok_def keys_sorted_def)
  then have "mi_rep E rep ty len mi' (dropWhile (\<lambda>r. key_of E r < k) (merged_list E (mi_suppress_deletions mi) ls))"
    using mi'(2,4,5) unfolding mi_rep_def mi_entries_def merged_list_seek [OF \<open>keys_sorted E ls\<close>, symmetric]
    by (intro exI [of _ "merge_all E (sought E k (length ls) ls)"] conjI exI [of _ "sought E k (length ls) ls"])
      (simp_all add: merged_list_def sought_def)
  with mi' ready pq_drain_heap [of E ty len "mi_pq mi"] show ?thesis
    by (simp add: merged_iter_seek_def len mi_ready_def)
qed

text \<open>A merged iterator that has been read from can be sought again.\<close>

lemma mi_full_skip:
  assumes it: "seekable_iter ops rep ty E full" and skip: "merged_iter_skip ops mi entry = Some (Ok mi')"
    and full: "mi_full full mi ls"
  shows "mi_full full mi' ls"
proof -
  have "seekable_iter ops rep ty E full \<longrightarrow> mi_full full mi ls \<longrightarrow> (case res of Ok mi' \<Rightarrow> mi_full full mi' ls | _ \<Rightarrow> True)"
    if "merged_iter_skip ops mi entry = Some res" for ops mi entry res
  proof (rule merged_iter_skip.raw_induct [OF _ that], goal_cases)
    case (1 skip ops mi entry res)
    show ?case
    proof (cases res)
      case (Ok mi')
      note run = 1(2) [unfolded Ok]
      consider "mi' = mi" | pq idx mi1 b where
          "merged_iter_advance_subiter ops (mi\<lparr>mi_pq := pq\<rparr>) idx = Some (Ok (mi1, b))" "skip ops mi1 entry = Some (Ok mi')"
      proof (cases "mi_pq mi")
        case Nil
        with run that(1) show thesis by simp
      next
        case (Cons e0 h0)
        with run that show thesis
          by (cases "reftable_record_cmp (pq_rec e0) (pq_rec entry)") (auto simp: run_bind_eq_Ok split: if_split_asm)
      qed
      then show ?thesis
      proof cases
        case 2
        have "mi_full full mi1 ls" if "seekable_iter ops rep ty E full" "mi_full full mi ls"
          using mi_full_advance [OF that(1) _ 2(1)] that(2) by (simp add: mi_full_def)
        with 1(1) [OF 2(2)] Ok show ?thesis by simp
      qed (simp add: Ok)
    qed simp_all
  qed
  from this [OF skip] it full show ?thesis by simp
qed

lemma mi_full_pop:
  assumes it: "seekable_iter ops rep ty E full" and "merged_iter_pop ops mi rec = Some (Ok (mi', r))" and full: "mi_full full mi ls"
  shows "mi_full full mi' ls"
proof (cases "mi_pq mi = []")
  case False
  with assms(2) obtain pq entry mi1 where *: "merged_iter_skip ops (mi\<lparr>mi_pq := pq\<rparr>) entry = Some (Ok mi1)"
    "mi_subiters mi' = (mi_subiters mi1)[pq_index entry := (fst (mi_subiters mi1 ! pq_index entry), rec)]"
    by (auto simp: merged_iter_pop_def run_bind_eq_Ok Let_def)
  have "mi_full full mi1 ls" using mi_full_skip [OF it *(1)] full by (simp add: mi_full_def)
  with *(2) show ?thesis by (cases "pq_index entry < length ls") (auto simp: mi_full_def nth_list_update)
qed (use assms in \<open>simp add: merged_iter_pop_def\<close>)

lemma mi_full_next_entry:
  assumes it: "seekable_iter ops rep ty E full" and next_entry: "merged_iter_next_entry ops mi rec = Some (Ok (mi', r))" and full: "mi_full full mi ls"
  shows "mi_full full mi' ls"
proof (cases "mi_advance_index mi")
  case None
  then show ?thesis using mi_full_pop [OF it _ full] next_entry by (simp add: merged_iter_next_entry_def)
next
  case (Some a)
  show ?thesis
  proof (cases "mi_pq mi = []")
    case True
    with Some next_entry obtain t where t: "op_next ops (fst (mi_subiters mi ! a)) rec = Some (Ok (t, r))"
      "mi_subiters mi' = (mi_subiters mi)[a := (t, snd (mi_subiters mi ! a))]"
      by (auto simp: merged_iter_next_entry_def iterator_next_def run_bind_eq_Ok)
    have "a < length ls \<Longrightarrow> full t (ls ! a)" using seekable_iter.next_full [OF it _ t(1)] full by (simp add: mi_full_def)
    with t(2) full show ?thesis by (cases "a < length ls") (auto simp: mi_full_def nth_list_update)
  next
    case False
    with Some next_entry obtain mi1 b where "merged_iter_advance_subiter ops mi a = Some (Ok (mi1, b))"
      "merged_iter_pop ops (mi1\<lparr>mi_advance_index := None\<rparr>) rec = Some (Ok (mi', r))"
      by (auto simp: merged_iter_next_entry_def run_bind_eq_Ok)
    with mi_full_pop [OF it] mi_full_advance [OF it full] show ?thesis by (fastforce simp: mi_full_def)
  qed
qed

lemma mi_full_next_void:
  assumes it: "seekable_iter ops rep ty E full" and next_void: "merged_iter_next_void ops mi rec = Some (Ok (mi', r))"
    and full: "mi_full full mi ls"
  shows "mi_full full mi' ls"
proof -
  have "seekable_iter ops rep ty E full \<longrightarrow> mi_full full mi ls \<longrightarrow> (case res of Ok (mi', _) \<Rightarrow> mi_full full mi' ls | _ \<Rightarrow> True)"
    if "merged_iter_next_void ops mi rec = Some res" for ops mi rec res
  proof (rule merged_iter_next_void.raw_induct [OF _ that], goal_cases)
    case (1 nxt ops mi rec res)
    show ?case
    proof (cases res)
      case (Ok x)
      obtain mi' r where x: "x = (mi', r)" by (cases x)
      note run = 1(2) [unfolded Ok x]
      from run obtain mi1 r1 where e: "merged_iter_next_entry ops mi rec = Some (Ok (mi1, r1))"
        unfolding run_bind_eq_Ok by fast
      have m: "mi' = mi1 \<or> (\<exists>rec. nxt ops mi1 rec = Some (Ok (mi', r)))"
        using run unfolding e by (cases r1) (auto split: if_split_asm)
      have IH: "nxt ops mi1 rec = Some (Ok (mi', r)) \<Longrightarrow> seekable_iter ops rep ty E full \<longrightarrow> mi_full full mi1 ls \<longrightarrow> mi_full full mi' ls" for rec
        using 1(1) [of ops mi1 rec "Ok (mi', r)"] by simp
      show ?thesis unfolding Ok x using m IH mi_full_next_entry [OF _ e] by auto
    qed simp_all
  qed
  from this [OF next_void] it full show ?thesis by simp
qed

lemma mi_rep_ready: "mi_rep E rep ty len mi l \<Longrightarrow> mi_ready E ty len mi"
  by (fastforce simp: mi_rep_def mi_entries_def mi_inv_def mi_ready_def in_set_conv_nth split: option.split_asm)

section \<open>The iterators of a merged table\<close>

lemma init_subiters_full:
  assumes "list_all2 (reader_shows E iv hsz ty) rs ls" and ty: "reftable_is_block_type ty"
  shows "\<exists>subs. init_subiters ty rs = Ok subs \<and>
    list_all2 (\<lambda>(it, rec) l. reader_iter_full E iv hsz ty it l \<and> reftable_record_type rec = ty) subs ls"
  using assms(1)
proof (induction rule: list_all2_induct)
  case (Cons r rs l ls)
  from reader_init_iter_full [OF Cons(1)] reftable_record_init_type [OF ty] Cons(3) show ?case by fastforce
qed simp

lemma merged_table_init_iter_full:
  assumes "list_all2 (reader_shows E iv hsz ty) (mt_readers mt) ls" "reftable_is_block_type ty"
  shows "\<exists>mi. merged_table_init_iter mt ty = Ok mi \<and> mi_full (reader_iter_full E iv hsz ty) mi ls \<and> mi_ready E ty len mi
    \<and> mi_suppress_deletions mi = mt_suppress_deletions mt"
proof -
  from init_subiters_full [OF assms] obtain subs where subs: "init_subiters ty (mt_readers mt) = Ok subs"
    "list_all2 (\<lambda>(it, rec) l. reader_iter_full E iv hsz ty it l \<and> reftable_record_type rec = ty) subs ls" by blast
  have "\<forall>(it, rec) \<in> set subs. reftable_record_type rec = ty"
    using subs(2) by (fastforce simp: list_all2_conv_all_nth in_set_conv_nth)
  with subs show ?thesis
    by (auto simp: merged_table_init_iter_def mi_full_def mi_ready_def list_all2_conv_all_nth split_beta pq.heap_def)
qed

lemma merged_table_sought:
  assumes readers: "list_all2 (reader_shows E iv hsz ty) (mt_readers mt) ls" and ok: "lists_ok E ty len ls"
    and want: "reftable_record_type want = ty" "reftable_record_key E want = Ok k"
  shows "\<exists>mi mi'. merged_table_init_iter mt ty = Ok mi \<and> op_seek (merged_iter_vtable (reader_iter_vtable E)) mi want = Some (Ok (mi', True))
    \<and> mi_rep E (reader_iter_rep E iv hsz ty) ty len mi' (dropWhile (\<lambda>r. key_of E r < k) (merged_list E (mt_suppress_deletions mt) ls))"
proof -
  have ty: "reftable_is_block_type ty" using want(1) by (cases want) (auto simp: reftable_is_block_type_def)
  from merged_table_init_iter_full [OF readers ty, of len] obtain mi where
    mi: "merged_table_init_iter mt ty = Ok mi" "mi_full (reader_iter_full E iv hsz ty) mi ls" "mi_ready E ty len mi"
    "mi_suppress_deletions mi = mt_suppress_deletions mt" by blast
  from merged_iter_seek_rep [OF reader_it.seekable_iter_axioms ok want mi(2,3)] mi(1,4) show ?thesis
    by (auto simp: merged_iter_vtable_def)
qed

lemmas merged_reader_listed = merged_listed_iter [OF reader_it.listed_iter_axioms]

lemma merged_table_list_from:
  assumes readers: "list_all2 (reader_shows E iv hsz ty) (mt_readers mt) ls" and ok: "lists_ok E ty len ls"
    and want: "reftable_record_type want = ty" "reftable_record_key E want = Ok k"
  shows "\<exists>mi. merged_table_init_iter mt ty = Ok mi \<and>
    iterator_list_from (merged_iter_vtable (reader_iter_vtable E)) mi want =
      Some (Ok (dropWhile (\<lambda>r. key_of E r < k) (merged_list E (mt_suppress_deletions mt) ls)))"
proof -
  from merged_table_sought [OF assms] obtain mi mi' where mi: "merged_table_init_iter mt ty = Ok mi"
    "op_seek (merged_iter_vtable (reader_iter_vtable E)) mi want = Some (Ok (mi', True))"
    "mi_rep E (reader_iter_rep E iv hsz ty) ty len mi' (dropWhile (\<lambda>r. key_of E r < k) (merged_list E (mt_suppress_deletions mt) ls))" by blast
  from listed_iter.collect_rep [OF merged_reader_listed mi(3) want(1)] mi(1,2) show ?thesis
    by (simp add: iterator_list_from_def iterator_seek_def)
qed

end
