(* ===== verification/Reft_Compose.thy ===== *)
theory Reft_Compose
  imports Reft_Roundtrip Reft_Merged_Seek
begin

text \<open>
  Several tables that have been written with the same options, opened and read as one merged table:
  what a client of the library does with the tables of a directory.
\<close>

section \<open>Opening and merging\<close>

fun open_tables :: "reftable_env \<Rightarrow> (block_source \<times> bytes) list \<Rightarrow> reftable_reader list res" where
  "open_tables E [] = Ok []"
| "open_tables E ((src, name) # srcs) =
     res_bind (reftable_reader_new E src name) (\<lambda>r. res_bind (open_tables E srcs) (\<lambda>rs. Ok (r # rs)))"

definition open_merged ::
  "reftable_env \<Rightarrow> reftable_hash \<Rightarrow> bool \<Rightarrow> (block_source \<times> bytes) list \<Rightarrow> reftable_merged_table res" where
  "open_merged E hash_id suppress srcs =
     res_bind (open_tables E srcs) (\<lambda>rs.
     res_bind (reftable_merged_table_new rs hash_id) (\<lambda>mt. Ok (mt\<lparr>mt_suppress_deletions := suppress\<rparr>)))"

definition merged_refs_from :: "reftable_env \<Rightarrow> reftable_merged_table \<Rightarrow> ref_record \<Rightarrow> reftable_record list run" where
  "merged_refs_from E mt want =
     run_bind (Some (reftable_merged_table_init_ref_iterator mt)) (\<lambda>mi.
       iterator_list_from (merged_iter_vtable (reader_iter_vtable E)) mi (Rec_Ref want))"

definition merged_logs_from :: "reftable_env \<Rightarrow> reftable_merged_table \<Rightarrow> log_record \<Rightarrow> reftable_record list run" where
  "merged_logs_from E mt want =
     run_bind (Some (reftable_merged_table_init_log_iterator mt)) (\<lambda>mi.
       iterator_list_from (merged_iter_vtable (reader_iter_vtable E)) mi (Rec_Log want))"

text \<open>A source whose bytes have been written as a table of some references and log records.\<close>

definition holds_table ::
  "reftable_env \<Rightarrow> 's write_ops \<Rightarrow> ('s \<Rightarrow> bytes) \<Rightarrow> reftable_write_options option \<Rightarrow> block_source
   \<Rightarrow> ref_record list \<Rightarrow> log_record list \<Rightarrow> bool" where
  "holds_table E S out opts src refs logs \<longleftrightarrow> input_ok E (all_options E opts) refs logs \<and>
     (\<exists>sink mn mx s. out sink = [] \<and> write_table E S sink opts mn mx refs logs = Some (Ok s)
        \<and> length (out s) < 2 ^ 59 \<and> source_of src (out s))"

abbreviation holds_tables ::
  "reftable_env \<Rightarrow> 's write_ops \<Rightarrow> ('s \<Rightarrow> bytes) \<Rightarrow> reftable_write_options option \<Rightarrow> (block_source \<times> bytes) list
   \<Rightarrow> (ref_record list \<times> log_record list) list \<Rightarrow> bool" where
  "holds_tables E S out opts \<equiv> list_all2 (\<lambda>(src, name) (refs, logs). holds_table E S out opts src refs logs)"

lemma holds_tableI:
  "input_ok E (all_options E opts) refs logs \<Longrightarrow> write_table E S sink opts mn mx refs logs = Some (Ok s) \<Longrightarrow> out sink = []
   \<Longrightarrow> length (out s) < 2 ^ 59 \<Longrightarrow> source_of src (out s) \<Longrightarrow> holds_table E S out opts src refs logs"
  unfolding holds_table_def by blast

definition table_refs :: "ref_record list \<Rightarrow> reftable_record list" where
  "table_refs refs = map Rec_Ref (sort_key ref_key refs)"

definition table_logs :: "reftable_env \<Rightarrow> reftable_write_options \<Rightarrow> log_record list \<Rightarrow> reftable_record list" where
  "table_logs E opts logs = map (\<lambda>l. Rec_Log (log_norm (stored_log opts l))) (sort_key (log_key E) logs)"

lemma holds_table_shows:
  assumes "env_ok E" "appends S out" "holds_table E S out opts src refs logs" "hash_size E (wo_hash_id (all_options E opts)) = Ok hsz"
  shows "\<exists>r. reftable_reader_new E src name = Ok r \<and> rd_hash_id r = wo_hash_id (all_options E opts)
    \<and> reader_shows E (wo_restart_interval (all_options E opts)) hsz BLOCK_TYPE_REF r (table_refs refs)
    \<and> reader_shows E (wo_restart_interval (all_options E opts)) hsz BLOCK_TYPE_LOG r (table_logs E (all_options E opts) logs)"
proof -
  from assms(3) obtain sink mn mx s where "input_ok E (all_options E opts) refs logs" "out sink = []"
    "write_table E S sink opts mn mx refs logs = Some (Ok s)" "length (out s) < 2 ^ 59" "source_of src (out s)"
    by (auto simp: holds_table_def)
  from written_shows [OF assms(1,2) this(2,1,3-5), of name] assms(4) show ?thesis
    by (auto simp: table_refs_def table_logs_def)
qed

lemma open_tables_shows:
  assumes "env_ok E" "appends S out" "hash_size E (wo_hash_id (all_options E opts)) = Ok hsz"
    and "holds_tables E S out opts srcs tabs"
  shows "\<exists>rs. open_tables E srcs = Ok rs \<and> (\<forall>r \<in> set rs. rd_hash_id r = wo_hash_id (all_options E opts))
    \<and> list_all2 (reader_shows E (wo_restart_interval (all_options E opts)) hsz BLOCK_TYPE_REF) rs (map (table_refs \<circ> fst) tabs)
    \<and> list_all2 (reader_shows E (wo_restart_interval (all_options E opts)) hsz BLOCK_TYPE_LOG) rs (map (table_logs E (all_options E opts) \<circ> snd) tabs)"
  using assms(4)
proof (induction srcs tabs rule: list_all2_induct)
  case (Cons t srcs u tabs)
  obtain src name refs logs where tu: "t = (src, name)" "u = (refs, logs)" by fastforce
  from holds_table_shows [OF assms(1,2) _ assms(3), of src refs logs name] Cons(1) tu obtain r where
    "reftable_reader_new E src name = Ok r" "rd_hash_id r = wo_hash_id (all_options E opts)"
    "reader_shows E (wo_restart_interval (all_options E opts)) hsz BLOCK_TYPE_REF r (table_refs refs)"
    "reader_shows E (wo_restart_interval (all_options E opts)) hsz BLOCK_TYPE_LOG r (table_logs E (all_options E opts) logs)" by auto
  with Cons(3) show ?case by (auto simp: tu)
qed simp

lemma holds_tables_inputs:
  "holds_tables E S out opts srcs tabs \<Longrightarrow>
     \<forall>(refs, logs) \<in> set tabs. input_ok E (all_options E opts) refs logs"
  by (induction rule: list_all2_induct) (auto simp: holds_table_def)

lemma merged_limits_ok: "\<forall>r \<in> set rs. rd_hash_id r = hash_id \<Longrightarrow> \<exists>mn mx. merged_limits hash_id i rs a b = Ok (mn, mx)"
  by (induction rs arbitrary: i a b) (auto simp: Let_def reftable_reader_hash_id_def)

lemma open_merged_shows:
  assumes "env_ok E" "appends S out" "hash_size E (wo_hash_id (all_options E opts)) = Ok hsz"
    and "holds_tables E S out opts srcs tabs"
  shows "\<exists>mt. open_merged E (wo_hash_id (all_options E opts)) suppress srcs = Ok mt \<and> mt_suppress_deletions mt = suppress
    \<and> list_all2 (reader_shows E (wo_restart_interval (all_options E opts)) hsz BLOCK_TYPE_REF) (mt_readers mt) (map (table_refs \<circ> fst) tabs)
    \<and> list_all2 (reader_shows E (wo_restart_interval (all_options E opts)) hsz BLOCK_TYPE_LOG) (mt_readers mt) (map (table_logs E (all_options E opts) \<circ> snd) tabs)"
proof -
  from open_tables_shows [OF assms] obtain rs where rs: "open_tables E srcs = Ok rs" "\<forall>r \<in> set rs. rd_hash_id r = wo_hash_id (all_options E opts)"
    "list_all2 (reader_shows E (wo_restart_interval (all_options E opts)) hsz BLOCK_TYPE_REF) rs (map (table_refs \<circ> fst) tabs)"
    "list_all2 (reader_shows E (wo_restart_interval (all_options E opts)) hsz BLOCK_TYPE_LOG) rs (map (table_logs E (all_options E opts) \<circ> snd) tabs)" by blast
  from merged_limits_ok [OF rs(2), of 0 0 0] rs show ?thesis
    by (auto simp: open_merged_def reftable_merged_table_new_def)
qed

section \<open>What the merged table lists\<close>

lemma newest_cong: "map set ls = map set ls' \<Longrightarrow> newest E ls r = newest E ls' r"
proof -
  assume "map set ls = map set ls'"
  then have "length ls = length ls'" "\<forall>i < length ls. set (ls ! i) = set (ls' ! i)"
    by (auto simp: list_eq_iff_nth_eq dest: map_eq_imp_length_eq)
  then show ?thesis by (auto simp: newest_def)
qed

lemma merged_list_from:
  assumes ok: "keys_sorted E ls"
  shows "sorted_wrt (<) (map (key_of E) (dropWhile (\<lambda>r. key_of E r < k) (merged_list E suppress ls)))"
    "r \<in> set (dropWhile (\<lambda>r. key_of E r < k) (merged_list E suppress ls)) \<longleftrightarrow>
      newest E ls r \<and> k \<le> key_of E r \<and> \<not> (suppress \<and> reftable_record_is_deletion r)"
proof -
  have m: "sorted_wrt (<) (map (key_of E) (merged_list E suppress ls))"
    using merge_all_sorted [OF ok] by (auto simp: merged_list_def sorted_wrt_map sorted_wrt_filter)
  have "sorted_wrt (<) (map (key_of E) (dropWhile P l))" if "sorted_wrt (<) (map (key_of E) l)" for P l
    using that by (induction l) auto
  with m show "sorted_wrt (<) (map (key_of E) (dropWhile (\<lambda>r. key_of E r < k) (merged_list E suppress ls)))" by blast
  have "dropWhile (\<lambda>r. key_of E r < k) l = filter (\<lambda>r. k \<le> key_of E r) l" if "sorted_wrt (<) (map (key_of E) l)" for l
    using that by (induction l) (auto simp: not_less intro!: filter_True [symmetric])
  then show "r \<in> set (dropWhile (\<lambda>r. key_of E r < k) (merged_list E suppress ls)) \<longleftrightarrow>
      newest E ls r \<and> k \<le> key_of E r \<and> \<not> (suppress \<and> reftable_record_is_deletion r)"
    using m merge_all_newest [OF ok] by (auto simp: merged_list_def)
qed

lemma table_refs_ok:
  assumes "input_ok E opts refs logs" "hash_size E (wo_hash_id opts) = Ok hsz"
  shows "sorted_wrt (<) (map (key_of E) (table_refs refs))" "\<forall>r \<in> set (table_refs refs). cmp_ok BLOCK_TYPE_REF len r"
proof -
  have "map (key_of E) (table_refs refs) = map ref_key (sort_key ref_key refs)"
    by (simp add: table_refs_def ref_key_def key_of_def reftable_ref_record_key_def c_deref_def split: option.splits)
  then show "sorted_wrt (<) (map (key_of E) (table_refs refs))" using ref_order.sorted_strictly assms(1) by (simp add: input_ok_def)
  show "\<forall>r \<in> set (table_refs refs). cmp_ok BLOCK_TYPE_REF len r"
    using assms by (auto simp: table_refs_def input_ok_def ref_ok_def name_ok_def split: option.splits)
qed
text \<open>Log records are compared by their update indices as 32 bit integers.\<close>

lemma log_norm_key [simp]: "log_name (log_norm l) = log_name l" "log_update_index (log_norm l) = log_update_index l"
  by (simp_all add: log_norm_def split: log_value.splits)

lemma table_logs_ok:
  assumes "input_ok E opts refs logs" "hash_size E (wo_hash_id opts) = Ok hsz" "\<forall>l \<in> set logs. unat (log_update_index l) < 2 ^ 31"
  shows "sorted_wrt (<) (map (key_of E) (table_logs E opts logs))" "\<forall>r \<in> set (table_logs E opts logs). cmp_ok BLOCK_TYPE_LOG len r"
proof -
  have "map (key_of E) (table_logs E opts logs) = map (log_key E) (sort_key (log_key E) logs)"
    by (simp add: table_logs_def log_key_def key_of_def reftable_log_record_key_def c_deref_def split: option.splits)
  then show "sorted_wrt (<) (map (key_of E) (table_logs E opts logs))" using log_order.sorted_strictly assms(1) by (simp add: input_ok_def)
  show "\<forall>r \<in> set (table_logs E opts logs). cmp_ok BLOCK_TYPE_LOG len r"
    using assms by (auto simp: table_logs_def input_ok_def log_ok_def name_ok_def split: option.splits)
qed

text \<open>The merged list is what a client gets.\<close>

lemma merged_refs_listing:
  assumes "env_ok E" "appends S out" "hash_size E (wo_hash_id (all_options E opts)) = Ok hsz"
    and tabs: "holds_tables E S out opts srcs tabs"
    and want: "reftable_ref_record_key want = Ok k"
  shows "keys_sorted E (map (table_refs \<circ> fst) tabs)"
    "\<exists>mt. open_merged E (wo_hash_id (all_options E opts)) suppress srcs = Ok mt \<and> merged_refs_from E mt want =
      Some (Ok (dropWhile (\<lambda>r. key_of E r < k) (merged_list E suppress (map (table_refs \<circ> fst) tabs))))"
proof -
  let ?ls = "map (table_refs \<circ> fst) tabs"
  from open_merged_shows [OF assms(1-4), of suppress] obtain mt where
    mt: "open_merged E (wo_hash_id (all_options E opts)) suppress srcs = Ok mt" "mt_suppress_deletions mt = suppress"
    and rd: "list_all2 (reader_shows E (wo_restart_interval (all_options E opts)) hsz BLOCK_TYPE_REF) (mt_readers mt) ?ls" by blast
  have ok: "lists_ok E BLOCK_TYPE_REF 0 ?ls"
    using holds_tables_inputs [OF tabs] table_refs_ok [OF _ assms(3)] assms(1) by (fastforce simp: lists_ok_def env_ok_def)
  then show "keys_sorted E ?ls" by (simp add: lists_ok_def keys_sorted_def)
  from merged_table_list_from [OF rd ok, of "Rec_Ref want" k] want mt
  show "\<exists>mt. open_merged E (wo_hash_id (all_options E opts)) suppress srcs = Ok mt \<and> merged_refs_from E mt want =
      Some (Ok (dropWhile (\<lambda>r. key_of E r < k) (merged_list E suppress ?ls)))"
    by (auto simp: merged_refs_from_def reftable_merged_table_init_ref_iterator_def)
qed

lemma merged_logs_listing:
  assumes "env_ok E" "appends S out" "hash_size E (wo_hash_id (all_options E opts)) = Ok hsz"
    and tabs: "holds_tables E S out opts srcs tabs"
    and small: "\<forall>(refs, logs) \<in> set tabs. \<forall>l \<in> set logs. unat (log_update_index l) < 2 ^ 31"
    and want: "reftable_log_record_key E want = Ok k"
  shows "keys_sorted E (map (table_logs E (all_options E opts) \<circ> snd) tabs)"
    "\<exists>mt. open_merged E (wo_hash_id (all_options E opts)) suppress srcs = Ok mt \<and> merged_logs_from E mt want =
      Some (Ok (dropWhile (\<lambda>r. key_of E r < k) (merged_list E suppress (map (table_logs E (all_options E opts) \<circ> snd) tabs))))"
proof -
  let ?ls = "map (table_logs E (all_options E opts) \<circ> snd) tabs"
  from open_merged_shows [OF assms(1-4), of suppress] obtain mt where
    mt: "open_merged E (wo_hash_id (all_options E opts)) suppress srcs = Ok mt" "mt_suppress_deletions mt = suppress"
    and rd: "list_all2 (reader_shows E (wo_restart_interval (all_options E opts)) hsz BLOCK_TYPE_LOG) (mt_readers mt) ?ls" by blast
  have ok: "lists_ok E BLOCK_TYPE_LOG 0 ?ls"
    using holds_tables_inputs [OF tabs] table_logs_ok [OF _ assms(3)] small assms(1) by (fastforce simp: lists_ok_def env_ok_def)
  then show "keys_sorted E ?ls" by (simp add: lists_ok_def keys_sorted_def)
  from merged_table_list_from [OF rd ok, of "Rec_Log want" k] want mt
  show "\<exists>mt. open_merged E (wo_hash_id (all_options E opts)) suppress srcs = Ok mt \<and> merged_logs_from E mt want =
      Some (Ok (dropWhile (\<lambda>r. key_of E r < k) (merged_list E suppress ?ls)))"
    by (auto simp: merged_logs_from_def reftable_merged_table_init_log_iterator_def)
qed

end
