(* ===== verification/Reft_Sample_Table.thy ===== *)
theory Reft_Sample_Table
  imports Reft_Roundtrip Reft_Sample
begin

text \<open>
  Two small tables for the witnesses: the caller collects the output in a byte string. The blocks
  are so small that the references of the first table need two of them, so that it has an index and
  an object index.
\<close>

definition buf_sink :: "bytes write_ops" where
  "buf_sink = \<lparr>wf_write = (\<lambda>s d. Ok (s @ d)), wf_flush = Ok\<rparr>"

lemma buf_sink_appends [simp]: "appends buf_sink (\<lambda>s. s)"
  by (simp add: appends_def buf_sink_def)

definition sample_opts :: reftable_write_options where
  "sample_opts = \<lparr>wo_unpadded = True, wo_block_size = 42, wo_skip_index_objects = False, wo_restart_interval = 0,
     wo_hash_id = HASH_NONE, wo_exact_log_message = False\<rparr>"

definition small_ref :: "byte \<Rightarrow> byte \<Rightarrow> ref_record" where
  "small_ref n v = \<lparr>ref_name = Some [n], ref_update_index = 5, ref_value = Ref_Val1 [v, 1, 2, 3]\<rparr>"

definition small_log :: "byte \<Rightarrow> log_record" where
  "small_log n = \<lparr>log_name = Some [n], log_update_index = 5, log_value = Log_Deletion\<rparr>"

lemma sample_env_ok [simp]: "env_ok sample_env"
  by (simp add: env_ok_def format_ids_ok_def)

lemma sample_options: "all_options sample_env (Some sample_opts) = sample_opts\<lparr>wo_restart_interval := 16, wo_hash_id := HASH_SHA1\<rparr>"
  by (simp add: all_options_def options_set_defaults_def sample_opts_def)

lemma small_ref_simps [simp]:
  "ref_key (small_ref n v) = c_str [n]" "rec_hashes (Rec_Ref (small_ref n v)) = {[v, 1, 2, 3]}" "ref_ok sample_env 4 (small_ref n v) \<longleftrightarrow> n \<noteq> 0"
  by (auto simp: small_ref_def ref_key_def ref_ok_def name_ok_def)

lemma small_log_simps [simp]:
  "stored_log opts (small_log n) = small_log n" "log_norm (small_log n) = small_log n" "log_ok sample_env 4 (small_log n) \<longleftrightarrow> n \<noteq> 0"
  by (auto simp: small_log_def stored_log_def log_norm_def log_ok_def name_ok_def)

lemma c_str_byte [simp]: "n \<noteq> 0 \<Longrightarrow> c_str [n] = [n]"
  by (simp add: c_str_def)

lemma small_ref_key [simp]:
  "reftable_ref_record_key (small_ref n v) = Ok (c_str [n])" "key_of E (Rec_Ref (small_ref n v)) = c_str [n]"
  by (simp_all add: small_ref_def key_of_def reftable_ref_record_key_def c_deref_def)

text \<open>Equations for the evaluation of the witnesses: comparisons with large numbers are done on integers.\<close>

lemma reftable_writer_new_code [code]:
  "reftable_writer_new E sink opts_ptr =
     (let opts = options_set_defaults E (case opts_ptr of Some opts \<Rightarrow> opts | None \<Rightarrow> zero_write_options) in
      if int (wo_block_size opts) \<ge> 16777216 then Crash Bug
      else if \<not> alloc_array E (wo_block_size opts) then Err OUT_OF_MEMORY_ERROR
      else let w = \<lparr>wr_sink = sink, wr_opts = opts, wr_next = 0, wr_pending_padding = 0,
             wr_min_update_index = 0, wr_max_update_index = 0, wr_last_key = [],
             wr_block = replicate (wo_block_size opts) 0, wr_block_writer = None, wr_index = [],
             wr_obj_index_tree = Leaf, wr_obj_offsets = (\<lambda>_. []),
             wr_stats = \<lparr>st_all_blocks = 0, st_ref = zero_block_stats, st_obj = zero_block_stats,
               st_idx = zero_block_stats, st_log = zero_block_stats, st_object_id_len = 0\<rparr>\<rparr> in
        case writer_reinit_block_writer E w BLOCK_TYPE_REF of
          Ok w \<Rightarrow> Ok w | Err _ \<Rightarrow> Ok w | Crash c \<Rightarrow> Crash c)"
proof -
  have "wo_block_size x \<ge> 2 ^ 24 \<longleftrightarrow> int (wo_block_size x) \<ge> 16777216" for x by simp
  then show ?thesis unfolding reftable_writer_new_def by simp
qed

lemma file_read_block_code [code]:
  "file_read_block b off sz = (if \<not> int (off + sz) mod 18446744073709551616 \<le> int (length b) then Crash Assert_Failed else read_at off sz b)"
proof -
  have "int ((off + sz) mod 2 ^ 64) = int (off + sz) mod 18446744073709551616" by (simp add: zmod_int)
  then show ?thesis unfolding file_read_block_def by (metis of_nat_le_iff)
qed

lemma sample_input_ok: "input_ok sample_env (all_options sample_env (Some sample_opts)) [small_ref 98 7, small_ref 97 8] [small_log 98]"
proof -
  have "common_prefix_size [7, 1, 2, 3 :: byte] [8, 1, 2, 3] = 0" "common_prefix_size [8, 1, 2, 3 :: byte] [7, 1, 2, 3] = 0" by code_simp+
  moreover have "ref_hashes [small_ref 98 7, small_ref 97 8] = {[7, 1, 2, 3], [8, 1, 2, 3]}" by (auto simp: ref_hashes_def small_ref_def)
  moreover have "c_str [98 :: byte] \<noteq> c_str [97]" by code_simp
  ultimately show ?thesis unfolding input_ok_def sample_options by (simp add: sample_opts_def)
qed

text \<open>What an evaluation by case distinction shows.\<close>

lemma evaluated:
  "(case m of Some x \<Rightarrow> P x | None \<Rightarrow> False) \<longleftrightarrow> (\<exists>x. m = Some x \<and> P x)"
  "(case r of Ok x \<Rightarrow> Q x | _ \<Rightarrow> False) \<longleftrightarrow> (\<exists>x. r = Ok x \<and> Q x)"
  by (simp_all split: option.splits res.splits)

lemma sample_written:
  "\<exists>s. write_table sample_env buf_sink [] (Some sample_opts) 3 9 [small_ref 98 7, small_ref 97 8] [small_log 98] = Some (Ok s) \<and> length s < 1000"
proof -
  have "case write_table sample_env buf_sink [] (Some sample_opts) 3 9 [small_ref 98 7, small_ref 97 8] [small_log 98] of
      Some (Ok s) \<Rightarrow> length s < 1000 | _ \<Rightarrow> False" by code_simp
  then show ?thesis unfolding evaluated by blast
qed
text \<open>A newer table that deletes a reference of the first one.\<close>

definition small_del :: "byte \<Rightarrow> ref_record" where
  "small_del n = \<lparr>ref_name = Some [n], ref_update_index = 11, ref_value = Ref_Deletion\<rparr>"

lemma small_del_simps [simp]:
  "ref_key (small_del n) = c_str [n]" "ref_ok sample_env 4 (small_del n) \<longleftrightarrow> n \<noteq> 0" "ref_hashes [small_del n] = {}"
  "key_of E (Rec_Ref (small_del n)) = c_str [n]" "reftable_ref_record_is_deletion (small_del n)" "\<not> reftable_ref_record_is_deletion (small_ref n v)"
  by (auto simp: small_del_def small_ref_def ref_key_def ref_ok_def name_ok_def ref_hashes_def key_of_def reftable_ref_record_key_def c_deref_def
      reftable_ref_record_is_deletion_def)

lemma newer_input_ok: "input_ok sample_env (all_options sample_env (Some sample_opts)) [small_del 97] []"
  unfolding input_ok_def sample_options by (simp add: sample_opts_def)

lemma newer_written:
  "\<exists>s. write_table sample_env buf_sink [] (Some sample_opts) 11 11 [small_del 97] [] = Some (Ok s) \<and> length s < 1000"
proof -
  have "case write_table sample_env buf_sink [] (Some sample_opts) 11 11 [small_del 97] [] of
      Some (Ok s) \<Rightarrow> length s < 1000 | _ \<Rightarrow> False" by code_simp
  then show ?thesis unfolding evaluated by blast
qed

end
