(* ===== verification/Reft_Props_Table.thy ===== *)
theory Reft_Props_Table
  imports Reft_Compose Reft_Sample_Table
begin

text \<open>
  The properties of whole tables: what is written is what is read, for one table and for several
  merged ones.
\<close>

section \<open>Round trips\<close>

text \<open>
  (C1) The references of a table that has been written without error are read back: opening the
  file and listing the references from some name on gives those that were added, sorted by name,
  from that name on. The index, if there is one, is used, and it does not change the result.
\<close>

theorem table_refs_round_trip:
  assumes "env_ok E" "appends S out" "out sink = []" "input_ok E (all_options E opts_ptr) refs logs"
    and "write_table E S sink opts_ptr mn mx refs logs = Some (Ok s)" "length (out s) < 2 ^ 59" "source_of src (out s)"
    and k: "reftable_ref_record_key want = Ok k"
  shows "list_refs_from E src name want =
    Some (Ok (dropWhile (\<lambda>r. key_of E r < k) (map Rec_Ref (sort_key ref_key refs))))"
proof -
  from written_shows [OF assms(1-7), of name] obtain hsz r where r: "reftable_reader_new E src name = Ok r"
    "reader_shows E (wo_restart_interval (all_options E opts_ptr)) hsz BLOCK_TYPE_REF r (map Rec_Ref (sort_key ref_key refs))" by blast
  from reader_list_from [OF r(2), of "Rec_Ref want" k] k r(1) show ?thesis
    by (auto simp: list_refs_from_def reftable_reader_init_ref_iterator_def)
qed

theorem table_refs_round_trip_witness:
  "\<exists>s. write_table sample_env buf_sink [] (Some sample_opts) 3 9 [small_ref 98 7, small_ref 97 8] [small_log 98] = Some (Ok s)
     \<and> list_refs_from sample_env (block_source_from_file s) [] (small_ref 98 0) = Some (Ok [Rec_Ref (small_ref 98 7)])"
proof -
  obtain s where s: "write_table sample_env buf_sink [] (Some sample_opts) 3 9 [small_ref 98 7, small_ref 97 8] [small_log 98] = Some (Ok s)"
    "length s < 1000" using sample_written by blast
  have "dropWhile (\<lambda>r. key_of sample_env r < c_str [98]) (map Rec_Ref (sort_key ref_key [small_ref 98 7, small_ref 97 8])) = [Rec_Ref (small_ref 98 7)]"
    by simp
  with table_refs_round_trip [OF sample_env_ok buf_sink_appends refl sample_input_ok s(1), of "block_source_from_file s" "small_ref 98 0" "c_str [98]" "[]"]
    s source_of_file [of s] show ?thesis by simp
qed
text \<open>
  (C4) The log records of a table that has been written without error are read back in the same way,
  sorted by name and by descending update index. Their messages are as the writer stores them, and
  absent strings come back empty.
\<close>

theorem table_logs_round_trip:
  assumes "env_ok E" "appends S out" "out sink = []" "input_ok E (all_options E opts_ptr) refs logs"
    and "write_table E S sink opts_ptr mn mx refs logs = Some (Ok s)" "length (out s) < 2 ^ 59" "source_of src (out s)"
    and k: "reftable_log_record_key E want = Ok k"
  shows "list_logs_from E src name want =
    Some (Ok (dropWhile (\<lambda>r. key_of E r < k) (map (\<lambda>l. Rec_Log (log_norm (stored_log (all_options E opts_ptr) l))) (sort_key (log_key E) logs))))"
proof -
  from written_shows [OF assms(1-7), of name] obtain hsz r where r: "reftable_reader_new E src name = Ok r"
    "reader_shows E (wo_restart_interval (all_options E opts_ptr)) hsz BLOCK_TYPE_LOG r (map (\<lambda>l. Rec_Log (log_norm (stored_log (all_options E opts_ptr) l))) (sort_key (log_key E) logs))" by blast
  from reader_list_from [OF r(2), of "Rec_Log want" k] k r(1) show ?thesis
    by (auto simp: list_logs_from_def reftable_reader_init_log_iterator_def)
qed

theorem table_logs_round_trip_witness:
  "\<exists>s. write_table sample_env buf_sink [] (Some sample_opts) 3 9 [small_ref 98 7, small_ref 97 8] [small_log 98] = Some (Ok s)
     \<and> list_logs_from sample_env (block_source_from_file s) [] (small_log 98) = Some (Ok [Rec_Log (small_log 98)])"
proof -
  obtain s where s: "write_table sample_env buf_sink [] (Some sample_opts) 3 9 [small_ref 98 7, small_ref 97 8] [small_log 98] = Some (Ok s)"
    "length s < 1000" using sample_written by blast
  obtain k where k: "reftable_log_record_key sample_env (small_log 98) = Ok k" "key_of sample_env (Rec_Log (small_log 98)) = k"
    by (simp add: small_log_def key_of_def reftable_log_record_key_def c_deref_def)
  with table_logs_round_trip [OF sample_env_ok buf_sink_appends refl sample_input_ok s(1), of "block_source_from_file s" "small_log 98" k "[]"]
    s source_of_file [of s] show ?thesis by simp
qed

section \<open>Merged tables\<close>

text \<open>
  (C3) The references of several written tables, read through a merged table, are sorted by name. From
  the wanted name on they are exactly those that no newer table overrides, without the deletions if
  these are suppressed.
\<close>

theorem merged_refs_newest:
  assumes "env_ok E" "appends S out" "hash_size E (wo_hash_id (all_options E opts)) = Ok hsz"
    and tabs: "holds_tables E S out opts srcs tabs"
    and want: "reftable_ref_record_key want = Ok k"
  shows "\<exists>mt l. open_merged E (wo_hash_id (all_options E opts)) suppress srcs = Ok mt \<and> merged_refs_from E mt want = Some (Ok l)
    \<and> sorted_wrt (<) (map (key_of E) l)
    \<and> (\<forall>r. r \<in> set l \<longleftrightarrow> newest E (map (map Rec_Ref \<circ> fst) tabs) r \<and> k \<le> key_of E r \<and> \<not> (suppress \<and> reftable_record_is_deletion r))"
proof -
  have new: "newest E (map (table_refs \<circ> fst) tabs) r = newest E (map (map Rec_Ref \<circ> fst) tabs) r" for r
    by (rule newest_cong) (simp add: table_refs_def)
  note l = merged_refs_listing [OF assms]
  from l(2) [of suppress] merged_list_from [OF l(1), where k = k and suppress = suppress] show ?thesis by (auto simp: new)
qed

lemma newest_two: "newest E [a, b] r \<longleftrightarrow> r \<in> set b \<or> r \<in> set a \<and> key_of E r \<notin> key_of E ` set b"
  by (auto simp: newest_def Ex_less_Suc2 All_less_Suc2)

theorem merged_refs_newest_witness:
  "\<exists>s t mt l. write_table sample_env buf_sink [] (Some sample_opts) 3 9 [small_ref 98 7, small_ref 97 8] [small_log 98] = Some (Ok s)
     \<and> write_table sample_env buf_sink [] (Some sample_opts) 11 11 [small_del 97] [] = Some (Ok t)
     \<and> open_merged sample_env HASH_SHA1 True [(block_source_from_file s, []), (block_source_from_file t, [])] = Ok mt
     \<and> merged_refs_from sample_env mt (small_ref 97 0) = Some (Ok l)
     \<and> Rec_Ref (small_ref 98 7) \<in> set l \<and> Rec_Ref (small_ref 97 8) \<notin> set l \<and> Rec_Ref (small_del 97) \<notin> set l"
proof -
  obtain s where s: "write_table sample_env buf_sink [] (Some sample_opts) 3 9 [small_ref 98 7, small_ref 97 8] [small_log 98] = Some (Ok s)"
    "length s < 1000" using sample_written by blast
  obtain t where t: "write_table sample_env buf_sink [] (Some sample_opts) 11 11 [small_del 97] [] = Some (Ok t)"
    "length t < 1000" using newer_written by blast
  let ?tabs = "[([small_ref 98 7, small_ref 97 8], [small_log 98]), ([small_del 97], [])]"
  have "holds_table sample_env buf_sink (\<lambda>s. s) (Some sample_opts) (block_source_from_file s) [small_ref 98 7, small_ref 97 8] [small_log 98]"
    using s(2) source_of_file [of s] by (intro holds_tableI [OF sample_input_ok s(1)]) simp_all
  moreover have "holds_table sample_env buf_sink (\<lambda>s. s) (Some sample_opts) (block_source_from_file t) [small_del 97] []"
    using t(2) source_of_file [of t] by (intro holds_tableI [OF newer_input_ok t(1)]) simp_all
  ultimately have tabs: "holds_tables sample_env buf_sink (\<lambda>s. s) (Some sample_opts)
      [(block_source_from_file s, []), (block_source_from_file t, [])] ?tabs" by simp
  have "small_ref 97 8 \<noteq> small_del 97" by (simp add: small_ref_def small_del_def)
  then have new: "newest sample_env (map (map Rec_Ref \<circ> fst) ?tabs) (Rec_Ref (small_ref 98 7))"
    "\<not> newest sample_env (map (map Rec_Ref \<circ> fst) ?tabs) (Rec_Ref (small_ref 97 8))"
    by (simp_all add: newest_two)
  have id: "wo_hash_id (all_options sample_env (Some sample_opts)) = HASH_SHA1" unfolding sample_options by simp
  have "hash_size sample_env HASH_SHA1 = Ok 4" by simp
  from merged_refs_newest [OF sample_env_ok buf_sink_appends _ tabs, of 4 "small_ref 97 0" "c_str [97]" True, unfolded id, OF this] obtain mt l where
    "open_merged sample_env HASH_SHA1 True [(block_source_from_file s, []), (block_source_from_file t, [])] = Ok mt"
    "merged_refs_from sample_env mt (small_ref 97 0) = Some (Ok l)"
    "\<forall>r. r \<in> set l \<longleftrightarrow> newest sample_env (map (map Rec_Ref \<circ> fst) ?tabs) r \<and> c_str [97] \<le> key_of sample_env r \<and> \<not> reftable_record_is_deletion r"
    by auto
  moreover from this(3) new have "Rec_Ref (small_ref 98 7) \<in> set l" "Rec_Ref (small_ref 97 8) \<notin> set l" "Rec_Ref (small_del 97) \<notin> set l"
    by simp_all
  ultimately show ?thesis using s(1) t(1) by blast
qed


end
