(* ===== verification/Reft_Stack.thy ===== *)
theory Reft_Stack
  imports Reft_Merged Reft_Writer
begin

text \<open>
  The stack of tables in a directory (\<open>reftable_stack.c\<close>). What the operating system does is an
  argument: the contents of the files when they are opened, whether a lock could be taken, the
  clock, the random suffix of a name. Other processes may change files between two looks at them, so
  that each look has an argument of its own. The functions return the stack and the files
  as they leave them. Failing \<open>chmod\<close>, \<open>fsync\<close> and \<open>rename\<close>, running out of memory, and
  the counters of attempts and failures are left out.
\<close>

section \<open>Files and names\<close>

datatype file_look = Absent | Unreadable | Contents bytes
datatype stat_look = Stat_Absent | Stat_Failed | Stat_Same | Stat_Other
datatype lock_look = Locked | Lock_Exists | Lock_Failed

type_synonym files = "bytes \<Rightarrow> file_look"

record compaction_stats =
  cs_bytes :: u64
  cs_entries_written :: u64

record reftable_stack =
  rs_dir :: bytes
  rs_list_file :: bytes
  rs_opts :: reftable_write_options
  rs_auto_compaction_factor :: byte
  rs_disable_auto_compact :: bool
  rs_readers :: "reftable_reader list"
  rs_merged :: "reftable_merged_table option"
  rs_stats :: compaction_stats

definition stack_filename :: "reftable_stack \<Rightarrow> bytes \<Rightarrow> bytes" where
  "stack_filename st name = rs_dir st @ [47] @ c_str name"

definition fd_read_lines :: "bytes \<Rightarrow> bytes list res" where
  "fd_read_lines contents = parse_names (contents @ [0]) (length contents)"

definition read_lines :: "file_look \<Rightarrow> bytes list res" where
  "read_lines f = (case f of Absent \<Rightarrow> Ok [] | Unreadable \<Rightarrow> Err IO_ERROR | Contents bs \<Rightarrow> fd_read_lines bs)"

fun has_name :: "bytes list \<Rightarrow> bytes \<Rightarrow> bool" where
  "has_name [] name = False"
| "has_name (n # names) name = (if strcmp n name = 0 then True else has_name names name)"

text \<open>The conversions \<open>%012x\<close> and \<open>%08x\<close> of \<open>snprintf\<close>.\<close>

definition hex_digit :: "nat \<Rightarrow> byte" where
  "hex_digit n = word_of_nat (if n < 10 then 48 + n else 87 + n)"

fun hex_digits :: "nat \<Rightarrow> bytes" where
  "hex_digits n = (if n < 16 then [hex_digit n] else hex_digits (n div 16) @ [hex_digit (n mod 16)])"

declare hex_digits.simps [simp del]

definition hex_padded :: "nat \<Rightarrow> nat \<Rightarrow> bytes" where
  "hex_padded width n = replicate (width - length (hex_digits n)) 48 @ hex_digits n"

definition format_name :: "u64 \<Rightarrow> u64 \<Rightarrow> u32 \<Rightarrow> bytes" where
  "format_name mn mx rnd =
     [48, 120] @ hex_padded 12 (unat mn) @ [45, 48, 120] @ hex_padded 12 (unat mx) @ [45] @ hex_padded 8 (unat rnd)"

definition dot_ref :: bytes where
  "dot_ref = [46, 114, 101, 102]"

text \<open>The part of a name from its last dot on is \<open>.ref\<close>.\<close>

definition is_table_name :: "bytes \<Rightarrow> bool" where
  "is_table_name s =
     (46 \<in> set (c_str s) \<and> strcmp (46 # rev (takeWhile (\<lambda>b. b \<noteq> 46) (rev (c_str s)))) dot_ref = 0)"

definition table_lines :: "bytes list \<Rightarrow> bytes" where
  "table_lines names = concat (map (\<lambda>n. c_str n @ [10]) names)"

section \<open>Reading\<close>

definition reftable_stack_merged_table :: "reftable_stack \<Rightarrow> reftable_merged_table res" where
  "reftable_stack_merged_table st = (case rs_merged st of None \<Rightarrow> Crash Null_Deref | Some mt \<Rightarrow> Ok mt)"

definition reftable_stack_init_ref_iterator :: "reftable_stack \<Rightarrow> reader_iter merged_iter res" where
  "reftable_stack_init_ref_iterator st =
     res_bind (reftable_stack_merged_table st) (\<lambda>mt. merged_table_init_iter mt BLOCK_TYPE_REF)"

definition reftable_stack_init_log_iterator :: "reftable_stack \<Rightarrow> reader_iter merged_iter res" where
  "reftable_stack_init_log_iterator st =
     res_bind (reftable_stack_merged_table st) (\<lambda>mt. merged_table_init_iter mt BLOCK_TYPE_LOG)"

abbreviation merged_ops :: "reftable_env \<Rightarrow> reader_iter merged_iter iterator_ops" where
  "merged_ops E \<equiv> merged_iter_vtable (reader_iter_vtable E)"

text \<open>A record, or none when C returns a positive number.\<close>

definition reftable_stack_read_ref :: "reftable_env \<Rightarrow> reftable_stack \<Rightarrow> bytes \<Rightarrow> ref_record \<Rightarrow> ref_record option run" where
  "reftable_stack_read_ref E st refname ref =
     run_bind (Some (res_bind (reftable_stack_merged_table st) reftable_merged_table_init_ref_iterator)) (\<lambda>it.
     run_bind (reftable_iterator_seek_ref (merged_ops E) it refname) (\<lambda>(it, found).
     if \<not> found then Some (Ok None)
     else run_bind (reftable_iterator_next_ref (merged_ops E) it ref) (\<lambda>(it, r).
       case r of
         None \<Rightarrow> Some (Ok None)
       | Some ref \<Rightarrow>
           run_bind (Some (c_deref (ref_name ref))) (\<lambda>name.
             if strcmp name refname \<noteq> 0 \<or> reftable_ref_record_is_deletion ref then Some (Ok None)
             else Some (Ok (Some ref))))))"

definition reftable_stack_read_log :: "reftable_env \<Rightarrow> reftable_stack \<Rightarrow> bytes \<Rightarrow> log_record \<Rightarrow> log_record option run" where
  "reftable_stack_read_log E st refname log =
     run_bind (Some (reftable_stack_init_log_iterator st)) (\<lambda>it.
     run_bind (reftable_iterator_seek_log (merged_ops E) it refname) (\<lambda>(it, found).
     if \<not> found then Some (Ok None)
     else run_bind (reftable_iterator_next_log (merged_ops E) it log) (\<lambda>(it, r).
       case r of
         None \<Rightarrow> Some (Ok None)
       | Some log \<Rightarrow>
           run_bind (Some (c_deref (log_name log))) (\<lambda>name.
             if strcmp name refname \<noteq> 0 \<or> reftable_log_record_is_deletion log then Some (Ok None)
             else Some (Ok (Some log))))))"

definition reftable_stack_hash_id :: "reftable_stack \<Rightarrow> reftable_hash res" where
  "reftable_stack_hash_id st = res_bind (reftable_stack_merged_table st) (\<lambda>mt. Ok (reftable_merged_table_hash_id mt))"

definition reftable_stack_next_update_index :: "reftable_stack \<Rightarrow> u64 res" where
  "reftable_stack_next_update_index st =
     res_bind (reftable_stack_merged_table st) (\<lambda>mt.
     let sz = length (mt_readers mt) in
     if sz > 0 then
       (if sz - 1 < length (rs_readers st) then Ok (reftable_reader_max_update_index (rs_readers st ! (sz - 1)) + 1)
        else Crash Out_Of_Bounds)
     else Ok 1)"

section \<open>Loading the tables of the list\<close>

text \<open>The first open table with a name; it is taken out of the array.\<close>

fun take_reader :: "bytes \<Rightarrow> reftable_reader option list \<Rightarrow> (reftable_reader \<times> reftable_reader option list) option" where
  "take_reader name [] = None"
| "take_reader name (None # cur) = map_option (\<lambda>(rd, cur). (rd, None # cur)) (take_reader name cur)"
| "take_reader name (Some rd # cur) =
     (if strcmp (rd_name rd) name = 0 then Some (rd, None # cur)
      else map_option (\<lambda>(rd', cur). (rd', Some rd # cur)) (take_reader name cur))"

text \<open>
  Opening a table. When it exists but cannot be opened, \<open>reftable_block_source_from_file\<close> frees a
  variable that has not been set.
\<close>

definition open_table :: "reftable_env \<Rightarrow> files \<Rightarrow> reftable_stack \<Rightarrow> bytes \<Rightarrow> reftable_reader res" where
  "open_table E files st name =
     (case files (stack_filename st name) of
        Absent \<Rightarrow> Err NOT_EXIST_ERROR
      | Unreadable \<Rightarrow> Crash Uninitialised
      | Contents bs \<Rightarrow> reftable_reader_new E (block_source_from_file bs) name)"

text \<open>The readers for a list of names, with the mark whether they are reused, and the open tables that are left.\<close>

fun reload_readers ::
  "reftable_env \<Rightarrow> files \<Rightarrow> reftable_stack \<Rightarrow> bool \<Rightarrow> reftable_reader option list \<Rightarrow> bytes list
   \<Rightarrow> (reftable_reader option list \<times> (reftable_reader \<times> bool) list) res" where
  "reload_readers E files st reuse_open cur [] = Ok (cur, [])"
| "reload_readers E files st reuse_open cur (name # names) =
     (case (if reuse_open then take_reader name cur else None) of
        Some (rd, cur) \<Rightarrow>
          res_bind (reftable_reader_incref rd) (\<lambda>rd.
          res_bind (reload_readers E files st reuse_open cur names) (\<lambda>(cur, rds). Ok (cur, (rd, True) # rds)))
      | None \<Rightarrow>
          res_bind (open_table E files st name) (\<lambda>rd.
          res_bind (reload_readers E files st reuse_open cur names) (\<lambda>(cur, rds). Ok (cur, (rd, False) # rds))))"

text \<open>The readers that are no longer in the list are released, and their files removed.\<close>

fun drop_readers :: "reftable_stack \<Rightarrow> reftable_reader option list \<Rightarrow> files \<Rightarrow> files res" where
  "drop_readers st [] files = Ok files"
| "drop_readers st (None # cur) files = drop_readers st cur files"
| "drop_readers st (Some rd # cur) files =
     res_bind (reftable_reader_decref (Some rd)) (\<lambda>_.
       drop_readers st cur (files(stack_filename st (rd_name rd) := Absent)))"

fun release_reused :: "(reftable_reader \<times> bool) list \<Rightarrow> reftable_reader list res" where
  "release_reused [] = Ok []"
| "release_reused ((rd, reused) # rds) =
     res_bind (if reused then reftable_reader_decref (Some rd) else Ok (Some rd)) (\<lambda>rd.
     res_bind (release_reused rds) (\<lambda>rs. case rd of None \<Rightarrow> Crash Null_Deref | Some rd \<Rightarrow> Ok (rd # rs)))"

text \<open>When it fails, the readers that were opened are closed again and the stack is as before.\<close>

definition reftable_stack_reload_once ::
  "reftable_env \<Rightarrow> files \<Rightarrow> reftable_stack \<Rightarrow> bytes list \<Rightarrow> bool \<Rightarrow> (reftable_stack \<times> files) res" where
  "reftable_stack_reload_once E files st names reuse_open =
     (let cur = (case rs_merged st of None \<Rightarrow> [] | Some mt \<Rightarrow> map Some (take (length (mt_readers mt)) (rs_readers st))) in
      res_bind (reload_readers E files st reuse_open cur names) (\<lambda>(cur, rds).
      res_bind (reftable_merged_table_new (map fst rds) (wo_hash_id (rs_opts st))) (\<lambda>new_merged.
      res_bind (drop_readers st cur files) (\<lambda>files.
      res_bind (release_reused rds) (\<lambda>rs.
        Ok (st\<lparr>rs_merged := Some (new_merged\<lparr>mt_readers := rs, mt_suppress_deletions := True\<rparr>),
               rs_readers := rs\<rparr>, files))))))"

text \<open>Seconds and microseconds; the difference of the seconds is returned as an \<open>int\<close>.\<close>

definition tv_cmp :: "int \<times> int \<Rightarrow> int \<times> int \<Rightarrow> int" where
  "tv_cmp a b =
     (let diff = fst a - fst b; udiff = snd a - snd b in
      if diff \<noteq> 0 then signed_take_bit 31 diff else udiff)"

text \<open>
  What a reload finds: the clock at the start and at each try, the list, the files, and the
  list when it is read again because a table was missing.
\<close>

record reload_world =
  rw_start :: "int \<times> int"
  rw_now :: "nat \<Rightarrow> int \<times> int"
  rw_list :: "nat \<Rightarrow> file_look"
  rw_files :: "nat \<Rightarrow> files"
  rw_list_after :: "nat \<Rightarrow> file_look"

text \<open>When the deadline has passed, the loop is left with the zero that \<open>gettimeofday\<close> has returned.\<close>

partial_function (option) reload_loop ::
  "reftable_env \<Rightarrow> reload_world \<Rightarrow> bool \<Rightarrow> reftable_stack \<Rightarrow> nat \<Rightarrow> (reftable_stack \<times> files) run" where
  "reload_loop E rw reuse_open st tries =
     (if tries + 1 > 3 \<and> tv_cmp (rw_now rw tries) (fst (rw_start rw) + 3, snd (rw_start rw)) \<ge> 0
      then Some (Ok (st, rw_files rw tries))
      else run_bind (Some (read_lines (rw_list rw tries))) (\<lambda>names.
        case reftable_stack_reload_once E (rw_files rw tries) st names reuse_open of
          Ok (st, files) \<Rightarrow> Some (Ok (st, files))
        | Crash c \<Rightarrow> Some (Crash c)
        | Err e \<Rightarrow>
            if e \<noteq> NOT_EXIST_ERROR then Some (Err e)
            else run_bind (Some (read_lines (rw_list_after rw tries))) (\<lambda>names_after.
              run_bind (Some (names_equal (map Some names_after @ [None]) (map Some names @ [None]))) (\<lambda>same.
                if same then Some (Err NOT_EXIST_ERROR)
                else reload_loop E rw reuse_open st (tries + 1)))))"

declare reload_loop.simps [code]

definition reftable_stack_reload_maybe_reuse ::
  "reftable_env \<Rightarrow> reload_world \<Rightarrow> reftable_stack \<Rightarrow> bool \<Rightarrow> (reftable_stack \<times> files) run" where
  "reftable_stack_reload_maybe_reuse E rw st reuse_open = reload_loop E rw reuse_open st 0"

text \<open>Whether the list has changed, by the cached identity of the file or by the names in it.\<close>

fun names_changed :: "reftable_reader list \<Rightarrow> bytes list \<Rightarrow> bool" where
  "names_changed [] names = False"
| "names_changed (rd # rds) [] = True"
| "names_changed (rd # rds) (n # names) = (strcmp (rd_name rd) n \<noteq> 0 \<or> names_changed rds names)"

definition stack_uptodate :: "reftable_stack \<Rightarrow> stat_look option \<Rightarrow> file_look \<Rightarrow> bool res" where
  "stack_uptodate st stat list =
     (if stat = Some Stat_Absent then Ok (rs_readers st \<noteq> [])
      else if stat = Some Stat_Failed then Err IO_ERROR
      else if stat = Some Stat_Same then Ok False
      else res_bind (read_lines list) (\<lambda>names.
        if names_changed (rs_readers st) names then Ok True
        else res_bind (reftable_stack_merged_table st) (\<lambda>mt.
          if length (mt_readers mt) > length names then Crash Out_Of_Bounds
          else Ok (length (mt_readers mt) < length names))))"

definition reftable_stack_reload ::
  "reftable_env \<Rightarrow> reload_world \<Rightarrow> reftable_stack \<Rightarrow> stat_look option \<Rightarrow> file_look \<Rightarrow> (reftable_stack \<times> files) run" where
  "reftable_stack_reload E rw st stat list =
     run_bind (Some (stack_uptodate st stat list)) (\<lambda>changed.
       if changed then reftable_stack_reload_maybe_reuse E rw st True else Some (Ok (st, rw_files rw 0)))"

definition reftable_new_stack ::
  "reftable_env \<Rightarrow> reload_world \<Rightarrow> bytes \<Rightarrow> reftable_write_options option \<Rightarrow> byte \<Rightarrow> bool \<Rightarrow> (reftable_stack \<times> files) run" where
  "reftable_new_stack E rw dir opts_ptr factor disable_auto_compact =
     (let opts = (case opts_ptr of Some opts \<Rightarrow> opts | None \<Rightarrow> zero_write_options);
          opts = opts\<lparr>wo_hash_id := (if wo_hash_id opts = HASH_NONE then HASH_SHA1 else wo_hash_id opts)\<rparr>;
          p = \<lparr>rs_dir = c_str dir, rs_list_file = c_str dir @ [47, 116, 97, 98, 108, 101, 115, 46, 108, 105, 115, 116],
               rs_opts = opts, rs_auto_compaction_factor = factor, rs_disable_auto_compact = disable_auto_compact,
               rs_readers = [], rs_merged = None, rs_stats = \<lparr>cs_bytes = 0, cs_entries_written = 0\<rparr>\<rparr> in
      reftable_stack_reload_maybe_reuse E rw p True)"

text \<open>Destroying a stack removes the tables that are no longer listed.\<close>

fun destroy_readers :: "reftable_stack \<Rightarrow> bytes list option \<Rightarrow> reftable_reader list \<Rightarrow> files \<Rightarrow> files res" where
  "destroy_readers st names [] files = Ok files"
| "destroy_readers st names (rd # rds) files =
     res_bind (reftable_reader_decref (Some rd)) (\<lambda>_.
       destroy_readers st names rds
         (case names of
            None \<Rightarrow> files
          | Some names \<Rightarrow> if has_name names (rd_name rd) then files else files(stack_filename st (rd_name rd) := Absent)))"

definition reftable_stack_destroy :: "reftable_stack \<Rightarrow> files \<Rightarrow> files res" where
  "reftable_stack_destroy st files =
     (case read_lines (files (rs_list_file st)) of
        Crash c \<Rightarrow> Crash c
      | Err _ \<Rightarrow> destroy_readers st None (rs_readers st) files
      | Ok names \<Rightarrow> destroy_readers st (Some names) (rs_readers st) files)"

end
