(* ===== verification/Reft_Compact.thy ===== *)
theory Reft_Compact
  imports Reft_Stack
begin

text \<open>
  Writing to a stack of tables (the second half of \<open>reftable_stack.c\<close>): adding a table, compacting
  a range of tables into one, choosing that range, and removing files that nobody lists. The
  functions that write to a temporary file are a parameter; its contents are their state.
\<close>

section \<open>Merging a range of tables\<close>

record log_expiry_config =
  le_time :: u64
  le_min_update_index :: u64

text \<open>The loop over the references of the range; deletions are dropped at the bottom of the stack.\<close>

partial_function (option) compact_refs ::
  "reftable_env \<Rightarrow> 's write_ops \<Rightarrow> nat \<Rightarrow> reader_iter merged_iter \<Rightarrow> ref_record \<Rightarrow> 's reftable_writer \<Rightarrow> u64
   \<Rightarrow> ('s reftable_writer \<times> u64) run" where
  "compact_refs E S first it ref wr entries =
     run_bind (reftable_iterator_next_ref (merged_ops E) it ref) (\<lambda>(it, r).
       case r of
         None \<Rightarrow> Some (Ok (wr, entries))
       | Some ref \<Rightarrow>
           if first = 0 \<and> reftable_ref_record_is_deletion ref then compact_refs E S first it ref wr entries
           else run_bind (Some (reftable_writer_add_ref E S wr ref)) (\<lambda>wr.
             compact_refs E S first it ref wr (entries + 1)))"

declare compact_refs.simps [code]

text \<open>
  Whether a log record is old enough to be dropped. The time of a deletion, whose record has none,
  is read from the memory of an earlier record.
\<close>

definition log_expired :: "log_expiry_config option \<Rightarrow> log_record \<Rightarrow> bool res" where
  "log_expired config log =
     (case config of
        None \<Rightarrow> Ok False
      | Some c \<Rightarrow>
          if le_min_update_index c > 0 \<and> log_update_index log < le_min_update_index c then Ok True
          else if le_time c > 0 then
            (case log_value log of
               Log_Deletion \<Rightarrow> Crash Uninitialised
             | Log_Update u \<Rightarrow> Ok (log_time u < le_time c)
             | Log_Other _ u \<Rightarrow> Ok (log_time u < le_time c))
          else Ok False)"

partial_function (option) compact_logs ::
  "reftable_env \<Rightarrow> 's write_ops \<Rightarrow> nat \<Rightarrow> log_expiry_config option \<Rightarrow> reader_iter merged_iter \<Rightarrow> log_record
   \<Rightarrow> 's reftable_writer \<Rightarrow> u64 \<Rightarrow> ('s reftable_writer \<times> u64) run" where
  "compact_logs E S first config it log wr entries =
     run_bind (reftable_iterator_next_log (merged_ops E) it log) (\<lambda>(it, r).
       case r of
         None \<Rightarrow> Some (Ok (wr, entries))
       | Some log \<Rightarrow>
           if first = 0 \<and> reftable_log_record_is_deletion log then compact_logs E S first config it log wr entries
           else run_bind (Some (log_expired config log)) (\<lambda>expired.
             if expired then compact_logs E S first config it log wr entries
             else run_bind (reftable_writer_add_log E S wr log) (\<lambda>wr.
               compact_logs E S first config it log wr (entries + 1))))"

declare compact_logs.simps [code]

definition zero_ref :: ref_record where
  "zero_ref = \<lparr>ref_name = None, ref_update_index = 0, ref_value = Ref_Deletion\<rparr>"

definition zero_log :: log_record where
  "zero_log = \<lparr>log_name = None, log_update_index = 0, log_value = Log_Deletion\<rparr>"

text \<open>The readers from \<open>first\<close> to \<open>last\<close>, which is \<open>lst\<close> here.\<close>

definition stack_range :: "reftable_stack \<Rightarrow> nat \<Rightarrow> nat \<Rightarrow> reftable_reader list res" where
  "stack_range st first lst =
     (if first \<le> lst \<and> lst < length (rs_readers st)
      then Ok (take (lst - first + 1) (drop first (rs_readers st))) else Crash Out_Of_Bounds)"

definition stack_write_compact ::
  "reftable_env \<Rightarrow> 's write_ops \<Rightarrow> reftable_stack \<Rightarrow> 's reftable_writer \<Rightarrow> nat \<Rightarrow> nat \<Rightarrow> log_expiry_config option
   \<Rightarrow> (reftable_stack \<times> 's reftable_writer) run" where
  "stack_write_compact E S st wr first lst config =
     run_bind (Some (stack_range st first lst)) (\<lambda>rds.
     let size = foldl (\<lambda>b rd. b + word_of_nat (rd_size rd)) (cs_bytes (rs_stats st)) rds;
         wr = reftable_writer_set_limits wr (rd_min_update_index (rs_readers st ! first))
                (rd_max_update_index (rs_readers st ! lst)) in
     run_bind (Some (reftable_merged_table_new rds (wo_hash_id (rs_opts st)))) (\<lambda>mt.
     run_bind (Some (merged_table_init_iter mt BLOCK_TYPE_REF)) (\<lambda>it.
     run_bind (reftable_iterator_seek_ref (merged_ops E) it []) (\<lambda>(it, _).
     run_bind (compact_refs E S first it zero_ref wr 0) (\<lambda>(wr, entries).
     run_bind (Some (merged_table_init_iter mt BLOCK_TYPE_LOG)) (\<lambda>it.
     run_bind (reftable_iterator_seek_log (merged_ops E) it []) (\<lambda>(it, _).
     run_bind (compact_logs E S first config it zero_log wr entries) (\<lambda>(wr, entries).
       Some (Ok (st\<lparr>rs_stats := \<lparr>cs_bytes = size, cs_entries_written = cs_entries_written (rs_stats st) + entries\<rparr>\<rparr>, wr))))))))))"

text \<open>A test of the form \<open>err == REFTABLE_..._ERROR\<close>.\<close>

definition is_error :: "error \<Rightarrow> 'a run \<Rightarrow> bool" where
  "is_error e r = (case r of Some (Err e') \<Rightarrow> e' = e | _ \<Rightarrow> False)"

text \<open>The contents of the new table, or none when the range has become empty.\<close>

definition stack_compact_locked ::
  "reftable_env \<Rightarrow> bytes write_ops \<Rightarrow> reftable_stack \<Rightarrow> nat \<Rightarrow> nat \<Rightarrow> log_expiry_config option
   \<Rightarrow> (reftable_stack \<times> bytes option) run" where
  "stack_compact_locked E S st first lst config =
     run_bind (Some (reftable_writer_new E [] (Some (rs_opts st)))) (\<lambda>wr.
     run_bind (stack_write_compact E S st wr first lst config) (\<lambda>(st, wr).
       let err = reftable_writer_close E S wr in
       if is_error EMPTY_TABLE_ERROR err then Some (Ok (st, None))
       else run_bind err (\<lambda>s. Some (Ok (st, Some s)))))"

section \<open>Replacing the range in the list\<close>

text \<open>What a compaction meets: the locks, the list, the files when the list is locked again, the new name.\<close>

record compact_world =
  cw_list_lock :: lock_look
  cw_stat :: "stat_look option"
  cw_table_lock :: "nat \<Rightarrow> lock_look"
  cw_list_lock_again :: lock_look
  cw_files :: files
  cw_stat_again :: "stat_look option"
  cw_rnd :: u32
  cw_reload :: "files \<Rightarrow> reload_world"

definition lock_error :: "lock_look \<Rightarrow> unit res" where
  "lock_error l = (case l of Locked \<Rightarrow> Ok () | Lock_Exists \<Rightarrow> Err LOCK_ERROR | Lock_Failed \<Rightarrow> Err IO_ERROR)"

text \<open>
  The tables are locked from the last one down. With best effort, a table that is locked by another
  process ends the range, provided that two tables have been locked.
\<close>

fun lock_tables :: "compact_world \<Rightarrow> bool \<Rightarrow> nat \<Rightarrow> nat \<Rightarrow> nat \<Rightarrow> nat res" where
  "lock_tables cw best_effort first lst 0 = Ok first"
| "lock_tables cw best_effort first lst (Suc i) =
     (if Suc i \<le> first then Ok first
      else case cw_table_lock cw i of
        Locked \<Rightarrow> lock_tables cw best_effort first lst i
      | Lock_Exists \<Rightarrow> if lst - i \<ge> 2 \<and> best_effort then Ok (Suc i) else Err LOCK_ERROR
      | Lock_Failed \<Rightarrow> Err IO_ERROR)"

text \<open>Where the names of the compacted tables are in the changed list: all of them, in their order.\<close>

fun same_names :: "bytes list \<Rightarrow> bytes list \<Rightarrow> bool" where
  "same_names [] names = True"
| "same_names (old # olds) [] = False"
| "same_names (old # olds) (new # news) = (strcmp old new = 0 \<and> same_names olds news)"

fun find_compacted :: "bytes list \<Rightarrow> bytes list \<Rightarrow> nat \<Rightarrow> nat res" where
  "find_compacted olds [] i = Err OUTDATED_ERROR"
| "find_compacted olds (n # names) i =
     (if strcmp n (hd olds) \<noteq> 0 then find_compacted olds names (i + 1)
      else if same_names (tl olds) names then Ok i else Err OUTDATED_ERROR)"

text \<open>The names in the list now, and the position of the first compacted one.\<close>

definition names_to_replace ::
  "reftable_stack \<Rightarrow> nat \<Rightarrow> nat \<Rightarrow> bool \<Rightarrow> file_look \<Rightarrow> (bytes list \<times> nat) res" where
  "names_to_replace st first lst changed list =
     (if changed then
        (case list of
           Contents bs \<Rightarrow>
             res_bind (fd_read_lines bs) (\<lambda>names.
             res_bind (stack_range st first lst) (\<lambda>rds.
             res_bind (find_compacted (map rd_name rds) names 0) (\<lambda>i. Ok (names, i))))
         | _ \<Rightarrow> Err IO_ERROR)
      else res_bind (reftable_stack_merged_table st) (\<lambda>mt.
        Ok (map rd_name (take (length (mt_readers mt)) (rs_readers st)), first)))"

definition replaced_names :: "bytes list \<Rightarrow> nat \<Rightarrow> nat \<Rightarrow> bytes option \<Rightarrow> bytes list" where
  "replaced_names names first n new = take first names @ (case new of None \<Rightarrow> [] | Some name \<Rightarrow> [name]) @ drop (first + n) names"

fun unlink_tables :: "reftable_stack \<Rightarrow> reftable_reader list \<Rightarrow> files \<Rightarrow> files" where
  "unlink_tables st [] files = files"
| "unlink_tables st (rd # rds) files = unlink_tables st rds (files(stack_filename st (rd_name rd) := Absent))"

text \<open>
  Both ends belong to the range. When the list is not as it was loaded, nothing is done, and C
  returns 1.
\<close>

definition stack_compact_range ::
  "reftable_env \<Rightarrow> bytes write_ops \<Rightarrow> compact_world \<Rightarrow> reftable_stack \<Rightarrow> nat \<Rightarrow> nat \<Rightarrow> log_expiry_config option \<Rightarrow> bool
   \<Rightarrow> files \<Rightarrow> (reftable_stack \<times> files) run" where
  "stack_compact_range E S cw st first lst expiry best_effort files =
     (if first > lst \<or> expiry = None \<and> first = lst then Some (Ok (st, files))
      else run_bind (Some (lock_error (cw_list_lock cw))) (\<lambda>_.
      run_bind (Some (stack_uptodate st (cw_stat cw) (files (rs_list_file st)))) (\<lambda>changed.
      if changed then Some (Ok (st, files))
      else run_bind (Some (lock_tables cw best_effort first lst (lst + 1))) (\<lambda>first.
      run_bind (stack_compact_locked E S st first lst expiry) (\<lambda>(st, new_table).
      run_bind (Some (stack_range st first lst)) (\<lambda>rds.
      run_bind (Some (lock_error (cw_list_lock_again cw))) (\<lambda>_.
      run_bind (Some (stack_uptodate st (cw_stat_again cw) (cw_files cw (rs_list_file st)))) (\<lambda>changed.
      run_bind (Some (names_to_replace st first lst changed (cw_files cw (rs_list_file st)))) (\<lambda>(names, first_to_replace).
      let new_name = format_name (rd_min_update_index (rs_readers st ! first)) (rd_max_update_index (rs_readers st ! lst)) (cw_rnd cw) @ dot_ref;
          files = (case new_table of None \<Rightarrow> cw_files cw | Some s \<Rightarrow> (cw_files cw)(stack_filename st new_name := Contents s));
          list = table_lines (replaced_names names first_to_replace (lst - first + 1) (map_option (\<lambda>_. new_name) new_table));
          files = files(rs_list_file st := Contents list) in
      run_bind (reftable_stack_reload_maybe_reuse E (cw_reload cw files) st (first < lst)) (\<lambda>(st, files).
        Some (Ok (st, unlink_tables st rds files))))))))))))"

definition reftable_stack_compact_all ::
  "reftable_env \<Rightarrow> bytes write_ops \<Rightarrow> compact_world \<Rightarrow> reftable_stack \<Rightarrow> log_expiry_config option \<Rightarrow> files
   \<Rightarrow> (reftable_stack \<times> files) run" where
  "reftable_stack_compact_all E S cw st config files =
     run_bind (Some (reftable_stack_merged_table st)) (\<lambda>mt.
       stack_compact_range E S cw st 0 (length (mt_readers mt) - 1) config False files)"
section \<open>Choosing the range\<close>

record segment =
  seg_start :: nat
  seg_end :: nat
  seg_bytes :: u64

definition segment_size :: "segment \<Rightarrow> int" where
  "segment_size s = int (seg_end s) - int (seg_start s)"

text \<open>The first loop: from the newest table down to one that is not large enough for its successor.\<close>

fun segment_end :: "u64 list \<Rightarrow> u64 \<Rightarrow> nat \<Rightarrow> nat" where
  "segment_end sizes factor 0 = 0"
| "segment_end sizes factor (Suc i) =
     (if sizes ! i < sizes ! Suc i * factor then Suc i else segment_end sizes factor i)"

text \<open>The second loop: down to the first table, with the number of bytes of the tables that have been passed.\<close>

fun segment_start :: "u64 list \<Rightarrow> u64 \<Rightarrow> nat \<Rightarrow> u64 \<Rightarrow> segment \<Rightarrow> segment" where
  "segment_start sizes factor 0 passed seg = seg"
| "segment_start sizes factor (Suc i) passed seg =
     (let bytes = passed + sizes ! i in
      segment_start sizes factor i bytes
        (if sizes ! i < passed * factor then seg\<lparr>seg_start := i, seg_bytes := bytes\<rparr> else seg))"

text \<open>\<open>DEFAULT_GEOMETRIC_FACTOR\<close> is declared in a header; it is the first argument.\<close>

definition suggest_compaction_segment :: "byte \<Rightarrow> u64 list \<Rightarrow> byte \<Rightarrow> segment" where
  "suggest_compaction_segment default_factor sizes factor =
     (let factor = ucast (if factor = 0 then default_factor else factor);
          seg = \<lparr>seg_start = 0, seg_end = 0, seg_bytes = 0\<rparr> in
      if length sizes \<le> 1 then seg
      else let i = segment_end sizes factor (length sizes - 1) in
        if i = 0 then seg
        else segment_start sizes factor i (sizes ! i) (seg\<lparr>seg_end := i + 1\<rparr>))"

definition stack_table_sizes_for_compaction :: "reftable_stack \<Rightarrow> u64 list res" where
  "stack_table_sizes_for_compaction st =
     res_bind (reftable_stack_merged_table st) (\<lambda>mt.
     res_bind (header_size (if wo_hash_id (rs_opts st) = HASH_SHA1 then 1 else 2)) (\<lambda>hsize.
       if length (mt_readers mt) > length (rs_readers st) then Crash Out_Of_Bounds
       else Ok (map (\<lambda>rd. word_of_nat (rd_size rd) - word_of_nat (hsize - 1)) (take (length (mt_readers mt)) (rs_readers st)))))"

definition reftable_stack_auto_compact ::
  "reftable_env \<Rightarrow> bytes write_ops \<Rightarrow> byte \<Rightarrow> compact_world \<Rightarrow> reftable_stack \<Rightarrow> files \<Rightarrow> (reftable_stack \<times> files) run" where
  "reftable_stack_auto_compact E S default_factor cw st files =
     run_bind (Some (reftable_stack_merged_table st)) (\<lambda>mt.
     if length (mt_readers mt) < 2 then Some (Ok (st, files))
     else run_bind (Some (stack_table_sizes_for_compaction st)) (\<lambda>sizes.
       let seg = suggest_compaction_segment default_factor sizes (rs_auto_compaction_factor st) in
       if segment_size seg > 0 then stack_compact_range E S cw st (seg_start seg) (seg_end seg - 1) None True files
       else Some (Ok (st, files))))"
section \<open>Adding a table\<close>

record reftable_addition =
  ad_new_tables :: "bytes list"
  ad_next_update_index :: u64

text \<open>The list is locked; whether the stack is reloaded when the list has changed is a flag.\<close>

definition reftable_stack_init_addition ::
  "reftable_env \<Rightarrow> lock_look \<Rightarrow> stat_look option \<Rightarrow> reload_world \<Rightarrow> reftable_stack \<Rightarrow> bool \<Rightarrow> files
   \<Rightarrow> (reftable_stack \<times> files \<times> reftable_addition) run" where
  "reftable_stack_init_addition E lock stat rw st reload files =
     run_bind (Some (lock_error lock)) (\<lambda>_.
     run_bind (Some (stack_uptodate st stat (files (rs_list_file st)))) (\<lambda>changed.
     run_bind (if changed \<and> reload then reftable_stack_reload_maybe_reuse E rw st True
               else if changed then Some (Err OUTDATED_ERROR)
               else Some (Ok (st, files))) (\<lambda>(st, files).
     run_bind (Some (reftable_stack_next_update_index st)) (\<lambda>n.
       Some (Ok (st, files, \<lparr>ad_new_tables = [], ad_next_update_index = n\<rparr>))))))"

text \<open>The caller writes a table; an empty one is forgotten.\<close>

definition reftable_addition_add ::
  "reftable_env \<Rightarrow> bytes write_ops \<Rightarrow> (bytes reftable_writer \<Rightarrow> bytes reftable_writer run) \<Rightarrow> u32 \<Rightarrow> reftable_stack
   \<Rightarrow> files \<Rightarrow> reftable_addition \<Rightarrow> (files \<times> reftable_addition) run" where
  "reftable_addition_add E S write rnd st files add =
     run_bind (Some (reftable_writer_new E [] (Some (rs_opts st)))) (\<lambda>wr.
     run_bind (write wr) (\<lambda>wr.
       let err = reftable_writer_close E S wr in
       if is_error EMPTY_TABLE_ERROR err then Some (Ok (files, add))
       else run_bind err (\<lambda>s.
           if wr_min_update_index wr < ad_next_update_index add then Some (Err API_ERROR)
           else let name = format_name (wr_min_update_index wr) (wr_max_update_index wr) rnd @ dot_ref in
             Some (Ok (files(stack_filename st name := Contents s),
                       add\<lparr>ad_new_tables := ad_new_tables add @ [name]\<rparr>)))))"

definition addition_table_list :: "reftable_stack \<Rightarrow> reftable_addition \<Rightarrow> bytes res" where
  "addition_table_list st add =
     res_bind (reftable_stack_merged_table st) (\<lambda>mt.
       if length (mt_readers mt) > length (rs_readers st) then Crash Out_Of_Bounds
       else Ok (table_lines (map rd_name (take (length (mt_readers mt)) (rs_readers st)) @ ad_new_tables add)))"

text \<open>After the list has been replaced, a lock error of the automatic compaction is ignored.\<close>

definition reftable_addition_commit ::
  "reftable_env \<Rightarrow> bytes write_ops \<Rightarrow> byte \<Rightarrow> (files \<Rightarrow> reload_world) \<Rightarrow> compact_world \<Rightarrow> reftable_stack \<Rightarrow> files \<Rightarrow> reftable_addition
   \<Rightarrow> (reftable_stack \<times> files) run" where
  "reftable_addition_commit E S default_factor rw cw st files add =
     (if ad_new_tables add = [] then Some (Ok (st, files))
      else run_bind (Some (addition_table_list st add)) (\<lambda>table_list.
      run_bind (reftable_stack_reload_maybe_reuse E (rw (files(rs_list_file st := Contents table_list))) st True) (\<lambda>(st, files).
      if rs_disable_auto_compact st then Some (Ok (st, files))
      else let err = reftable_stack_auto_compact E S default_factor cw st files in
        if is_error LOCK_ERROR err then Some (Ok (st, files)) else err)))"

text \<open>The tables of an addition that has not been committed are removed.\<close>

fun reftable_addition_close :: "reftable_stack \<Rightarrow> bytes list \<Rightarrow> files \<Rightarrow> files" where
  "reftable_addition_close st [] files = files"
| "reftable_addition_close st (name # names) files =
     reftable_addition_close st names (files(stack_filename st name := Absent))"

definition stack_try_add ::
  "reftable_env \<Rightarrow> bytes write_ops \<Rightarrow> byte \<Rightarrow> lock_look \<Rightarrow> stat_look option \<Rightarrow> reload_world \<Rightarrow> (files \<Rightarrow> reload_world) \<Rightarrow> compact_world
   \<Rightarrow> (bytes reftable_writer \<Rightarrow> bytes reftable_writer run) \<Rightarrow> u32 \<Rightarrow> reftable_stack \<Rightarrow> files \<Rightarrow> (reftable_stack \<times> files) run" where
  "stack_try_add E S default_factor lock stat rw0 rw cw write rnd st files =
     run_bind (reftable_stack_init_addition E lock stat rw0 st False files) (\<lambda>(st, files, add).
     run_bind (reftable_addition_add E S write rnd st files add) (\<lambda>(files, add).
       reftable_addition_commit E S default_factor rw cw st files add))"

section \<open>Removing stale files\<close>

definition remove_maybe_stale_table :: "reftable_env \<Rightarrow> reftable_stack \<Rightarrow> u64 \<Rightarrow> bytes \<Rightarrow> files \<Rightarrow> files res" where
  "remove_maybe_stale_table E st mx name files =
     (case open_table E files st name of
        Crash c \<Rightarrow> Crash c
      | Err _ \<Rightarrow> Ok files
      | Ok rd \<Rightarrow>
          if reftable_reader_max_update_index rd \<le> mx then Ok (files(stack_filename st name := Absent)) else Ok files)"

text \<open>The entries of the directory are an argument.\<close>

fun clean_entries :: "reftable_env \<Rightarrow> reftable_stack \<Rightarrow> u64 \<Rightarrow> bytes list \<Rightarrow> files \<Rightarrow> files res" where
  "clean_entries E st mx [] files = Ok files"
| "clean_entries E st mx (name # entries) files =
     (if \<not> is_table_name name \<or> has_name (map rd_name (rs_readers st)) name then clean_entries E st mx entries files
      else res_bind (remove_maybe_stale_table E st mx name files) (clean_entries E st mx entries))"

definition reftable_stack_clean_locked :: "reftable_env \<Rightarrow> reftable_stack \<Rightarrow> bytes list option \<Rightarrow> files \<Rightarrow> files res" where
  "reftable_stack_clean_locked E st entries files =
     res_bind (reftable_stack_merged_table st) (\<lambda>mt.
       case entries of
         None \<Rightarrow> Err IO_ERROR
       | Some entries \<Rightarrow> clean_entries E st (reftable_merged_table_max_update_index mt) entries files)"
definition reftable_stack_clean ::
  "reftable_env \<Rightarrow> lock_look \<Rightarrow> stat_look option \<Rightarrow> reload_world \<Rightarrow> stat_look option \<Rightarrow> bytes list option \<Rightarrow> reftable_stack
   \<Rightarrow> files \<Rightarrow> (reftable_stack \<times> files) run" where
  "reftable_stack_clean E lock stat rw stat_again entries st files =
     run_bind (reftable_stack_init_addition E lock stat rw st False files) (\<lambda>(st, files, _).
     run_bind (reftable_stack_reload E rw st stat_again (files (rs_list_file st))) (\<lambda>(st, files).
     run_bind (Some (reftable_stack_clean_locked E st entries files)) (\<lambda>files. Some (Ok (st, files)))))"

end
