(* ===== verification/Reft_Compact_Inv.thy ===== *)
theory Reft_Compact_Inv
  imports Reft_Compact Reft_Compose
begin

text \<open>
  What a compaction writes: the merged records of its range, as a table of their own. Replacing
  the range by that table does not change what the stack shows.
\<close>

section \<open>The loops over the merged records\<close>

primrec the_ref :: "reftable_record \<Rightarrow> ref_record" where
  "the_ref (Rec_Ref r) = r" | "the_ref (Rec_Log _) = zero_ref" | "the_ref (Rec_Obj _) = zero_ref" | "the_ref (Rec_Index _) = zero_ref"

primrec the_log :: "reftable_record \<Rightarrow> log_record" where
  "the_log (Rec_Log l) = l" | "the_log (Rec_Ref _) = zero_log" | "the_log (Rec_Obj _) = zero_log" | "the_log (Rec_Index _) = zero_log"

text \<open>The records of the range that are kept.\<close>

definition kept :: "nat \<Rightarrow> reftable_record list \<Rightarrow> reftable_record list" where
  "kept first l = filter (\<lambda>r. \<not> (first = 0 \<and> reftable_record_is_deletion r)) l"

lemma run_bind_assoc: "run_bind (run_bind m f) g = run_bind m (\<lambda>x. run_bind (f x) g)"
  by (auto simp: run_bind_def split: option.splits res.splits)

lemma ref_type_cases: "reftable_record_type r = BLOCK_TYPE_REF \<Longrightarrow> \<exists>x. r = Rec_Ref x"
  by (cases r) (auto simp: block_type_defs)

lemma log_type_cases: "reftable_record_type r = BLOCK_TYPE_LOG \<Longrightarrow> \<exists>x. r = Rec_Log x"
  by (cases r) (auto simp: block_type_defs)

lemma compact_refs_rep:
  assumes it: "listed_iter (merged_ops E) rep BLOCK_TYPE_REF" and "rep it l"
  shows "compact_refs E S first it ref wr n =
    run_bind (Some (writer_add_ref_list E S wr (map the_ref (kept first l)))) (\<lambda>wr. Some (Ok (wr, n + word_of_nat (length (kept first l)))))"
  using assms(2)
proof (induction l arbitrary: it ref wr n)
  case Nil
  from listed_iter.next_end [OF it Nil, of "Rec_Ref ref"] show ?case
    by (auto simp: compact_refs.simps [of E S first it] reftable_iterator_next_ref_def iterator_next_def kept_def)
next
  case (Cons r l)
  obtain it' where it': "op_next (merged_ops E) it (Rec_Ref ref) = Some (Ok (it', Some r))" "rep it' l"
    using listed_iter.next_more [OF it Cons.prems, of "Rec_Ref ref"] by auto
  obtain x where x: "r = Rec_Ref x" using ref_type_cases listed_iter.rep_type [OF it Cons.prems] by auto
  have step: "compact_refs E S first it ref wr n =
      (if first = 0 \<and> reftable_ref_record_is_deletion x then compact_refs E S first it' x wr n
       else run_bind (Some (reftable_writer_add_ref E S wr x)) (\<lambda>wr. compact_refs E S first it' x wr (n + 1)))"
    using it'(1) by (simp add: compact_refs.simps [of E S first it] reftable_iterator_next_ref_def iterator_next_def x)
  show ?case unfolding step Cons.IH [OF it'(2)]
    by (cases "reftable_writer_add_ref E S wr x") (auto simp: kept_def x add.assoc)
qed

lemma compact_logs_rep:
  assumes it: "listed_iter (merged_ops E) rep BLOCK_TYPE_LOG" and "rep it l"
  shows "compact_logs E S first None it log wr n =
    run_bind (writer_add_log_list E S wr (map the_log (kept first l))) (\<lambda>wr. Some (Ok (wr, n + word_of_nat (length (kept first l)))))"
  using assms(2)
proof (induction l arbitrary: it log wr n)
  case Nil
  from listed_iter.next_end [OF it Nil, of "Rec_Log log"] show ?case
    by (auto simp: compact_logs.simps [of E S first None it] reftable_iterator_next_log_def iterator_next_def kept_def)
next
  case (Cons r l)
  obtain it' where it': "op_next (merged_ops E) it (Rec_Log log) = Some (Ok (it', Some r))" "rep it' l"
    using listed_iter.next_more [OF it Cons.prems, of "Rec_Log log"] by auto
  obtain x where x: "r = Rec_Log x" using log_type_cases listed_iter.rep_type [OF it Cons.prems] by auto
  have step: "compact_logs E S first None it log wr n =
      (if first = 0 \<and> reftable_log_record_is_deletion x then compact_logs E S first None it' x wr n
       else run_bind (reftable_writer_add_log E S wr x) (\<lambda>wr. compact_logs E S first None it' x wr (n + 1)))"
    using it'(1) by (simp add: compact_logs.simps [of E S first None it] reftable_iterator_next_log_def iterator_next_def x log_expired_def)
  show ?case unfolding step Cons.IH [OF it'(2)]
    by (cases "first = 0 \<and> reftable_log_record_is_deletion x") (auto simp: kept_def x run_bind_assoc add.assoc)
qed

section \<open>The table that is written\<close>

text \<open>Sorting does nothing to what is sorted already.\<close>

lemma write_table_sorted:
  assumes "\<forall>r \<in> set refs. ref_name r \<noteq> None" "sorted (map ref_key refs)"
    and "\<forall>l \<in> set logs. be64_ok E \<and> log_name l \<noteq> None" "sorted (map (log_key E) logs)"
  shows "write_table E S sink opts mn mx refs logs =
    run_bind (Some (reftable_writer_new E sink opts)) (\<lambda>w.
    run_bind (Some (writer_add_ref_list E S (reftable_writer_set_limits w mn mx) refs)) (\<lambda>w.
    run_bind (writer_add_log_list E S w logs) (reftable_writer_close E S)))"
proof -
  have "qsort_by reftable_ref_record_compare_name refs = Ok refs" "qsort_by reftable_log_record_compare_key logs = Ok logs"
    using ref_order.qsort_sorts [OF assms(1)] log_order.qsort_sorts [OF assms(3)] assms(2,4) by (simp_all add: sort_key_id_if_sorted)
  then show ?thesis by (simp add: write_table_def reftable_writer_add_refs_def reftable_writer_add_logs_def)
qed

text \<open>Looking for the empty name finds everything.\<close>

lemma seek_empty_ref: "dropWhile (\<lambda>r. key_of E r < []) l = l"
  by (cases l) simp_all

lemma kept_sorted: "sorted_wrt (<) (map (key_of E) l) \<Longrightarrow> sorted_wrt (<) (map (key_of E) (kept first l))"
  by (simp add: kept_def sorted_wrt_map sorted_wrt_filter)
lemma log_key_nonempty:
  assumes "r \<in> set l" "\<forall>r \<in> set l. \<exists>x. r = Rec_Log x \<and> name_ok (log_name x)"
  shows "\<not> key_of E r < 0 # k"
proof -
  from assms obtain x n where x: "r = Rec_Log x" "log_name x = Some n" "n \<noteq> []" "0 \<notin> set n"
    by (fastforce simp: name_ok_def split: option.splits)
  then obtain b m where "n = b # m" "b \<noteq> 0" by (cases n) auto
  then show ?thesis using x by (simp add: key_of_def reftable_log_record_key_def c_deref_def word_neq_0_conv not_less)
qed

lemma merge_all_ok:
  assumes "lists_ok E ty len ls"
  shows "sorted_wrt (<) (map (key_of E) (merge_all E ls))" "\<forall>r \<in> set (merge_all E ls). cmp_ok ty len r"
    "r \<in> set (merge_all E ls) \<Longrightarrow> \<exists>l \<in> set ls. r \<in> set l"
proof -
  have ks: "keys_sorted E ls" using assms by (simp add: lists_ok_def keys_sorted_def)
  show "sorted_wrt (<) (map (key_of E) (merge_all E ls))" by (rule merge_all_sorted [OF ks])
  have *: "\<exists>l \<in> set ls. r \<in> set l" if "r \<in> set (merge_all E ls)" for r
    using that newest_in merge_all_newest [OF ks] by blast
  then show "\<forall>r \<in> set (merge_all E ls). cmp_ok ty len r" "r \<in> set (merge_all E ls) \<Longrightarrow> \<exists>l \<in> set ls. r \<in> set l"
    using assms by (fastforce simp: lists_ok_def)+
qed

lemma kept_refs:
  fixes first :: nat
  assumes "lists_ok E BLOCK_TYPE_REF len ls"
  defines "l \<equiv> kept first (merge_all E ls)"
  shows "map (Rec_Ref \<circ> the_ref) l = l" "map ref_key (map the_ref l) = map (key_of E) l" "\<forall>r \<in> set (map the_ref l). ref_name r \<noteq> None"
proof -
  have cmp: "cmp_ok BLOCK_TYPE_REF len r" if "r \<in> set l" for r using that merge_all_ok(2) [OF assms(1)] by (simp add: l_def kept_def)
  then have c: "\<exists>x. r = Rec_Ref x \<and> ref_name x \<noteq> None" if "r \<in> set l" for r using that [THEN cmp] by (cases r) (auto simp: block_type_defs)
  then show "map (Rec_Ref \<circ> the_ref) l = l" "\<forall>r \<in> set (map the_ref l). ref_name r \<noteq> None" by (force intro: map_idI)+
  have "ref_key (the_ref r) = key_of E r" if "r \<in> set l" for r
    using c [OF that] by (auto simp: ref_key_def key_of_def reftable_ref_record_key_def c_deref_def)
  then show "map ref_key (map the_ref l) = map (key_of E) l" by simp
qed

lemma kept_logs:
  fixes first :: nat
  assumes "lists_ok E BLOCK_TYPE_LOG len ls"
  defines "l \<equiv> kept first (merge_all E ls)"
  shows "map (Rec_Log \<circ> the_log) l = l" "map (log_key E) (map the_log l) = map (key_of E) l" "\<forall>r \<in> set (map the_log l). be64_ok E \<and> log_name r \<noteq> None"
proof -
  have cmp: "cmp_ok BLOCK_TYPE_LOG len r" if "r \<in> set l" for r using that merge_all_ok(2) [OF assms(1)] by (simp add: l_def kept_def)
  then have c: "\<exists>x. r = Rec_Log x \<and> log_name x \<noteq> None" if "r \<in> set l" for r using that [THEN cmp] by (cases r) (auto simp: block_type_defs)
  then show "map (Rec_Log \<circ> the_log) l = l" "\<forall>r \<in> set (map the_log l). be64_ok E \<and> log_name r \<noteq> None"
    using assms(1) by (force intro: map_idI simp: lists_ok_def)+
  have "log_key E (the_log r) = key_of E r" if "r \<in> set l" for r using c [OF that] by (auto simp: log_key_def)
  then show "map (log_key E) (map the_log l) = map (key_of E) l" by simp
qed

lemma stack_write_compact_adds:
  assumes refs: "list_all2 (reader_shows E iv hsz BLOCK_TYPE_REF) rds ls" "lists_ok E BLOCK_TYPE_REF len ls"
    and logs: "list_all2 (reader_shows E iv hsz BLOCK_TYPE_LOG) rds ks" "lists_ok E BLOCK_TYPE_LOG len ks"
    and names: "\<forall>k \<in> set ks. \<forall>r \<in> set k. \<exists>x. r = Rec_Log x \<and> name_ok (log_name x)"
    and rds: "stack_range st first lst = Ok rds" and E: "be64_ok E"
    and res: "stack_write_compact E S st wr first lst None = Some (Ok (st', wr'))"
  shows "\<exists>wr1. writer_add_ref_list E S (reftable_writer_set_limits wr (rd_min_update_index (rs_readers st ! first)) (rd_max_update_index (rs_readers st ! lst)))
      (map the_ref (kept first (merge_all E ls))) = Ok wr1
    \<and> writer_add_log_list E S wr1 (map the_log (kept first (merge_all E ks))) = Some (Ok wr')"
proof -
  let ?wr = "reftable_writer_set_limits wr (rd_min_update_index (rs_readers st ! first)) (rd_max_update_index (rs_readers st ! lst))"
  from res rds obtain mt where mt: "reftable_merged_table_new rds (wo_hash_id (rs_opts st)) = Ok mt"
    by (auto simp: stack_write_compact_def run_bind_eq_Ok Let_def)
  then have m: "mt_readers mt = rds" "\<not> mt_suppress_deletions mt" by (auto simp: reftable_merged_table_new_def res_bind_eq_Ok)
  let ?rw = "Rec_Ref \<lparr>ref_name = Some [], ref_update_index = 0, ref_value = Ref_Deletion\<rparr>"
  have "reftable_record_key E ?rw = Ok []" by (simp add: reftable_ref_record_key_def c_deref_def)
  from merged_table_sought [of E iv hsz BLOCK_TYPE_REF mt ls, OF _ refs(2) _ this] refs(1) m obtain it it' where
    it: "merged_table_init_iter mt BLOCK_TYPE_REF = Ok it" "op_seek (merged_ops E) it ?rw = Some (Ok (it', True))"
    "mi_rep E (reader_iter_rep E iv hsz BLOCK_TYPE_REF) BLOCK_TYPE_REF len it' (merge_all E ls)"
    by (auto simp: seek_empty_ref merged_list_def)
  let ?lw = "Rec_Log \<lparr>log_name = Some [], log_update_index = - 1, log_value = Log_Deletion\<rparr>"
  obtain k where k: "reftable_record_key E ?lw = Ok (0 # k)" by (simp add: reftable_log_record_key_def c_deref_def)
  have "\<forall>r \<in> set (merge_all E ks). \<exists>x. r = Rec_Log x \<and> name_ok (log_name x)" using names merge_all_ok(3) [OF logs(2)] by blast
  from log_key_nonempty [OF _ this] have all: "dropWhile (\<lambda>r. key_of E r < 0 # k) (merge_all E ks) = merge_all E ks"
    by (cases "merge_all E ks") auto
  from merged_table_sought [of E iv hsz BLOCK_TYPE_LOG mt ks, OF _ logs(2) _ k] logs(1) m obtain lt lt' where
    lt: "merged_table_init_iter mt BLOCK_TYPE_LOG = Ok lt" "op_seek (merged_ops E) lt ?lw = Some (Ok (lt', True))"
    "mi_rep E (reader_iter_rep E iv hsz BLOCK_TYPE_LOG) BLOCK_TYPE_LOG len lt' (merge_all E ks)"
    by (auto simp: all merged_list_def)
  note rep = compact_refs_rep [OF merged_reader_listed it(3), of S first] compact_logs_rep [OF merged_reader_listed lt(3), of S first]
  from res show ?thesis
    unfolding stack_write_compact_def rds Let_def mt reftable_iterator_seek_ref_def reftable_iterator_seek_log_def reftable_iterator_seek_log_at_def
    by (auto simp: mt it(1,2) lt(1,2) rep run_bind_eq_Ok)
qed

lemma stack_compact_locked_writes:
  assumes refs: "list_all2 (reader_shows E iv hsz BLOCK_TYPE_REF) rds ls" "lists_ok E BLOCK_TYPE_REF len ls"
    and logs: "list_all2 (reader_shows E iv hsz BLOCK_TYPE_LOG) rds ks" "lists_ok E BLOCK_TYPE_LOG len ks"
    and names: "\<forall>k \<in> set ks. \<forall>r \<in> set k. \<exists>x. r = Rec_Log x \<and> name_ok (log_name x)"
    and rds: "stack_range st first lst = Ok rds"
    and res: "stack_compact_locked E S st first lst None = Some (Ok (st', Some s))"
  shows "\<exists>mn mx. write_table E S [] (Some (rs_opts st)) mn mx (map the_ref (kept first (merge_all E ls))) (map the_log (kept first (merge_all E ks))) = Some (Ok s)"
proof -
  from res obtain wr wr' where wr: "reftable_writer_new E [] (Some (rs_opts st)) = Ok wr"
    "stack_write_compact E S st wr first lst None = Some (Ok (st', wr'))" "reftable_writer_close E S wr' = Some (Ok s)"
    by (auto simp: stack_compact_locked_def run_bind_eq_Ok Let_def split: if_splits)
  have E: "be64_ok E" using refs(2) by (simp add: lists_ok_def)
  from stack_write_compact_adds [OF refs logs names rds E wr(2)] obtain wr1 where
    adds: "writer_add_ref_list E S (reftable_writer_set_limits wr (rd_min_update_index (rs_readers st ! first)) (rd_max_update_index (rs_readers st ! lst)))
      (map the_ref (kept first (merge_all E ls))) = Ok wr1" "writer_add_log_list E S wr1 (map the_log (kept first (merge_all E ks))) = Some (Ok wr')" by blast
  have "sorted (map ref_key (map the_ref (kept first (merge_all E ls))))" "sorted (map (log_key E) (map the_log (kept first (merge_all E ks))))"
    unfolding kept_refs(2) [OF refs(2)] kept_logs(2) [OF logs(2)]
    using kept_sorted [OF merge_all_ok(1) [OF refs(2)]] kept_sorted [OF merge_all_ok(1) [OF logs(2)]] by (simp_all add: strict_sorted_imp_sorted)
  note w = write_table_sorted [OF kept_refs(3) [OF refs(2)] this(1) kept_logs(3) [OF logs(2)] this(2), of S "[]" "Some (rs_opts st)"
      "rd_min_update_index (rs_readers st ! first)" "rd_max_update_index (rs_readers st ! lst)"]
  have "write_table E S [] (Some (rs_opts st)) (rd_min_update_index (rs_readers st ! first)) (rd_max_update_index (rs_readers st ! lst))
      (map the_ref (kept first (merge_all E ls))) (map the_log (kept first (merge_all E ks))) = Some (Ok s)"
    unfolding w using adds wr(1,3) by simp
  then show ?thesis by blast
qed
section \<open>Replacing the range\<close>

text \<open>The keys of some tables; a record of older tables is shown if none of the newer ones has its key.\<close>

definition all_keys :: "reftable_env \<Rightarrow> reftable_record list list \<Rightarrow> bytes set" where
  "all_keys E ls = \<Union> ((\<lambda>l. key_of E ` set l) ` set ls)"

lemma newest_Cons: "newest E (l # ls) r \<longleftrightarrow> newest E ls r \<or> r \<in> set l \<and> key_of E r \<notin> all_keys E ls"
proof -
  have "(\<forall>j < length ls. key_of E r \<notin> key_of E ` set (ls ! j)) \<longleftrightarrow> key_of E r \<notin> all_keys E ls"
    by (force simp: all_keys_def in_set_conv_nth)
  then show ?thesis by (auto simp: newest_def Ex_less_Suc2 All_less_Suc2)
qed

lemma newest_append: "newest E (a @ b) r \<longleftrightarrow> newest E b r \<or> newest E a r \<and> key_of E r \<notin> all_keys E b"
  by (induction a) (auto simp: newest_Cons all_keys_def newest_def [of E "[]"])

lemma all_keys_newest: "k \<in> all_keys E ls \<Longrightarrow> \<exists>r. newest E ls r \<and> key_of E r = k"
proof (induction ls)
  case (Cons l ls)
  show ?case
  proof (cases "k \<in> all_keys E ls")
    case True
    then show ?thesis using Cons.IH by (auto simp: newest_Cons)
  next
    case False
    then show ?thesis using Cons.prems by (auto simp: newest_Cons all_keys_def)
  qed
qed (simp add: all_keys_def)

lemma newest_key: "newest E ls r \<Longrightarrow> key_of E r \<in> all_keys E ls"
  using newest_in [of E ls r] by (auto simp: all_keys_def)

text \<open>The range is replaced by its merged records, without the deletions if nothing is below it.\<close>

lemma newest_replaced:
  assumes mid: "set c = {r. newest E mid r \<and> \<not> (first = 0 \<and> reftable_record_is_deletion r)}" and first: "first = 0 \<Longrightarrow> pre = []"
    and r: "\<not> reftable_record_is_deletion r"
  shows "newest E (pre @ [c] @ post) r \<longleftrightarrow> newest E (pre @ mid @ post) r"
proof -
  have c: "newest E [c] r \<longleftrightarrow> newest E mid r" using mid r by (auto simp: newest_Cons newest_def [of E "[]"] all_keys_def)
  have "all_keys E [c] = all_keys E mid" if "first \<noteq> 0"
    using that mid all_keys_newest [of _ E mid] newest_key [of E mid] by (auto simp: all_keys_def [of E "[c]"])
  then have "newest E pre r \<and> key_of E r \<notin> all_keys E [c] \<longleftrightarrow> newest E pre r \<and> key_of E r \<notin> all_keys E mid"
    using first by (cases "first = 0") (simp_all add: newest_def)
  then show ?thesis unfolding newest_append c by (auto simp: all_keys_def)
qed

lemma merged_replaced:
  assumes ls: "keys_sorted E (pre @ mid @ post)" and c: "c = kept first (merge_all E mid)" and first: "first = 0 \<Longrightarrow> pre = []"
  shows "merged_list E True (pre @ [c] @ post) = merged_list E True (pre @ mid @ post)"
proof (rule sorted_keys_unique)
  have mid: "keys_sorted E mid" using ls by (simp add: keys_sorted_def)
  have c': "keys_sorted E (pre @ [c] @ post)" using ls kept_sorted [OF merge_all_sorted [OF mid]] by (auto simp: keys_sorted_def c)
  show "sorted_wrt (<) (map (key_of E) (merged_list E True (pre @ [c] @ post)))" "sorted_wrt (<) (map (key_of E) (merged_list E True (pre @ mid @ post)))"
    using merge_all_sorted [OF c'] merge_all_sorted [OF ls] by (simp_all add: merged_list_def sorted_wrt_map sorted_wrt_filter)
  have "set c = {r. newest E mid r \<and> \<not> (first = 0 \<and> reftable_record_is_deletion r)}"
    using merge_all_newest [OF mid] by (auto simp: c kept_def)
  from newest_replaced [OF this first] show "set (merged_list E True (pre @ [c] @ post)) = set (merged_list E True (pre @ mid @ post))"
    using merge_all_newest [OF c'] merge_all_newest [OF ls] by (auto simp: merged_list_def)
qed
section \<open>Tables that can be compacted\<close>

text \<open>
  The objects can be told apart in the object index of the merged table, the update indices of log
  records can be compared, and writing a log record once more does not change it. The latter is so
  for every record with a message, but an absent message becomes a newline.
\<close>

definition compactable :: "reftable_env \<Rightarrow> reftable_write_options \<Rightarrow> (ref_record list \<times> log_record list) list \<Rightarrow> bool" where
  "compactable E opts tabs \<longleftrightarrow> length (concat (map fst tabs)) < 2 ^ 64
     \<and> (\<forall>h \<in> ref_hashes (concat (map fst tabs)). \<forall>h' \<in> ref_hashes (concat (map fst tabs)). h \<noteq> h' \<longrightarrow> common_prefix_size h h' < 31)
     \<and> (\<forall>l \<in> set (concat (map snd tabs)). unat (log_update_index l) < 2 ^ 31
          \<and> stored_log opts (log_norm (stored_log opts l)) = log_norm (stored_log opts l))"

lemma norm_str_idem [simp]: "norm_str (norm_str s) = norm_str s"
  by (simp add: norm_str_def str_or_empty_def split: option.splits)

lemma log_norm_idem [simp]: "log_norm (log_norm l) = log_norm l"
  by (simp add: log_norm_def split: log_value.splits)

lemma log_ok_norm: "log_ok E hsz l \<Longrightarrow> log_ok E hsz (log_norm l)"
  by (auto simp: log_ok_def log_norm_def log_update_ok_def norm_str_def str_ok_def str_or_empty_def strlen_def split: log_value.splits option.splits)

lemma lists_ok_tables:
  assumes "\<forall>(refs, logs) \<in> set tabs. input_ok E opts refs logs" "hash_size E (wo_hash_id opts) = Ok hsz" "compactable E opts tabs" "be64_ok E"
  shows "lists_ok E BLOCK_TYPE_REF 0 (map (table_refs \<circ> fst) tabs)" "lists_ok E BLOCK_TYPE_LOG 0 (map (table_logs E opts \<circ> snd) tabs)"
    "\<forall>k \<in> set (map (table_logs E opts \<circ> snd) tabs). \<forall>r \<in> set k. \<exists>x. r = Rec_Log x \<and> name_ok (log_name x)"
proof -
  show "lists_ok E BLOCK_TYPE_REF 0 (map (table_refs \<circ> fst) tabs)"
    using assms(1,4) table_refs_ok [OF _ assms(2)] by (fastforce simp: lists_ok_def)
  have "\<forall>(refs, logs) \<in> set tabs. \<forall>l \<in> set logs. unat (log_update_index l) < 2 ^ 31"
    using assms(3) by (fastforce simp: compactable_def)
  then show "lists_ok E BLOCK_TYPE_LOG 0 (map (table_logs E opts \<circ> snd) tabs)"
    using assms(1,4) table_logs_ok [OF _ assms(2)] by (fastforce simp: lists_ok_def)
  show "\<forall>k \<in> set (map (table_logs E opts \<circ> snd) tabs). \<forall>r \<in> set k. \<exists>x. r = Rec_Log x \<and> name_ok (log_name x)"
    using assms(1,2) by (fastforce simp: table_logs_def input_ok_def log_ok_def)
qed
lemma kept_refs_input:
  fixes first :: nat
  assumes tabs: "\<forall>(refs, logs) \<in> set tabs. input_ok E opts refs logs" and hsz: "hash_size E (wo_hash_id opts) = Ok hsz"
    and c: "compactable E opts tabs" and E: "be64_ok E"
  defines "refs \<equiv> map the_ref (kept first (merge_all E (map (table_refs \<circ> fst) tabs)))"
  shows "set refs \<subseteq> set (concat (map fst tabs))" "\<forall>r \<in> set refs. ref_ok E hsz r" "distinct (map ref_key refs)" "length refs < 2 ^ 64"
    "table_refs refs = kept first (merge_all E (map (table_refs \<circ> fst) tabs))"
proof -
  note ok = lists_ok_tables(1) [OF tabs hsz c E]
  show sub: "set refs \<subseteq> set (concat (map fst tabs))"
  proof
    fix r assume "r \<in> set refs"
    then obtain x where x: "x \<in> set (merge_all E (map (table_refs \<circ> fst) tabs))" "r = the_ref x" by (auto simp: refs_def kept_def)
    from merge_all_ok(3) [OF ok x(1)] x(2) show "r \<in> set (concat (map fst tabs))" by (force simp: table_refs_def)
  qed
  show "\<forall>r \<in> set refs. ref_ok E hsz r" using sub tabs hsz by (fastforce simp: input_ok_def)
  have "sorted_wrt (<) (map ref_key refs)"
    unfolding refs_def kept_refs(2) [OF ok] using kept_sorted [OF merge_all_ok(1) [OF ok]] .
  then show dist: "distinct (map ref_key refs)" and "table_refs refs = kept first (merge_all E (map (table_refs \<circ> fst) tabs))"
    using kept_refs(1) [OF ok, of first] by (simp_all add: strict_sorted_iff table_refs_def sort_key_id_if_sorted refs_def)
  have "length refs = card (set refs)" using distinct_card [of refs] distinct_map [of ref_key refs] dist by simp
  also have "\<dots> \<le> length (concat (map fst tabs))" by (rule le_trans [OF card_mono [OF _ sub] card_length]) simp
  finally show "length refs < 2 ^ 64" using c by (simp add: compactable_def)
qed

lemma kept_logs_input:
  fixes first :: nat
  assumes tabs: "\<forall>(refs, logs) \<in> set tabs. input_ok E opts refs logs" and hsz: "hash_size E (wo_hash_id opts) = Ok hsz"
    and c: "compactable E opts tabs" and E: "be64_ok E"
  defines "logs \<equiv> map the_log (kept first (merge_all E (map (table_logs E opts \<circ> snd) tabs)))"
  shows "\<forall>l \<in> set logs. log_ok E hsz (stored_log opts l)" "distinct (map (log_key E) logs)"
    "table_logs E opts logs = kept first (merge_all E (map (table_logs E opts \<circ> snd) tabs))"
proof -
  note ok = lists_ok_tables(2) [OF tabs hsz c E]
  have "\<exists>x \<in> set (concat (map snd tabs)). l = log_norm (stored_log opts x)" if "l \<in> set logs" for l
  proof -
    from that obtain x where x: "x \<in> set (merge_all E (map (table_logs E opts \<circ> snd) tabs))" "l = the_log x" by (auto simp: logs_def kept_def)
    from merge_all_ok(3) [OF ok x(1)] x(2) show ?thesis by (force simp: table_logs_def)
  qed
  then have fx: "stored_log opts l = l \<and> log_norm l = l \<and> log_ok E hsz l" if "l \<in> set logs" for l
    using that c tabs hsz by (fastforce simp: compactable_def input_ok_def intro: log_ok_norm)
  then show "\<forall>l \<in> set logs. log_ok E hsz (stored_log opts l)" by simp
  have st: "sorted_wrt (<) (map (log_key E) logs)"
    unfolding logs_def kept_logs(2) [OF ok] using kept_sorted [OF merge_all_ok(1) [OF ok]] .
  then show "distinct (map (log_key E) logs)" by (simp add: strict_sorted_iff)
  have "map (\<lambda>l. Rec_Log (log_norm (stored_log opts l))) logs = map Rec_Log logs" using fx by simp
  then show "table_logs E opts logs = kept first (merge_all E (map (table_logs E opts \<circ> snd) tabs))"
    using st kept_logs(1) [OF ok, of first] by (simp add: table_logs_def sort_key_id_if_sorted strict_sorted_imp_sorted logs_def)
qed
text \<open>The table that a compaction of some written tables leaves.\<close>

lemma compacted_table:
  assumes E: "env_ok E" and S: "appends S (\<lambda>s. s)" and hsz: "hash_size E (wo_hash_id (all_options E (Some (rs_opts st)))) = Ok hsz"
    and tabs: "holds_tables E S (\<lambda>s. s) (Some (rs_opts st)) srcs tabs"
    and c: "compactable E (all_options E (Some (rs_opts st))) tabs"
    and rds: "open_tables E srcs = Ok rds" "stack_range st first lst = Ok rds"
    and res: "stack_compact_locked E S st first lst None = Some (Ok (st', Some s))" "length s < 2 ^ 59" "source_of src s"
  shows "\<exists>refs logs. holds_table E S (\<lambda>s. s) (Some (rs_opts st)) src refs logs
    \<and> table_refs refs = kept first (merge_all E (map (table_refs \<circ> fst) tabs))
    \<and> table_logs E (all_options E (Some (rs_opts st))) logs = kept first (merge_all E (map (table_logs E (all_options E (Some (rs_opts st))) \<circ> snd) tabs))"
proof -
  let ?o = "all_options E (Some (rs_opts st))"
  let ?refs = "map the_ref (kept first (merge_all E (map (table_refs \<circ> fst) tabs)))"
  let ?logs = "map the_log (kept first (merge_all E (map (table_logs E ?o \<circ> snd) tabs)))"
  note inp = holds_tables_inputs [OF tabs]
  have E64: "be64_ok E" using E by (simp add: env_ok_def)
  from open_tables_shows [OF E S hsz tabs] rds(1) have shows_rds:
    "list_all2 (reader_shows E (wo_restart_interval ?o) hsz BLOCK_TYPE_REF) rds (map (table_refs \<circ> fst) tabs)"
    "list_all2 (reader_shows E (wo_restart_interval ?o) hsz BLOCK_TYPE_LOG) rds (map (table_logs E ?o \<circ> snd) tabs)" by auto
  note ok = lists_ok_tables [OF inp hsz c E64]
  from stack_compact_locked_writes [OF shows_rds(1) ok(1) shows_rds(2) ok(2,3) rds(2) res(1)] obtain mn mx where
    wr: "write_table E S [] (Some (rs_opts st)) mn mx ?refs ?logs = Some (Ok s)" by blast
  have "rds \<noteq> []" using rds(2) by (auto simp: stack_range_def split: if_splits)
  then have "tabs \<noteq> []" using shows_rds(1) by auto
  then have sz: "32 \<le> wo_block_size ?o" using inp by (cases tabs) (auto simp: input_ok_def)
  note r = kept_refs_input [OF inp hsz c E64, of first] and l = kept_logs_input [OF inp hsz c E64, of first]
  have "ref_hashes ?refs \<subseteq> ref_hashes (concat (map fst tabs))" unfolding ref_hashes_def by (intro Union_mono image_mono r(1))
  then have "\<forall>h \<in> ref_hashes ?refs. \<forall>h' \<in> ref_hashes ?refs. h \<noteq> h' \<longrightarrow> common_prefix_size h h' < 31"
    using c unfolding compactable_def by blast
  moreover have "2 \<le> hsz" "hsz < 2 ^ 61" using \<open>tabs \<noteq> []\<close> inp hsz by (cases tabs; auto simp: input_ok_def)+
  ultimately have "input_ok E ?o ?refs ?logs" using sz r(2-4) l(1,2) hsz unfolding input_ok_def by simp
  from holds_tableI [OF this wr, of "\<lambda>s. s" src] res(2,3) have "holds_table E S (\<lambda>s. s) (Some (rs_opts st)) src ?refs ?logs" by simp
  with r(5) l(3) show ?thesis by blast
qed
text \<open>The sources of the stack with the range replaced.\<close>

definition replaced :: "nat \<Rightarrow> nat \<Rightarrow> 'a \<Rightarrow> 'a list \<Rightarrow> 'a list" where
  "replaced first lst x xs = take first xs @ [x] @ drop (Suc lst) xs"

lemma split_range:
  assumes "first \<le> lst" "lst < length xs"
  shows "xs = take first xs @ take (lst - first + 1) (drop first xs) @ drop (Suc lst) xs"
proof -
  have "drop (Suc lst) xs = drop (lst - first + 1) (drop first xs)" using assms(1) by simp
  then show ?thesis by (simp only: append_take_drop_id)
qed

lemma open_tables_append:
  "open_tables E (a @ b) = Ok rds \<longleftrightarrow> (\<exists>ra rb. open_tables E a = Ok ra \<and> open_tables E b = Ok rb \<and> rds = ra @ rb)"
  by (induction a arbitrary: rds) (auto simp: res_bind_eq_Ok)

lemma open_tables_length: "open_tables E srcs = Ok rds \<Longrightarrow> length rds = length srcs"
  by (induction srcs arbitrary: rds) (auto simp: res_bind_eq_Ok)

lemma compactable_part:
  assumes "compactable E opts (a @ b @ c)"
  shows "compactable E opts b"
proof -
  have "ref_hashes (concat (map fst b)) \<subseteq> ref_hashes (concat (map fst (a @ b @ c)))" unfolding ref_hashes_def by (intro Union_mono image_mono) auto
  moreover have "length (concat (map fst b)) \<le> length (concat (map fst (a @ b @ c)))" "set (concat (map snd b)) \<subseteq> set (concat (map snd (a @ b @ c)))" by auto
  ultimately show ?thesis using assms unfolding compactable_def by (meson le_less_trans subset_iff)
qed

lemma compacted_range:
  assumes "stack_compact_locked E S st first lst None = Some (Ok r)"
  shows "first \<le> lst" "lst < length (rs_readers st)" "stack_range st first lst = Ok (take (lst - first + 1) (drop first (rs_readers st)))"
  using assms by (auto simp: stack_compact_locked_def stack_write_compact_def stack_range_def run_bind_eq_Ok split: if_splits)

lemma table_logs_small:
  assumes "\<forall>r \<in> set (table_logs E opts logs). cmp_ok BLOCK_TYPE_LOG len r"
  shows "\<forall>l \<in> set logs. unat (log_update_index l) < 2 ^ 31"
  using assms by (auto simp: table_logs_def)

lemma compacted_stack:
  assumes E: "env_ok E" and S: "appends S (\<lambda>s. s)" and hsz: "hash_size E (wo_hash_id (all_options E (Some (rs_opts st)))) = Ok hsz"
    and tabs: "holds_tables E S (\<lambda>s. s) (Some (rs_opts st)) srcs tabs"
    and c: "compactable E (all_options E (Some (rs_opts st))) tabs" and rds: "open_tables E srcs = Ok (rs_readers st)"
    and res: "stack_compact_locked E S st first lst None = Some (Ok (st', Some s))" "length s < 2 ^ 59" "source_of src s"
  shows "\<exists>t. holds_tables E S (\<lambda>s. s) (Some (rs_opts st))
      (replaced first lst (src, name) srcs) (replaced first lst t tabs)
    \<and> merged_list E True (map (table_refs \<circ> fst) (replaced first lst t tabs)) = merged_list E True (map (table_refs \<circ> fst) tabs)
    \<and> merged_list E True (map (table_logs E (all_options E (Some (rs_opts st))) \<circ> snd) (replaced first lst t tabs))
        = merged_list E True (map (table_logs E (all_options E (Some (rs_opts st))) \<circ> snd) tabs)
    \<and> (\<forall>l \<in> set (snd t). unat (log_update_index l) < 2 ^ 31)"
proof -
  let ?o = "all_options E (Some (rs_opts st))" and ?H = "\<lambda>(src, name) (refs, logs). holds_table E S (\<lambda>s. s) (Some (rs_opts st)) src refs logs"
  let ?part = "\<lambda>xs. take (lst - first + 1) (drop first xs)"
  note rg = compacted_range [OF res(1)]
  have len: "length srcs = length (rs_readers st)" "length tabs = length srcs" using open_tables_length [OF rds] list_all2_lengthD [OF tabs] by simp_all
  have sp: "srcs = take first srcs @ ?part srcs @ drop (Suc lst) srcs" "tabs = take first tabs @ ?part tabs @ drop (Suc lst) tabs"
    by (rule split_range [OF rg(1)], use rg(2) len in simp)+
  have parts: "list_all2 ?H (take first srcs) (take first tabs)" "list_all2 ?H (?part srcs) (?part tabs)" "list_all2 ?H (drop (Suc lst) srcs) (drop (Suc lst) tabs)"
    using tabs by (auto intro: list_all2_takeI list_all2_dropI)
  have "open_tables E (take first srcs @ ?part srcs @ drop (Suc lst) srcs) = Ok (rs_readers st)" unfolding sp(1) [symmetric] by (rule rds)
  then obtain ra rb rc where r: "open_tables E (take first srcs) = Ok ra" "open_tables E (?part srcs) = Ok rb" "rs_readers st = ra @ rb @ rc"
    unfolding open_tables_append by blast
  have "length ra = first" "length rb = lst - first + 1"
    using open_tables_length [OF r(1)] open_tables_length [OF r(2)] rg(1,2) len(1) by simp_all
  then have op: "open_tables E (?part srcs) = Ok (?part (rs_readers st))" using r(2) by (simp add: r(3))
  have cp: "compactable E ?o (?part tabs)" by (rule compactable_part [of E ?o "take first tabs" _ "drop (Suc lst) tabs"], unfold sp(2) [symmetric], rule c)
  from compacted_table [OF E S hsz parts(2) cp op rg(3) res] obtain refs logs where t: "holds_table E S (\<lambda>s. s) (Some (rs_opts st)) src refs logs"
    "table_refs refs = kept first (merge_all E (map (table_refs \<circ> fst) (?part tabs)))"
    "table_logs E ?o logs = kept first (merge_all E (map (table_logs E ?o \<circ> snd) (?part tabs)))" by blast
  have E64: "be64_ok E" using E by (simp add: env_ok_def)
  note inp = holds_tables_inputs [OF tabs]
  note ok = lists_ok_tables(1,2) [OF inp hsz c E64] and okp = lists_ok_tables(2) [OF holds_tables_inputs [OF parts(2)] hsz cp E64]
  have "merged_list E True (map f (replaced first lst (refs, logs) tabs)) = merged_list E True (map f tabs)"
    if "keys_sorted E (map f tabs)" "f (refs, logs) = kept first (merge_all E (map f (?part tabs)))" for f
  proof -
    have "map f tabs = map f (take first tabs) @ map f (?part tabs) @ map f (drop (Suc lst) tabs)" by (subst sp(2)) (simp only: map_append)
    with that merged_replaced [of E "map f (take first tabs)" "map f (?part tabs)" "map f (drop (Suc lst) tabs)" "f (refs, logs)" first]
    show ?thesis by (simp add: replaced_def)
  qed
  moreover have "keys_sorted E (map (table_refs \<circ> fst) tabs)" "keys_sorted E (map (table_logs E ?o \<circ> snd) tabs)"
    using ok by (auto simp: lists_ok_def keys_sorted_def)
  moreover have "\<forall>l \<in> set logs. unat (log_update_index l) < 2 ^ 31"
    using merge_all_ok(2) [OF okp] by (intro table_logs_small [of E ?o _ 0]) (simp add: t(3) kept_def)
  moreover have "list_all2 ?H (replaced first lst (src, name) srcs) (replaced first lst (refs, logs) tabs)"
    unfolding replaced_def using parts(1,3) t(1) by (intro list_all2_appendI) simp_all
  ultimately show ?thesis using t(2,3) by (intro exI [of _ "(refs, logs)"]) simp
qed

end
