(* ===== verification/Reft_Sample_Stack.thy ===== *)
theory Reft_Sample_Stack
  imports Reft_Compact_Inv Reft_Sample_Table
begin

text \<open>
  A stack of two small tables for the witnesses. The second table deletes a reference, and the first
  has a log record.
\<close>

definition stack_opts :: reftable_write_options where
  "stack_opts = \<lparr>wo_unpadded = True, wo_block_size = 96, wo_skip_index_objects = False, wo_restart_interval = 0,
     wo_hash_id = HASH_SHA1, wo_exact_log_message = False\<rparr>"

definition small_upd :: "byte \<Rightarrow> log_record" where
  "small_upd n = \<lparr>log_name = Some [n], log_update_index = 5, log_value = Log_Update
     \<lparr>new_hash = [1, 2, 3, 4], old_hash = [0, 0, 0, 0], log_user = Some [117], log_email = Some [101], log_time = 1, log_tz_offset = 0,
      log_message = Some [109, 10]\<rparr>\<rparr>"

definition sample_stack :: "reftable_reader list \<Rightarrow> reftable_stack" where
  "sample_stack rs = \<lparr>rs_dir = [100], rs_list_file = [100, 47, 108], rs_opts = stack_opts, rs_auto_compaction_factor = 2,
     rs_disable_auto_compact = False, rs_readers = rs, rs_merged = None, rs_stats = \<lparr>cs_bytes = 0, cs_entries_written = 0\<rparr>\<rparr>"

abbreviation sample_tabs :: "(ref_record list \<times> log_record list) list" where
  "sample_tabs \<equiv> [([small_ref 97 7], [small_upd 97]), ([small_del 98], [])]"

lemma stack_options: "all_options sample_env (Some stack_opts) = stack_opts\<lparr>wo_restart_interval := 16\<rparr>"
  by (simp add: all_options_def options_set_defaults_def stack_opts_def)

lemma sample_stack_compacted:
  "\<exists>s1 s2 rs st' s. write_table sample_env buf_sink [] (Some stack_opts) 3 9 [small_ref 97 7] [small_upd 97] = Some (Ok s1)
     \<and> write_table sample_env buf_sink [] (Some stack_opts) 11 11 [small_del 98] [] = Some (Ok s2)
     \<and> open_tables sample_env [(block_source_from_file s1, [49]), (block_source_from_file s2, [50])] = Ok rs
     \<and> stack_compact_locked sample_env buf_sink (sample_stack rs) 0 1 None = Some (Ok (st', Some s))
     \<and> length s1 < 1000 \<and> length s2 < 1000 \<and> length s < 1000"
proof -
  have "case write_table sample_env buf_sink [] (Some stack_opts) 3 9 [small_ref 97 7] [small_upd 97] of Some (Ok s1) \<Rightarrow>
     (case write_table sample_env buf_sink [] (Some stack_opts) 11 11 [small_del 98] [] of Some (Ok s2) \<Rightarrow>
     (case open_tables sample_env [(block_source_from_file s1, [49]), (block_source_from_file s2, [50])] of Ok rs \<Rightarrow>
     (case stack_compact_locked sample_env buf_sink (sample_stack rs) 0 1 None of Some (Ok x) \<Rightarrow>
        (case snd x of Some s \<Rightarrow> length s1 < 1000 \<and> length s2 < 1000 \<and> length s < 1000 | None \<Rightarrow> False)
      | _ \<Rightarrow> False) | _ \<Rightarrow> False) | _ \<Rightarrow> False) | _ \<Rightarrow> False"
    by code_simp
  then show ?thesis unfolding evaluated by (elim exE conjE) (metis prod.collapse)
qed

text \<open>The conditions for the compaction of the two tables.\<close>

lemma small_upd_simps [simp]:
  "stored_log opts (small_upd n) = small_upd n" "log_norm (small_upd n) = small_upd n"
  "log_ok sample_env 4 (small_upd n) \<longleftrightarrow> n \<noteq> 0" "log_update_index (small_upd n) = 5"
  by (auto simp: small_upd_def stored_log_def log_norm_def log_ok_def name_ok_def log_update_ok_def str_ok_def norm_str_def str_or_empty_def
      strlen_def c_str_def)

lemma stack_hashes [simp]: "ref_hashes [small_ref n v] = {[v, 1, 2, 3]}" "ref_hashes [small_ref n v, small_del m] = {[v, 1, 2, 3]}"
  by (auto simp: ref_hashes_def small_ref_def small_del_def)

lemma stack_inputs_ok:
  "input_ok sample_env (all_options sample_env (Some stack_opts)) [small_ref 97 7] [small_upd 97]"
  "input_ok sample_env (all_options sample_env (Some stack_opts)) [small_del 98] []"
  unfolding input_ok_def stack_options by (simp_all add: stack_opts_def)

lemma stack_compactable: "compactable sample_env (all_options sample_env (Some stack_opts)) sample_tabs"
  unfolding compactable_def stack_options by simp

lemma sample_compaction:
  "\<exists>s1 s2 rs st' s. holds_tables sample_env buf_sink (\<lambda>s. s) (Some (rs_opts (sample_stack rs)))
        [(block_source_from_file s1, [49]), (block_source_from_file s2, [50])] sample_tabs
     \<and> open_tables sample_env [(block_source_from_file s1, [49]), (block_source_from_file s2, [50])] = Ok (rs_readers (sample_stack rs))
     \<and> stack_compact_locked sample_env buf_sink (sample_stack rs) 0 1 None = Some (Ok (st', Some s)) \<and> length s < 2 ^ 59
     \<and> source_of (block_source_from_file s) s"
proof -
  from sample_stack_compacted obtain s1 s2 rs st' s where
    s1: "write_table sample_env buf_sink [] (Some stack_opts) 3 9 [small_ref 97 7] [small_upd 97] = Some (Ok s1)" "length s1 < 1000" and
    s2: "write_table sample_env buf_sink [] (Some stack_opts) 11 11 [small_del 98] [] = Some (Ok s2)" "length s2 < 1000" and
    rs: "open_tables sample_env [(block_source_from_file s1, [49]), (block_source_from_file s2, [50])] = Ok rs" and
    s: "stack_compact_locked sample_env buf_sink (sample_stack rs) 0 1 None = Some (Ok (st', Some s))" "length s < 1000" by blast
  have src: "length x < 1000 \<Longrightarrow> source_of (block_source_from_file x) x" for x by (rule source_of_file) simp
  have "holds_table sample_env buf_sink (\<lambda>s. s) (Some stack_opts) (block_source_from_file s1) [small_ref 97 7] [small_upd 97]"
    using s1(2) src by (intro holds_tableI [OF stack_inputs_ok(1) s1(1)]) simp_all
  moreover have "holds_table sample_env buf_sink (\<lambda>s. s) (Some stack_opts) (block_source_from_file s2) [small_del 98] []"
    using s2(2) src by (intro holds_tableI [OF stack_inputs_ok(2) s2(1)]) simp_all
  moreover have "rs_opts (sample_stack rs) = stack_opts" "rs_readers (sample_stack rs) = rs" by (simp_all add: sample_stack_def)
  ultimately have "holds_tables sample_env buf_sink (\<lambda>s. s) (Some (rs_opts (sample_stack rs)))
        [(block_source_from_file s1, [49]), (block_source_from_file s2, [50])] sample_tabs"
    "open_tables sample_env [(block_source_from_file s1, [49]), (block_source_from_file s2, [50])] = Ok (rs_readers (sample_stack rs))"
    using rs by simp_all
  moreover have "length s < 2 ^ 59" using s(2) by simp
  ultimately show ?thesis using s(1) src [OF s(2)] by blast
qed

end
