(* ===== verification/Reft_Segment.thy ===== *)
theory Reft_Segment
  imports Reft_Compact
begin

text \<open>
  The choice of the tables to compact: sizes as natural numbers, as long as no product wraps around.
\<close>

text \<open>Every table is at least \<open>f\<close> times as large as its successor.\<close>

definition geometric :: "nat \<Rightarrow> nat list \<Rightarrow> bool" where
  "geometric f ns \<longleftrightarrow> (\<forall>i. Suc i < length ns \<longrightarrow> f * ns ! Suc i \<le> ns ! i)"

text \<open>The sum of the sizes from \<open>i\<close> to before \<open>e\<close>.\<close>

definition bytes_sum :: "nat list \<Rightarrow> nat \<Rightarrow> nat \<Rightarrow> nat" where
  "bytes_sum ns i e = sum_list (take (e - i) (drop i ns))"

lemma bytes_sum_step: "i < e \<Longrightarrow> e \<le> length ns \<Longrightarrow> bytes_sum ns i e = ns ! i + bytes_sum ns (Suc i) e"
proof -
  assume "i < e" "e \<le> length ns"
  then have "take (e - i) (drop i ns) = ns ! i # take (e - Suc i) (drop (Suc i) ns)"
    by (simp add: Suc_diff_Suc [symmetric] Cons_nth_drop_Suc [symmetric] take_Cons')
  then show ?thesis by (simp add: bytes_sum_def)
qed

lemma bytes_sum_le: "bytes_sum ns i e \<le> sum_list ns"
proof -
  have "sum_list ns = sum_list (take i ns) + sum_list (take (e - i) (drop i ns)) + sum_list (drop (e - i) (drop i ns))"
    by (metis append_take_drop_id sum_list_append add.assoc)
  then show ?thesis by (simp add: bytes_sum_def)
qed

section \<open>The loops\<close>

lemma unat_mult_small: "unat (a :: u64) * unat b < 2 ^ 64 \<Longrightarrow> unat (a * b) = unat a * unat b"
  by (simp add: unat_word_ariths)

lemma unat_ucast_byte: "unat (ucast (x :: byte) :: u64) = unat x"
  using unat_lt [of x] by (simp add: unsigned_ucast_eq take_bit_nat_eq_self)

lemma unat_add_small: "unat (a :: u64) + unat b < 2 ^ 64 \<Longrightarrow> unat (a + b) = unat a + unat b"
  by (simp add: unat_word_ariths)

text \<open>The sum of all sizes times the factor fits into 64 bits.\<close>

definition sizes_fit :: "u64 list \<Rightarrow> u64 \<Rightarrow> bool" where
  "sizes_fit sizes f \<longleftrightarrow> sum_list (map unat sizes) * unat f < 2 ^ 64 \<and> 0 < unat f"

lemma size_small:
  assumes "sizes_fit sizes f"
  shows "bytes_sum (map unat sizes) i e * unat f < 2 ^ 64" "bytes_sum (map unat sizes) i e < 2 ^ 64"
proof -
  have "bytes_sum (map unat sizes) i e * unat f \<le> sum_list (map unat sizes) * unat f" by (intro mult_right_mono bytes_sum_le) simp
  moreover have "sum_list (map unat sizes) * unat f < 2 ^ 64" using assms by (simp add: sizes_fit_def)
  ultimately show "bytes_sum (map unat sizes) i e * unat f < 2 ^ 64" by (rule le_less_trans)
  moreover have "bytes_sum (map unat sizes) i e \<le> bytes_sum (map unat sizes) i e * unat f" using assms by (simp add: sizes_fit_def)
  ultimately show "bytes_sum (map unat sizes) i e < 2 ^ 64" by linarith
qed

lemma less_product: "sizes_fit sizes f \<Longrightarrow> i < length sizes \<Longrightarrow> unat p = bytes_sum (map unat sizes) j e \<Longrightarrow>
    sizes ! i < p * f \<longleftrightarrow> map unat sizes ! i < bytes_sum (map unat sizes) j e * unat f"
  using size_small(1) [of sizes f j e] by (simp add: word_less_nat_alt unat_mult_small)

lemma segment_end_spec:
  assumes "n < length sizes" and fit: "sizes_fit sizes f"
  defines "ns \<equiv> map unat sizes"
  shows "segment_end sizes f n \<le> n" "segment_end sizes f n \<le> j \<Longrightarrow> j < n \<Longrightarrow> unat f * ns ! Suc j \<le> ns ! j"
    "segment_end sizes f n = Suc i \<Longrightarrow> ns ! i < ns ! Suc i * unat f"
proof -
  have nth: "bytes_sum ns (Suc i) (Suc (Suc i)) = ns ! Suc i" if "Suc i < length sizes" for i
    using that bytes_sum_step [of "Suc i" "Suc (Suc i)" ns] by (simp add: ns_def bytes_sum_def)
  have cmp: "sizes ! i < sizes ! Suc i * f \<longleftrightarrow> ns ! i < ns ! Suc i * unat f" if "Suc i < length sizes" for i
    using less_product [OF fit, of i "sizes ! Suc i" "Suc i" "Suc (Suc i)"] nth [OF that] that by (simp add: ns_def)
  have "segment_end sizes f n \<le> n \<and> (\<forall>j. segment_end sizes f n \<le> j \<longrightarrow> j < n \<longrightarrow> unat f * ns ! Suc j \<le> ns ! j)
      \<and> (\<forall>i. segment_end sizes f n = Suc i \<longrightarrow> ns ! i < ns ! Suc i * unat f)"
    using assms(1)
  proof (induction n)
    case (Suc n)
    show ?case
    proof (cases "sizes ! n < sizes ! Suc n * f")
      case True
      then show ?thesis using cmp [of n] Suc.prems by auto
    next
      case False
      then have "unat f * ns ! Suc n \<le> ns ! n" using cmp [of n] Suc.prems by (simp add: mult.commute)
      then show ?thesis using False Suc.IH Suc.prems by (auto simp: less_Suc_eq)
    qed
  qed simp
  then show "segment_end sizes f n \<le> n" "segment_end sizes f n \<le> j \<Longrightarrow> j < n \<Longrightarrow> unat f * ns ! Suc j \<le> ns ! j"
    "segment_end sizes f n = Suc i \<Longrightarrow> ns ! i < ns ! Suc i * unat f" by blast+
qed

lemma segment_start_spec:
  fixes seg :: segment
  assumes "sizes_fit sizes f" "i < e" "e \<le> length sizes" "unat p = bytes_sum (map unat sizes) i e"
  defines "ns \<equiv> map unat sizes" and "res \<equiv> segment_start sizes f i p seg"
  shows "seg_end res = seg_end seg \<and>
    (res = seg \<and> (\<forall>j < i. bytes_sum ns (Suc j) e * unat f \<le> ns ! j)
     \<or> seg_start res < i \<and> unat (seg_bytes res) = bytes_sum ns (seg_start res) e
       \<and> (\<forall>j < seg_start res. bytes_sum ns (Suc j) e * unat f \<le> ns ! j))"
  using assms(2-4) unfolding res_def
proof (induction i arbitrary: p seg)
  case (Suc i)
  let ?b = "p + sizes ! i"
  have "bytes_sum ns i e = ns ! i + bytes_sum ns (Suc i) e" using bytes_sum_step [of i e ns] Suc.prems by (simp add: ns_def)
  moreover have "bytes_sum ns i e < 2 ^ 64" using size_small(2) [OF assms(1)] by (simp add: ns_def)
  ultimately have b: "unat ?b = bytes_sum ns i e" using Suc.prems by (simp add: unat_add_small ns_def)
  have less: "sizes ! i < p * f \<longleftrightarrow> ns ! i < bytes_sum ns (Suc i) e * unat f"
    using less_product [OF assms(1), of i p "Suc i" e] Suc.prems by (simp add: ns_def)
  show ?case
  proof (cases "sizes ! i < p * f")
    case True
    with Suc.IH [of ?b "seg\<lparr>seg_start := i, seg_bytes := ?b\<rparr>"] Suc.prems b show ?thesis by (auto simp: Let_def ns_def)
  next
    case False
    then have "bytes_sum ns (Suc i) e * unat f \<le> ns ! i" using less by simp
    with False Suc.IH [of ?b seg] Suc.prems b show ?thesis by (auto simp: Let_def ns_def less_Suc_eq)
  qed
qed simp

section \<open>The segment\<close>

text \<open>A sequence that is geometric before, at and behind the sum that replaces a segment.\<close>

lemma geometric_replaced:
  fixes ns :: "nat list"
  assumes b: "\<forall>j < s. bytes_sum ns (Suc j) e * f \<le> ns ! j" and a: "\<forall>j. e \<le> Suc j \<longrightarrow> Suc j < length ns \<longrightarrow> f * ns ! Suc j \<le> ns ! j"
    and e: "s + 2 \<le> e" "e \<le> length ns"
  shows "geometric f (take s ns @ [bytes_sum ns s e] @ drop e ns)"
  unfolding geometric_def
proof (intro allI impI)
  fix i assume i: "Suc i < length (take s ns @ [bytes_sum ns s e] @ drop e ns)"
  let ?l = "take s ns @ [bytes_sum ns s e] @ drop e ns"
  have len: "length (take s ns) = s" using e by simp
  have head: "ns ! j \<le> bytes_sum ns j e" if "j < e" for j using that e bytes_sum_step [of j e ns] by simp
  have last_part: "ns ! (e - 1) \<le> bytes_sum ns j e" if "j < e" for j
    using that
  proof (induction "e - 1 - j" arbitrary: j)
    case 0
    then have "e - 1 = j" by linarith
    then show ?case using head [of j] 0 by simp
  next
    case (Suc n)
    then have "ns ! (e - 1) \<le> bytes_sum ns (Suc j) e" by simp
    then show ?case using Suc.prems e bytes_sum_step [of j e ns] by simp
  qed
  consider "Suc i < s" | "Suc i = s" | "i = s" | "s < i" by linarith
  then show "f * ?l ! Suc i \<le> ?l ! i"
  proof cases
    case 1
    have "f * ns ! Suc i \<le> bytes_sum ns (Suc i) e * f" using head [of "Suc i"] 1 e by (simp add: mult.commute)
    also have "\<dots> \<le> ns ! i" using b 1 by simp
    finally show ?thesis using 1 len by (simp add: nth_append)
  next
    case 2
    then show ?thesis using b [rule_format, of i] len by (simp add: nth_append mult.commute)
  next
    case 3
    then have "e < length ns" using i len by simp
    then have "f * ns ! e \<le> ns ! (e - 1)" using a [rule_format, of "e - 1"] e by simp
    also have "\<dots> \<le> bytes_sum ns s e" using last_part [of s] e by simp
    finally show ?thesis using 3 len \<open>e < length ns\<close> by (simp add: nth_append)
  next
    case 4
    have "f * ns ! Suc (e + (i - Suc s)) \<le> ns ! (e + (i - Suc s))" using a i len 4 e by simp
    then show ?thesis using 4 len i e by (simp add: nth_append Suc_diff_Suc)
  qed
qed

end
