(* ===== verification/Reft_Props_Stack.thy ===== *)
theory Reft_Props_Stack
  imports Reft_Sample_Stack Reft_Segment
begin

text \<open>
  The properties of the stack of tables: compaction does not change what is read, and the range
  that is compacted restores the geometric sequence of table sizes.
\<close>

section \<open>Compaction\<close>

text \<open>
  (C2) Compacting a range of tables does not change the references that are read from the stack. The
  tables have been written with the options of the stack, the compaction has returned the contents
  of a new table, and the new table takes the place of the range.
\<close>

theorem compaction_keeps_refs:
  assumes "env_ok E" "appends S (\<lambda>s. s)" "hash_size E (wo_hash_id (all_options E (Some (rs_opts st)))) = Ok hsz"
    and tabs: "holds_tables E S (\<lambda>s. s) (Some (rs_opts st)) srcs tabs"
    and "compactable E (all_options E (Some (rs_opts st))) tabs" "open_tables E srcs = Ok (rs_readers st)"
    and "stack_compact_locked E S st first lst None = Some (Ok (st', Some s))" "length s < 2 ^ 59" "source_of src s"
    and want: "reftable_ref_record_key want = Ok k"
  shows "\<exists>mt mt' l. open_merged E (wo_hash_id (all_options E (Some (rs_opts st)))) True srcs = Ok mt
    \<and> open_merged E (wo_hash_id (all_options E (Some (rs_opts st)))) True (take first srcs @ [(src, name)] @ drop (Suc lst) srcs) = Ok mt'
    \<and> merged_refs_from E mt want = Some (Ok l) \<and> merged_refs_from E mt' want = Some (Ok l)"
proof -
  from compacted_stack [OF assms(1-9), of name] obtain t where
    t: "holds_tables E S (\<lambda>s. s) (Some (rs_opts st))
      (replaced first lst (src, name) srcs) (replaced first lst t tabs)"
    "merged_list E True (map (table_refs \<circ> fst) (replaced first lst t tabs)) = merged_list E True (map (table_refs \<circ> fst) tabs)" by blast
  from merged_refs_listing(2) [OF assms(1-3) tabs want, of True] merged_refs_listing(2) [OF assms(1-3) t(1) want, of True]
  show ?thesis unfolding t(2) by (auto simp: replaced_def)
qed

theorem compaction_keeps_refs_witness:
  "\<exists>s1 s2 rs st' s mt mt' l. stack_compact_locked sample_env buf_sink (sample_stack rs) 0 1 None = Some (Ok (st', Some s))
     \<and> open_merged sample_env HASH_SHA1 True [(block_source_from_file s1, [49]), (block_source_from_file s2, [50])] = Ok mt
     \<and> open_merged sample_env HASH_SHA1 True [(block_source_from_file s, [51])] = Ok mt'
     \<and> merged_refs_from sample_env mt (small_ref 97 0) = Some (Ok l) \<and> merged_refs_from sample_env mt' (small_ref 97 0) = Some (Ok l)"
proof -
  from sample_compaction obtain s1 s2 rs st' s where
    tabs: "holds_tables sample_env buf_sink (\<lambda>s. s) (Some (rs_opts (sample_stack rs)))
        [(block_source_from_file s1, [49]), (block_source_from_file s2, [50])] sample_tabs"
    and rs: "open_tables sample_env [(block_source_from_file s1, [49]), (block_source_from_file s2, [50])] = Ok (rs_readers (sample_stack rs))"
    and s: "stack_compact_locked sample_env buf_sink (sample_stack rs) 0 1 None = Some (Ok (st', Some s))" "length s < 2 ^ 59"
      "source_of (block_source_from_file s) s" by blast
  have o: "rs_opts (sample_stack rs) = stack_opts" "wo_hash_id (all_options sample_env (Some stack_opts)) = HASH_SHA1"
    unfolding stack_options by (simp_all add: sample_stack_def stack_opts_def)
  have "hash_size sample_env (wo_hash_id (all_options sample_env (Some (rs_opts (sample_stack rs))))) = Ok 4" by (simp add: o)
  from compaction_keeps_refs [OF sample_env_ok buf_sink_appends this tabs stack_compactable [folded o(1)] rs s, of "small_ref 97 0" "c_str [97]" "[51]"]
  obtain mt mt' l where "open_merged sample_env HASH_SHA1 True [(block_source_from_file s1, [49]), (block_source_from_file s2, [50])] = Ok mt"
    "open_merged sample_env HASH_SHA1 True [(block_source_from_file s, [51])] = Ok mt'"
    "merged_refs_from sample_env mt (small_ref 97 0) = Some (Ok l)" "merged_refs_from sample_env mt' (small_ref 97 0) = Some (Ok l)"
    unfolding o by auto
  then show ?thesis using s(1) by blast
qed



section \<open>Choosing what to compact\<close>

text \<open>
  (C23) The suggested segment restores the geometric sequence: when no segment is suggested, every
  table is at least as large as its successor times the factor. Otherwise the segment has at least
  two tables, its size is the sum of theirs, and the sequence is geometric once that sum takes
  their place. The sizes are such that their sum times the factor does not wrap around.
\<close>

theorem segment_restores_geometric:
  fixes default_factor factor :: byte
  assumes fit: "sizes_fit sizes (ucast (if factor = 0 then default_factor else factor))"
  defines "seg \<equiv> suggest_compaction_segment default_factor sizes factor" and "ns \<equiv> map unat sizes"
    and "f \<equiv> unat (if factor = 0 then default_factor else factor)"
  shows "if seg_end seg = 0 then geometric f ns
    else seg_start seg + 2 \<le> seg_end seg \<and> seg_end seg \<le> length sizes
      \<and> unat (seg_bytes seg) = sum_list (take (seg_end seg - seg_start seg) (drop (seg_start seg) ns))
      \<and> geometric f (take (seg_start seg) ns @ [unat (seg_bytes seg)] @ drop (seg_end seg) ns)"
proof -
  define F :: u64 where "F = ucast (if factor = 0 then default_factor else factor)"
  have F: "unat F = f" "sizes_fit sizes F" using fit by (simp_all add: F_def f_def unat_ucast_byte)
  let ?n = "length sizes - 1"
  show ?thesis
  proof (cases "length sizes \<le> 1")
    case True
    then show ?thesis by (simp add: seg_def suggest_compaction_segment_def geometric_def ns_def)
  next
    case False
    then have n: "?n < length sizes" by simp
    define i where "i = segment_end sizes F ?n"
    note e = segment_end_spec [OF n F(2), folded i_def ns_def, unfolded F(1)]
    show ?thesis
    proof (cases "i = 0")
      case True
      then have "seg_end seg = 0" using False by (simp add: seg_def suggest_compaction_segment_def Let_def i_def F_def)
      then show ?thesis using e(2) True by (auto simp: geometric_def ns_def)
    next
      case i: False
      let ?s0 = "\<lparr>seg_start = 0, seg_end = i + 1, seg_bytes = 0\<rparr>"
      have seg: "seg = segment_start sizes F i (sizes ! i) ?s0"
        using False i by (simp add: seg_def suggest_compaction_segment_def Let_def i_def F_def)
      have ie: "i < i + 1" "i + 1 \<le> length sizes" using e(1) n by simp_all
      have "bytes_sum ns i (i + 1) = ns ! i" using ie by (simp add: bytes_sum_def ns_def take_Suc_conv_app_nth)
      then have "unat (sizes ! i) = bytes_sum ns i (i + 1)" using ie by (simp add: ns_def)
      from segment_start_spec [OF F(2) ie this [unfolded ns_def], of ?s0, folded seg ns_def, unfolded F(1)]
      have st: "seg_end seg = i + 1" "seg = ?s0 \<and> (\<forall>j < i. bytes_sum ns (Suc j) (i + 1) * f \<le> ns ! j)
        \<or> seg_start seg < i \<and> unat (seg_bytes seg) = bytes_sum ns (seg_start seg) (i + 1) \<and> (\<forall>j < seg_start seg. bytes_sum ns (Suc j) (i + 1) * f \<le> ns ! j)"
        by simp_all
      obtain j where j: "i = Suc j" using i by (cases i) simp_all
      have "\<not> bytes_sum ns (Suc j) (i + 1) * f \<le> ns ! j"
        using e(3) [OF j] j \<open>bytes_sum ns i (i + 1) = ns ! i\<close> by simp
      then have s: "seg_start seg < i" "unat (seg_bytes seg) = bytes_sum ns (seg_start seg) (i + 1)"
        "\<forall>j < seg_start seg. bytes_sum ns (Suc j) (i + 1) * f \<le> ns ! j" using st(2) j by auto
      have "geometric f (take (seg_start seg) ns @ [bytes_sum ns (seg_start seg) (i + 1)] @ drop (i + 1) ns)"
        using s e(2) ie by (intro geometric_replaced) (auto simp: ns_def)
      then show ?thesis using s st(1) ie by (simp add: bytes_sum_def)
    qed
  qed
qed

theorem segment_restores_geometric_witness:
  "sizes_fit [64, 32, 16, 8, 4, 3, 1] 2 \<and> geometric 2 ([] @ [127] @ [1])
    \<and> suggest_compaction_segment 2 [64, 32, 16, 8, 4, 3, 1] 0 = \<lparr>seg_start = 0, seg_end = 6, seg_bytes = 127\<rparr>"
proof -
  have fit: "sizes_fit [64, 32, 16, 8, 4, 3, 1] (ucast (if (0 :: byte) = 0 then 2 :: byte else 0))" by (simp add: sizes_fit_def)
  have seg: "suggest_compaction_segment 2 [64, 32, 16, 8, 4, 3, 1] 0 = \<lparr>seg_start = 0, seg_end = 6, seg_bytes = 127\<rparr>" by code_simp
  from segment_restores_geometric [OF fit] fit show ?thesis unfolding seg by simp
qed

end
