(* ===== verification/Spec2Isabelle.thy ===== *)
theory Spec2Isabelle
  imports Reft_Props_Data Reft_Props_Block Reft_Props_Table Reft_Props_Stack
begin

text \<open>
  A model of the reftable library of git, as it is in
  \<open>src/repos/repos_output/dataset/projects/git_git_master/reftable_*.c\<close>.
\<close>

end
